(* ===== verification/JS_Prelude.thy ===== *)
theory JS_Prelude
  imports Complex_Main "HOL-Library.Multiset" "HOL-Library.Sublist"
begin

text \<open>
  Shared material of the development: the collections of simplification rules,
  the state-and-exception monad in which the effects of JavaScript callbacks are
  written, its loop combinators, decimal numerals, and generic lemmas on lists.

  A computation of type \<open>('e, 's, 'a) mon\<close> takes a state, and either throws an
  exception (\<open>Inl\<close>) or returns a value (\<open>Inr\<close>); in both cases it
  leaves a state behind, as a JavaScript callback that throws does.
\<close>

named_theorems js_simps
named_theorems js_loops

section \<open>The state-and-exception monad\<close>

type_synonym ('e, 's, 'a) mon = "'s \<Rightarrow> ('e + 'a) \<times> 's"

definition retM :: "'a \<Rightarrow> ('e, 's, 'a) mon" where
  "retM a = (\<lambda>s. (Inr a, s))"

definition throwM :: "'e \<Rightarrow> ('e, 's, 'a) mon" where
  "throwM e = (\<lambda>s. (Inl e, s))"

definition bindM :: "('e, 's, 'a) mon \<Rightarrow> ('a \<Rightarrow> ('e, 's, 'b) mon) \<Rightarrow> ('e, 's, 'b) mon" where
  "bindM m f = (\<lambda>s. case m s of (Inl e, s') \<Rightarrow> (Inl e, s') | (Inr a, s') \<Rightarrow> f a s')"

definition getS :: "('e, 's, 's) mon" where
  "getS = (\<lambda>s. (Inr s, s))"

definition modS :: "('s \<Rightarrow> 's) \<Rightarrow> ('e, 's, unit) mon" where
  "modS f = (\<lambda>s. (Inr (), f s))"

text \<open>A result that was computed without touching the state.\<close>

definition liftE :: "'e + 'a \<Rightarrow> ('e, 's, 'a) mon" where
  "liftE r = (\<lambda>s. (r, s))"

text \<open>
  A computation on the caller's state, run inside a closure that also owns captured
  variables (the first component).
\<close>

definition outerM :: "('e, 's, 'a) mon \<Rightarrow> ('e, 'c \<times> 's, 'a) mon" where
  "outerM m = (\<lambda>(c, s). case m s of (r, s') \<Rightarrow> (r, (c, s')))"

definition setC :: "('c \<Rightarrow> 'c) \<Rightarrow> ('e, 'c \<times> 's, unit) mon" where
  "setC f = (\<lambda>(c, s). (Inr (), (f c, s)))"

definition getC :: "('e, 'c \<times> 's, 'c) mon" where
  "getC = (\<lambda>(c, s). (Inr c, (c, s)))"

text \<open>Run a computation with its own captured variables, and read them at the end.\<close>

definition withC :: "'c \<Rightarrow> ('e, 'c \<times> 's, 'a) mon \<Rightarrow> ('e, 's, 'a \<times> 'c) mon" where
  "withC c m = (\<lambda>s. case m (c, s) of
     (Inl e, (c', s')) \<Rightarrow> (Inl e, s') | (Inr a, (c', s')) \<Rightarrow> (Inr (a, c'), s'))"

lemma bindM_retM [simp]: "bindM (retM a) f = f a"
  by (simp add: bindM_def retM_def)

lemma bindM_throwM [simp]: "bindM (throwM e) f = throwM e"
  by (simp add: bindM_def throwM_def)

lemma bindM_retM_right [simp]: "bindM m retM = m"
  by (rule ext) (simp add: bindM_def retM_def split: prod.split sum.split)

lemma bindM_unit [simp]: "bindM m (\<lambda>u. retM ()) = m"
  by (rule ext) (simp add: bindM_def retM_def split: prod.split sum.split)

lemma bindM_assoc [simp]: "bindM (bindM m f) g = bindM m (\<lambda>x. bindM (f x) g)"
  by (rule ext) (simp add: bindM_def split: prod.split sum.split)

lemma retM_app [js_simps]: "retM a s = (Inr a, s)"
  by (simp add: retM_def)

lemma throwM_app [js_simps]: "throwM e s = (Inl e, s)"
  by (simp add: throwM_def)

lemma bindM_app [js_simps]:
  "bindM m f s = (case m s of (Inl e, s') \<Rightarrow> (Inl e, s') | (Inr a, s') \<Rightarrow> f a s')"
  by (simp add: bindM_def)

lemma liftE_Inr [simp]: "liftE (Inr a) = retM a"
  by (simp add: liftE_def retM_def)

lemma liftE_Inl [simp]: "liftE (Inl e) = throwM e"
  by (simp add: liftE_def throwM_def)

lemma outerM_retM [simp]: "outerM (retM a) = retM a"
  by (rule ext) (simp add: outerM_def retM_def split: prod.split)

lemma withC_retM [simp]: "withC c (retM a) = retM (a, c)"
  by (rule ext) (simp add: withC_def retM_def)

lemma withC_throwM [simp]: "withC c (throwM e) = throwM e"
  by (rule ext) (simp add: withC_def throwM_def)

lemma withC_setC [simp]: "withC c (bindM (setC f) g) = withC (f c) (g ())"
  by (rule ext) (simp add: withC_def setC_def bindM_def)

lemma withC_getC [simp]: "withC c (bindM getC g) = withC c (g c)"
  by (rule ext) (simp add: withC_def getC_def bindM_def)

section \<open>Loops\<close>

text \<open>
  \<open>iterM\<close> is a \<open>for\<close> loop whose body returns nothing, \<open>mapM\<close> one that
  collects the results, \<open>foldM\<close> one that updates an accumulator, \<open>anyM\<close>
  one that returns from the function at the first iteration whose body says so.
\<close>

fun iterM :: "('a \<Rightarrow> ('e, 's, unit) mon) \<Rightarrow> 'a list \<Rightarrow> ('e, 's, unit) mon" where
  "iterM f [] = retM ()"
| "iterM f (x # xs) = bindM (f x) (\<lambda>_. iterM f xs)"

fun mapM :: "('a \<Rightarrow> ('e, 's, 'b) mon) \<Rightarrow> 'a list \<Rightarrow> ('e, 's, 'b list) mon" where
  "mapM f [] = retM []"
| "mapM f (x # xs) = bindM (f x) (\<lambda>y. bindM (mapM f xs) (\<lambda>ys. retM (y # ys)))"

fun foldM :: "('b \<Rightarrow> 'a \<Rightarrow> ('e, 's, 'b) mon) \<Rightarrow> 'b \<Rightarrow> 'a list \<Rightarrow> ('e, 's, 'b) mon" where
  "foldM f b [] = retM b"
| "foldM f b (x # xs) = bindM (f b x) (\<lambda>b'. foldM f b' xs)"

fun anyM :: "('a \<Rightarrow> ('e, 's, bool) mon) \<Rightarrow> 'a list \<Rightarrow> ('e, 's, bool) mon" where
  "anyM f [] = retM False"
| "anyM f (x # xs) = bindM (f x) (\<lambda>b. if b then retM True else anyM f xs)"

lemma iterM_pure [js_loops]: "iterM (\<lambda>x. retM ()) xs = retM ()"
  by (induction xs) auto

lemma mapM_pure [js_loops]: "mapM (\<lambda>x. retM (f x)) xs = retM (map f xs)"
  by (induction xs) auto

lemma foldM_pure [js_loops]: "foldM (\<lambda>b x. retM (f b x)) b xs = retM (foldl f b xs)"
  by (induction xs arbitrary: b) auto

lemma anyM_pure [js_loops]: "anyM (\<lambda>x. retM (f x)) xs = retM (\<exists>x\<in>set xs. f x)"
  by (induction xs) auto

lemma iterM_append: "iterM f (xs @ ys) = bindM (iterM f xs) (\<lambda>_. iterM f ys)"
  by (induction xs) auto

lemma withC_iterM_setC:
  "withC c (bindM (iterM (\<lambda>x. setC (g x)) xs) k) = withC (fold g xs c) (k ())"
  by (induction xs arbitrary: c) auto

lemma withC_iterM_setC':
  "withC c (iterM (\<lambda>x. setC (g x)) xs) = retM ((), fold g xs c)"
  using withC_iterM_setC [of c g xs retM] by simp

lemma setC_id [simp]: "bindM (setC (\<lambda>c. c)) m = m ()"
  by (rule ext) (simp add: bindM_def setC_def split: prod.split)

lemma setC_if: "(if b then bindM (setC f) m else m ()) = bindM (setC (if b then f else (\<lambda>c. c))) m"
  by (rule ext) (simp add: bindM_def setC_def)

lemma iterM_cong_set:
  "xs = ys \<Longrightarrow> (\<And>x. x \<in> set ys \<Longrightarrow> f x = g x) \<Longrightarrow> iterM f xs = iterM g ys"
  by (induction xs arbitrary: ys) auto

lemma mapM_cong_set:
  "xs = ys \<Longrightarrow> (\<And>x. x \<in> set ys \<Longrightarrow> f x = g x) \<Longrightarrow> mapM f xs = mapM g ys"
  by (induction xs arbitrary: ys) auto

section \<open>Decimal numerals\<close>

text \<open>\<open>ToString\<close> of a non-negative integer, and the reading of a canonical numeral.\<close>

definition digit_char :: "nat \<Rightarrow> char" where
  "digit_char d = ''0123456789'' ! d"

definition is_digit :: "char \<Rightarrow> bool" where
  "is_digit c \<longleftrightarrow> 48 \<le> (of_char c :: nat) \<and> (of_char c :: nat) \<le> 57"

definition digit_val :: "char \<Rightarrow> nat" where
  "digit_val c = of_char c - 48"

fun show_nat :: "nat \<Rightarrow> string" where
  "show_nat n = (if n < 10 then [digit_char n] else show_nat (n div 10) @ [digit_char (n mod 10)])"

declare show_nat.simps [simp del]

definition read_nat :: "string \<Rightarrow> nat" where
  "read_nat s = foldl (\<lambda>n c. 10 * n + digit_val c) 0 s"

definition canonical_numeral :: "string \<Rightarrow> bool" where
  "canonical_numeral s \<longleftrightarrow> s \<noteq> [] \<and> list_all is_digit s \<and> (s = ''0'' \<or> hd s \<noteq> CHR ''0'')"

lemma less_10_cases:
  assumes "(d::nat) < 10"
  shows "d \<in> {0, 1, 2, 3, 4, 5, 6, 7, 8, 9}"
  using assms by auto

lemma digit_char_props:
  assumes "d < 10"
  shows "is_digit (digit_char d)" "digit_val (digit_char d) = d"
  using less_10_cases [OF assms] by (auto simp: is_digit_def digit_val_def digit_char_def)

lemma show_nat_digits: "list_all is_digit (show_nat n)"
proof (induction n rule: show_nat.induct)
  case (1 n)
  then show ?case by (subst show_nat.simps) (auto simp: digit_char_props)
qed

lemma show_nat_ne [simp]: "show_nat n \<noteq> []"
  by (subst show_nat.simps) simp

lemma read_show_nat [simp]: "read_nat (show_nat n) = n"
proof (induction n rule: show_nat.induct)
  case (1 n)
  show ?case
  proof (cases "n < 10")
    case True
    then show ?thesis by (subst show_nat.simps) (simp add: read_nat_def digit_char_props)
  next
    case False
    with "1" have "read_nat (show_nat (n div 10)) = n div 10" by simp
    with False show ?thesis
      by (subst show_nat.simps) (simp add: read_nat_def digit_char_props)
  qed
qed

lemma show_nat_inj [simp]: "show_nat m = show_nat n \<longleftrightarrow> m = n"
  by (metis read_show_nat)

lemma digit_char_zero:
  assumes "d < 10"
  shows "digit_char d = CHR ''0'' \<longleftrightarrow> d = 0"
  using less_10_cases [OF assms] by (auto simp: digit_char_def)

lemma hd_show_nat: "0 < n \<Longrightarrow> hd (show_nat n) \<noteq> CHR ''0''"
proof (induction n rule: show_nat.induct)
  case (1 n)
  show ?case
  proof (cases "n < 10")
    case True
    with "1.prems" show ?thesis by (subst show_nat.simps) (simp add: digit_char_zero)
  next
    case False
    then have "0 < n div 10" by simp
    with "1.IH" False have "hd (show_nat (n div 10)) \<noteq> CHR ''0''" by blast
    with False show ?thesis by (subst show_nat.simps) simp
  qed
qed

lemma show_nat_canonical [simp]: "canonical_numeral (show_nat n)"
proof (cases "n = 0")
  case True
  then show ?thesis
    by (simp add: canonical_numeral_def show_nat.simps digit_char_def is_digit_def)
next
  case False
  then show ?thesis
    by (simp add: canonical_numeral_def show_nat_digits hd_show_nat)
qed

text \<open>A canonical numeral is what printing its value gives.\<close>

lemma digit_val_less: "is_digit c \<Longrightarrow> digit_val c < 10"
  unfolding is_digit_def digit_val_def by linarith

lemma of_char_digit_char: "d < 10 \<Longrightarrow> (of_char (digit_char d) :: nat) = 48 + d"
  by (drule less_10_cases) (auto simp: digit_char_def)

lemma digit_char_val:
  assumes "is_digit c"
  shows "digit_char (digit_val c) = c"
proof -
  have "(of_char c :: nat) = 48 + digit_val c"
    using assms unfolding is_digit_def digit_val_def by linarith
  then have "(of_char (digit_char (digit_val c)) :: nat) = of_char c"
    using of_char_digit_char [OF digit_val_less [OF assms]] by simp
  then show ?thesis by simp
qed

lemma show_read_nat: "canonical_numeral s \<Longrightarrow> show_nat (read_nat s) = s"
proof (induction s rule: rev_induct)
  case Nil
  then show ?case by (simp add: canonical_numeral_def)
next
  case (snoc c s)
  then have c: "is_digit c" and s: "list_all is_digit s" by (auto simp: canonical_numeral_def)
  note dv = digit_val_less [OF c] digit_char_val [OF c]
  have rd: "read_nat (s @ [c]) = 10 * read_nat s + digit_val c" by (simp add: read_nat_def)
  show ?case
  proof (cases "s = []")
    case True
    then have "read_nat (s @ [c]) = digit_val c" by (simp add: read_nat_def)
    with True dv show ?thesis by (subst show_nat.simps) simp
  next
    case False
    with snoc.prems have hd: "hd s \<noteq> CHR ''0''" by (auto simp: canonical_numeral_def)
    with s False have IH: "show_nat (read_nat s) = s" by (intro snoc.IH) (simp add: canonical_numeral_def)
    have "read_nat s \<noteq> 0"
    proof
      assume "read_nat s = 0"
      with IH have "s = show_nat 0" by simp
      with hd show False by (simp add: show_nat.simps digit_char_def)
    qed
    with rd dv IH show ?thesis by (subst show_nat.simps) simp
  qed
qed

section \<open>Lists\<close>

text \<open>The pairs of an index and its element, which an array loop visits in order.\<close>

definition indexed :: "'a list \<Rightarrow> (nat \<times> 'a) list" where
  "indexed xs = zip [0..<length xs] xs"

lemma indexed_Nil [simp]: "indexed [] = []"
  by (simp add: indexed_def)

lemma map_snd_indexed [simp]: "map snd (indexed xs) = xs"
  by (simp add: indexed_def)

lemma map_fst_indexed [simp]: "map fst (indexed xs) = [0..<length xs]"
  by (simp add: indexed_def)

lemma length_indexed [simp]: "length (indexed xs) = length xs"
  by (simp add: indexed_def)

lemma map_nth_upt: "map (\<lambda>i. f (xs ! i) i) [0..<length xs] = map (\<lambda>(i, x). f x i) (indexed xs)"
  by (rule nth_equalityI) (auto simp: indexed_def)

lemma set_indexed: "(i, x) \<in> set (indexed xs) \<longleftrightarrow> i < length xs \<and> x = xs ! i"
  by (force simp: indexed_def set_zip)

lemma foldl_comp_map: "foldl (\<lambda>m k. g m (e k)) m ks = foldl g m (map e ks)"
  by (induction ks arbitrary: m) auto

section \<open>Sorting with a comparator\<close>

text \<open>
  \<open>Array.prototype.sort\<close> with a comparison function, as the stable insertion sort:
  an element goes before the first one that compares greater. For a consistent comparator
  (the locale \<open>comparator\<close>) the result is the only stable arrangement, so the
  choice of algorithm does not show.
\<close>

fun sort_ins :: "('a \<Rightarrow> 'a \<Rightarrow> bool) \<Rightarrow> 'a \<Rightarrow> 'a list \<Rightarrow> 'a list" where
  "sort_ins gt x [] = [x]"
| "sort_ins gt x (y # ys) = (if gt y x then x # y # ys else y # sort_ins gt x ys)"

definition js_sort :: "('a \<Rightarrow> 'a \<Rightarrow> bool) \<Rightarrow> 'a list \<Rightarrow> 'a list" where
  "js_sort gt xs = foldl (\<lambda>acc x. sort_ins gt x acc) [] xs"

lemma mset_sort_ins [simp]: "mset (sort_ins gt x xs) = add_mset x (mset xs)"
  by (induction xs) auto

lemma mset_foldl_sort_ins:
  "mset (foldl (\<lambda>acc x. sort_ins gt x acc) acc xs) = mset acc + mset xs"
  by (induction xs arbitrary: acc) auto

lemma mset_js_sort [simp]: "mset (js_sort gt xs) = mset xs"
  by (simp add: js_sort_def mset_foldl_sort_ins)

lemma set_js_sort [simp]: "set (js_sort gt xs) = set xs"
  by (metis mset_js_sort set_mset_mset)

lemma length_js_sort [simp]: "length (js_sort gt xs) = length xs"
  by (metis mset_js_sort size_mset)

text \<open>
  The contract of a comparison function on the elements that satisfy \<open>ok\<close>:
  \<open>gt a b\<close> (it returns a positive number) is the strict part of a total preorder.
\<close>

locale comparator =
  fixes ok :: "'a \<Rightarrow> bool" and gt :: "'a \<Rightarrow> 'a \<Rightarrow> bool"
  assumes gt_asym: "ok a \<Longrightarrow> ok b \<Longrightarrow> gt a b \<Longrightarrow> \<not> gt b a"
    and gt_negtrans: "ok a \<Longrightarrow> ok b \<Longrightarrow> ok c \<Longrightarrow> gt a c \<Longrightarrow> gt a b \<or> gt b c"
begin

lemma set_sort_ins: "set (sort_ins gt x xs) = insert x (set xs)"
  by (metis mset_sort_ins set_mset_add_mset_insert set_mset_mset)

lemma sorted_sort_ins:
  assumes "sorted_wrt (\<lambda>a b. \<not> gt a b) xs" "ok x" "\<forall>y\<in>set xs. ok y"
  shows "sorted_wrt (\<lambda>a b. \<not> gt a b) (sort_ins gt x xs)"
  using assms
proof (induction xs)
  case Nil
  then show ?case by simp
next
  case (Cons y ys)
  show ?case
  proof (cases "gt y x")
    case True
    with Cons.prems have "\<not> gt x z" if "z \<in> set (y # ys)" for z
      using that gt_asym gt_negtrans by (metis list.set_intros(1) set_ConsD sorted_wrt.simps(2))
    with True Cons.prems show ?thesis by auto
  next
    case False
    with Cons.prems Cons.IH show ?thesis by (auto simp: set_sort_ins)
  qed
qed

lemma sorted_foldl_sort_ins:
  "sorted_wrt (\<lambda>a b. \<not> gt a b) acc \<Longrightarrow> \<forall>y\<in>set acc. ok y \<Longrightarrow> \<forall>y\<in>set xs. ok y \<Longrightarrow>
   sorted_wrt (\<lambda>a b. \<not> gt a b) (foldl (\<lambda>acc x. sort_ins gt x acc) acc xs)"
proof (induction xs arbitrary: acc)
  case Nil
  then show ?case by simp
next
  case (Cons x xs)
  have "sorted_wrt (\<lambda>a b. \<not> gt a b) (sort_ins gt x acc)" "\<forall>y\<in>set (sort_ins gt x acc). ok y"
    using Cons.prems by (auto simp: set_sort_ins intro: sorted_sort_ins)
  with Cons.IH Cons.prems show ?case by simp
qed

lemma sorted_js_sort:
  "\<forall>y\<in>set xs. ok y \<Longrightarrow> sorted_wrt (\<lambda>a b. \<not> gt a b) (js_sort gt xs)"
  unfolding js_sort_def by (rule sorted_foldl_sort_ins) auto

text \<open>Stability: the elements that compare equal to a given one keep their order.\<close>

lemma filter_sort_ins:
  assumes "\<forall>y\<in>set xs. ok y" "ok x" "sorted_wrt (\<lambda>a b. \<not> gt a b) xs"
    and "\<And>y. y \<in> set xs \<Longrightarrow> P x \<Longrightarrow> P y \<Longrightarrow> \<not> gt y x"
    and "\<And>y z. y \<in> set xs \<Longrightarrow> z \<in> set xs \<Longrightarrow> gt y x \<Longrightarrow> \<not> gt y z \<Longrightarrow> P x \<Longrightarrow> \<not> P z"
  shows "filter P (sort_ins gt x xs) = filter P xs @ (if P x then [x] else [])"
  using assms
proof (induction xs)
  case Nil
  then show ?case by simp
next
  case (Cons y ys)
  show ?case
  proof (cases "gt y x")
    case False
    have "filter P (sort_ins gt x ys) = filter P ys @ (if P x then [x] else [])"
      using Cons.prems by (intro Cons.IH) auto
    with False show ?thesis by simp
  next
    case True
    show ?thesis
    proof (cases "P x")
      case False
      with True show ?thesis by simp
    next
      case Px: True
      have "\<not> P z" if "z \<in> set (y # ys)" for z
        using Cons.prems True Px that by (metis list.set_intros(1) set_ConsD sorted_wrt.simps(2))
      then have "filter P (y # ys) = []" by (simp add: filter_empty_conv)
      with True Px show ?thesis by simp
    qed
  qed
qed

lemma stable_foldl:
  assumes "\<forall>y\<in>set acc. ok y" "\<forall>y\<in>set xs. ok y" "ok p" "sorted_wrt (\<lambda>a b. \<not> gt a b) acc"
  defines "P \<equiv> \<lambda>y. \<not> gt y p \<and> \<not> gt p y"
  shows "filter P (foldl (\<lambda>acc x. sort_ins gt x acc) acc xs) = filter P acc @ filter P xs"
  using assms(1,2,4)
proof (induction xs arbitrary: acc)
  case Nil
  then show ?case by simp
next
  case (Cons x xs)
  have ins: "filter P (sort_ins gt x acc) = filter P acc @ (if P x then [x] else [])"
  proof (rule filter_sort_ins)
    show "\<And>y. y \<in> set acc \<Longrightarrow> P x \<Longrightarrow> P y \<Longrightarrow> \<not> gt y x"
      using Cons.prems \<open>ok p\<close> gt_negtrans unfolding P_def by (metis list.set_intros(1))
    show "\<And>y z. y \<in> set acc \<Longrightarrow> z \<in> set acc \<Longrightarrow> gt y x \<Longrightarrow> \<not> gt y z \<Longrightarrow> P x \<Longrightarrow> \<not> P z"
      using Cons.prems \<open>ok p\<close> gt_negtrans unfolding P_def by (metis list.set_intros(1))
  qed (use Cons.prems in auto)
  have "filter P (foldl (\<lambda>acc x. sort_ins gt x acc) (sort_ins gt x acc) xs)
      = filter P (sort_ins gt x acc) @ filter P xs"
    using Cons.prems by (intro Cons.IH) (auto simp: set_sort_ins intro: sorted_sort_ins)
  with ins show ?case by simp
qed

lemma stable_js_sort:
  assumes "\<forall>y\<in>set xs. ok y" "ok p"
  shows "filter (\<lambda>y. \<not> gt y p \<and> \<not> gt p y) (js_sort gt xs)
       = filter (\<lambda>y. \<not> gt y p \<and> \<not> gt p y) xs"
  unfolding js_sort_def using stable_foldl [of "[]" xs p] assms by simp

end

section \<open>Reachable states\<close>

text \<open>
  The states a machine can get into, and the interface of an invariant. Inside the second
  locale a further invariant is proved under the first one; both together are an invariant.
\<close>

inductive reachable :: "('s \<Rightarrow> bool) \<Rightarrow> ('s \<Rightarrow> 's \<Rightarrow> bool) \<Rightarrow> 's \<Rightarrow> bool"
  for start :: "'s \<Rightarrow> bool" and move :: "'s \<Rightarrow> 's \<Rightarrow> bool" where
  reachable_start: "start s \<Longrightarrow> reachable start move s"
| reachable_move: "reachable start move s \<Longrightarrow> move s s' \<Longrightarrow> reachable start move s'"

locale invariant =
  fixes start :: "'s \<Rightarrow> bool" and move :: "'s \<Rightarrow> 's \<Rightarrow> bool" and inv :: "'s \<Rightarrow> bool"
  assumes inv_start: "start s \<Longrightarrow> inv s"
    and inv_move: "inv s \<Longrightarrow> move s s' \<Longrightarrow> inv s'"
begin

lemma reachable_inv: "reachable start move s \<Longrightarrow> inv s"
  by (induction rule: reachable.induct) (auto intro: inv_start inv_move)

end

locale relative_invariant = invariant start move inv
  for start :: "'s \<Rightarrow> bool" and move :: "'s \<Rightarrow> 's \<Rightarrow> bool" and inv :: "'s \<Rightarrow> bool" +
  fixes rel :: "'s \<Rightarrow> bool"
  assumes rel_start: "start s \<Longrightarrow> rel s"
    and rel_move: "inv s \<Longrightarrow> rel s \<Longrightarrow> move s s' \<Longrightarrow> rel s'"
begin

lemma both_start: "start s \<Longrightarrow> inv s \<and> rel s"
  by (simp add: inv_start rel_start)

lemma both_move: "inv s \<and> rel s \<Longrightarrow> move s s' \<Longrightarrow> inv s' \<and> rel s'"
  by (blast intro: inv_move rel_move)

end

sublocale relative_invariant \<subseteq> both: invariant start move "\<lambda>s. inv s \<and> rel s"
  by unfold_locales (auto dest: both_start intro: inv_move rel_move)

context relative_invariant
begin

lemma reachable_rel: "reachable start move s \<Longrightarrow> rel s"
  using both.reachable_inv by blast

end

end
