(* ===== verification/JS_Values.thy ===== *)
theory JS_Values
  imports JS_Prelude "HOL-Library.List_Lexorder" "HOL-Library.Char_ord"
begin

text \<open>
  The part of the JavaScript language the modelled sources rely on: numbers, values,
  objects in a store, strict equality, truth, conversions to number, string and property
  key, relational comparison, property lookup along the prototype chain, the order in
  which properties are enumerated, and the exceptions a callback can end in.

  Bounds of the model. A number is an integer, minus zero, an infinity or NaN: no value
  of these sources has a fractional part except where a division is followed at once by a
  rounding, which is written out. A string is a list of characters with codes below 256.
  Arrays are dense.

  Objects that exist before a call live in a store (\<open>heap\<close>) and are values
  \<open>Ref r\<close>, compared by address. Arrays and plain objects that a function creates and
  returns are written as the literals \<open>Arr\<close> and \<open>PObj\<close>; every occurrence
  of a literal is an object of its own, so strict equality is false on them.
\<close>

section \<open>Numbers and values\<close>

datatype jsnum = NaN | PInf | NInf | NegZero | Fin int

datatype key = Idx nat | Name string

datatype jsval = Undef | Null | Bool bool | Num jsnum | Str string
  | Ref nat | Arr "jsval list" | PObj "(key \<times> jsval) list"

abbreviation inum :: "int \<Rightarrow> jsval" where
  "inum i \<equiv> Num (Fin i)"

abbreviation nnum :: "nat \<Rightarrow> jsval" where
  "nnum n \<equiv> Num (Fin (int n))"

datatype jsexn = TypeErr string | RangeErr string | Thrown jsval | Diverges

type_synonym ('s, 'a) js = "(jsexn, 's, 'a) mon"

text \<open>A callable: it takes \<open>this\<close> and the arguments.\<close>

type_synonym 's fn = "jsval \<Rightarrow> jsval list \<Rightarrow> ('s, jsval) js"

definition arg :: "jsval list \<Rightarrow> nat \<Rightarrow> jsval" where
  "arg args i = (if i < length args then args ! i else Undef)"

lemma arg_Cons [simp]:
  "arg (x # xs) 0 = x" "arg (x # xs) (Suc i) = arg xs i" "arg [] i = Undef"
  by (simp_all add: arg_def)

lemma arg_numeral [simp]: "arg (x # xs) (numeral n) = arg xs (pred_numeral n)"
  by (simp add: arg_def numeral_eq_Suc)

definition norm0 :: "jsnum \<Rightarrow> jsnum" where
  "norm0 n = (if n = NegZero then Fin 0 else n)"

lemma norm0_simps [simp]: "norm0 (Fin i) = Fin i" "norm0 NaN = NaN" "norm0 PInf = PInf" "norm0 NInf = NInf"
    "norm0 NegZero = Fin 0"
  by (simp_all add: norm0_def)

text \<open>\<open>===\<close> on numbers: NaN differs from itself, the two zeros are equal.\<close>

definition num_eq :: "jsnum \<Rightarrow> jsnum \<Rightarrow> bool" where
  "num_eq a b \<longleftrightarrow> a \<noteq> NaN \<and> b \<noteq> NaN \<and> norm0 a = norm0 b"

definition num_less :: "jsnum \<Rightarrow> jsnum \<Rightarrow> bool" where
  "num_less a b = (case (norm0 a, norm0 b) of
      (NaN, _) \<Rightarrow> False
    | (_, NaN) \<Rightarrow> False
    | (PInf, _) \<Rightarrow> False
    | (_, NInf) \<Rightarrow> False
    | (NInf, _) \<Rightarrow> True
    | (_, PInf) \<Rightarrow> True
    | (Fin x, Fin y) \<Rightarrow> x < y
    | _ \<Rightarrow> False)"

fun strict_eq :: "jsval \<Rightarrow> jsval \<Rightarrow> bool" where
  "strict_eq Undef Undef = True"
| "strict_eq Null Null = True"
| "strict_eq (Bool a) (Bool b) = (a = b)"
| "strict_eq (Num a) (Num b) = num_eq a b"
| "strict_eq (Str a) (Str b) = (a = b)"
| "strict_eq (Ref a) (Ref b) = (a = b)"
| "strict_eq _ _ = False"

text \<open>\<open>v == null\<close>\<close>

definition nullish :: "jsval \<Rightarrow> bool" where
  "nullish v \<longleftrightarrow> v = Undef \<or> v = Null"

fun truthy :: "jsval \<Rightarrow> bool" where
  "truthy Undef = False"
| "truthy Null = False"
| "truthy (Bool b) = b"
| "truthy (Num n) = (n \<noteq> NaN \<and> norm0 n \<noteq> Fin 0)"
| "truthy (Str s) = (s \<noteq> [])"
| "truthy _ = True"

lemma nullish_simps [simp]:
  "nullish Undef" "nullish Null" "\<not> nullish (Bool b)" "\<not> nullish (Num n)" "\<not> nullish (Str s)"
  "\<not> nullish (Ref r)" "\<not> nullish (Arr xs)" "\<not> nullish (PObj ps)"
  by (simp_all add: nullish_def)

lemma num_eq_Fin [simp]: "num_eq (Fin a) (Fin b) \<longleftrightarrow> a = b"
  by (simp add: num_eq_def norm0_def)

lemma num_less_Fin [simp]: "num_less (Fin a) (Fin b) \<longleftrightarrow> a < b"
  by (simp add: num_less_def norm0_def)

lemma num_less_inf [simp]:
  "num_less NInf (Fin a)" "num_less (Fin a) PInf" "\<not> num_less (Fin a) NInf"
  "\<not> num_less PInf n" "\<not> num_less n NInf"
  by (auto simp: num_less_def norm0_def split: jsnum.split)

lemma num_eq_sym: "num_eq a b = num_eq b a"
  by (auto simp: num_eq_def)

lemma num_eq_trans: "num_eq a b \<Longrightarrow> num_eq b c \<Longrightarrow> num_eq a c"
  by (auto simp: num_eq_def)

lemma strict_eq_sym: "strict_eq a b = strict_eq b a"
  by (cases "(a, b)" rule: strict_eq.cases) (auto simp: num_eq_sym)

lemma strict_eq_trans: "strict_eq a b \<Longrightarrow> strict_eq b c \<Longrightarrow> strict_eq a c"
  by (cases "(a, b)" rule: strict_eq.cases; cases c) (auto intro: num_eq_trans)

text \<open>The values on which strict equality is reflexive: all but NaN and fresh literals.\<close>

fun self_eq :: "jsval \<Rightarrow> bool" where
  "self_eq (Num n) = (n \<noteq> NaN)"
| "self_eq (Arr xs) = False"
| "self_eq (PObj ps) = False"
| "self_eq _ = True"

lemma strict_eq_refl: "strict_eq v v = self_eq v"
  by (cases v) (auto simp: num_eq_def)

section \<open>Objects and the store\<close>

datatype jsclass = CObject | CArray | CFunction | CArguments | CString | CNumber | CBoolean
  | CDate | CRegExp | CError

text \<open>
  \<open>props\<close> are the own enumerable properties in order of insertion, \<open>hidden\<close>
  the own properties that are not enumerable, \<open>elems\<close> the elements of an array or
  arguments object, \<open>prim\<close> the primitive value of a wrapper or date, \<open>strv\<close>
  what its \<open>toString\<close> method returns.
\<close>

record jsobj =
  cls :: jsclass
  elems :: "jsval list"
  props :: "(key \<times> jsval) list"
  hidden :: "(key \<times> jsval) list"
  proto :: "nat option"
  prim :: jsval
  strv :: string

type_synonym heap = "jsobj list"

text \<open>The addresses of the built-in prototypes, and of \<open>_.prototype\<close>.\<close>

definition ObjProto :: nat where "ObjProto = 0"

definition ArrayProto :: nat where "ArrayProto = 1"

definition StringProto :: nat where "StringProto = 2"

definition NumberProto :: nat where "NumberProto = 3"

definition BooleanProto :: nat where "BooleanProto = 4"

definition UnderscoreProto :: nat where "UnderscoreProto = 5"

definition plain_obj :: jsobj where
  "plain_obj = \<lparr>cls = CObject, elems = [], props = [], hidden = [], proto = Some ObjProto,
     prim = Undef, strv = ''[object Object]''\<rparr>"

definition obj_at :: "heap \<Rightarrow> nat \<Rightarrow> jsobj" where
  "obj_at h r = (if r < length h then h ! r else plain_obj)"

definition has_length :: "jsobj \<Rightarrow> bool" where
  "has_length ob \<longleftrightarrow> cls ob = CArray \<or> cls ob = CArguments"

section \<open>Conversions\<close>

definition show_int :: "int \<Rightarrow> string" where
  "show_int i = (if i < 0 then CHR ''-'' # show_nat (nat (- i)) else show_nat (nat i))"

fun num_str :: "jsnum \<Rightarrow> string" where
  "num_str NaN = ''NaN''"
| "num_str PInf = ''Infinity''"
| "num_str NInf = ''-Infinity''"
| "num_str NegZero = ''0''"
| "num_str (Fin i) = show_int i"

fun join :: "string \<Rightarrow> string list \<Rightarrow> string" where
  "join sep [] = []"
| "join sep [s] = s"
| "join sep (s # ss) = s @ sep @ join sep ss"

fun to_str :: "heap \<Rightarrow> jsval \<Rightarrow> string" where
  "to_str h Undef = ''undefined''"
| "to_str h Null = ''null''"
| "to_str h (Bool b) = (if b then ''true'' else ''false'')"
| "to_str h (Num n) = num_str n"
| "to_str h (Str s) = s"
| "to_str h (Ref r) = strv (obj_at h r)"
| "to_str h (Arr xs) = join '','' (map (\<lambda>x. if nullish x then [] else to_str h x) xs)"
| "to_str h (PObj ps) = ''[object Object]''"

text \<open>White space: tab, line feed, vertical tab, form feed, carriage return, space, no-break space.\<close>

definition is_space :: "char \<Rightarrow> bool" where
  "is_space c \<longleftrightarrow> (of_char c :: nat) \<in> {9, 10, 11, 12, 13, 32, 160}"

definition trim :: "string \<Rightarrow> string" where
  "trim s = rev (dropWhile is_space (rev (dropWhile is_space s)))"

text \<open>
  \<open>ToNumber\<close> of a string, on decimal integers and \<open>Infinity\<close>.
\<close>

definition read_unsigned :: "string \<Rightarrow> jsnum" where
  "read_unsigned s = (if s = ''Infinity'' then PInf
     else if s \<noteq> [] \<and> list_all is_digit s then Fin (int (read_nat s)) else NaN)"

fun negate_num :: "jsnum \<Rightarrow> jsnum" where
  "negate_num NaN = NaN"
| "negate_num PInf = NInf"
| "negate_num NInf = PInf"
| "negate_num NegZero = Fin 0"
| "negate_num (Fin i) = (if i = 0 then NegZero else Fin (- i))"

definition str_number :: "string \<Rightarrow> jsnum" where
  "str_number s = (case trim s of
      [] \<Rightarrow> Fin 0
    | c # cs \<Rightarrow> if c = CHR ''-'' then negate_num (read_unsigned cs)
               else if c = CHR ''+'' then read_unsigned cs
               else read_unsigned (c # cs))"

definition to_prim :: "heap \<Rightarrow> jsval \<Rightarrow> jsval" where
  "to_prim h v = (case v of
      Ref r \<Rightarrow> (if prim (obj_at h r) = Undef then Str (to_str h v) else prim (obj_at h r))
    | Arr xs \<Rightarrow> Str (to_str h v)
    | PObj ps \<Rightarrow> Str (to_str h v)
    | _ \<Rightarrow> v)"

fun prim_number :: "jsval \<Rightarrow> jsnum" where
  "prim_number Undef = NaN"
| "prim_number Null = Fin 0"
| "prim_number (Bool b) = (if b then Fin 1 else Fin 0)"
| "prim_number (Num n) = n"
| "prim_number (Str s) = str_number s"
| "prim_number _ = NaN"

definition to_number :: "heap \<Rightarrow> jsval \<Rightarrow> jsnum" where
  "to_number h v = prim_number (to_prim h v)"

lemma to_number_Num [simp]: "to_number h (Num n) = n"
  by (simp add: to_number_def to_prim_def)

lemma to_number_Undef [simp]: "to_number h Undef = NaN"
  by (simp add: to_number_def to_prim_def)

text \<open>\<open>a < b\<close>: by code units on two strings, by numeric value otherwise.\<close>

definition js_less :: "heap \<Rightarrow> jsval \<Rightarrow> jsval \<Rightarrow> bool" where
  "js_less h a b = (case (to_prim h a, to_prim h b) of
      (Str s, Str t) \<Rightarrow> s < t
    | (p, q) \<Rightarrow> num_less (prim_number p) (prim_number q))"

lemma js_less_Num [simp]: "js_less h (Num a) (Num b) = num_less a b"
  by (simp add: js_less_def to_prim_def)

lemma js_less_Str [simp]: "js_less h (Str a) (Str b) = (a < b)"
  by (simp add: js_less_def to_prim_def)

section \<open>Properties\<close>

text \<open>A property key: an array index, or any other name.\<close>

definition str_key :: "string \<Rightarrow> key" where
  "str_key s = (if canonical_numeral s \<and> read_nat s < 4294967295 then Idx (read_nat s) else Name s)"

definition to_key :: "heap \<Rightarrow> jsval \<Rightarrow> key" where
  "to_key h v = str_key (to_str h v)"

fun key_str :: "key \<Rightarrow> string" where
  "key_str (Idx n) = show_nat n"
| "key_str (Name s) = s"

definition key_ok :: "key \<Rightarrow> bool" where
  "key_ok k \<longleftrightarrow> str_key (key_str k) = k"

lemma str_key_show_nat [simp]: "n < 4294967295 \<Longrightarrow> str_key (show_nat n) = Idx n"
  by (simp add: str_key_def)

lemma to_key_nnum [simp]: "n < 4294967295 \<Longrightarrow> to_key h (nnum n) = Idx n"
  by (simp add: to_key_def show_int_def)

lemma key_ok_str_key [simp]: "key_ok (str_key s)"
  by (simp add: key_ok_def str_key_def)

lemma key_str_inj: "key_ok j \<Longrightarrow> key_ok k \<Longrightarrow> key_str j = key_str k \<longleftrightarrow> j = k"
  by (metis key_ok_def)

definition LEN :: key where "LEN = Name ''length''"

fun own_get :: "heap \<Rightarrow> jsval \<Rightarrow> key \<Rightarrow> jsval option" where
  "own_get h (Str s) k = (case k of
      Idx i \<Rightarrow> if i < length s then Some (Str [s ! i]) else None
    | Name n \<Rightarrow> if n = ''length'' then Some (nnum (length s)) else None)"
| "own_get h (Arr xs) k = (case k of
      Idx i \<Rightarrow> if i < length xs then Some (xs ! i) else None
    | Name n \<Rightarrow> if n = ''length'' then Some (nnum (length xs)) else None)"
| "own_get h (PObj ps) k = map_of ps k"
| "own_get h (Ref r) k = (let ob = obj_at h r in
      case (case k of Idx i \<Rightarrow> if i < length (elems ob) then Some (elems ob ! i) else None
            | Name n \<Rightarrow> if n = ''length'' \<and> has_length ob
                        then Some (nnum (length (elems ob))) else None) of
        Some v \<Rightarrow> Some v
      | None \<Rightarrow> (case map_of (props ob) k of Some v \<Rightarrow> Some v | None \<Rightarrow> map_of (hidden ob) k))"
| "own_get h _ k = None"

text \<open>The prototype of a value; the chain is followed towards older objects.\<close>

fun proto_of :: "heap \<Rightarrow> jsval \<Rightarrow> nat option" where
  "proto_of h (Str s) = Some StringProto"
| "proto_of h (Num n) = Some NumberProto"
| "proto_of h (Bool b) = Some BooleanProto"
| "proto_of h (Arr xs) = Some ArrayProto"
| "proto_of h (PObj ps) = Some ObjProto"
| "proto_of h (Ref r) = (case proto (obj_at h r) of
      Some p \<Rightarrow> if p < r then Some p else None | None \<Rightarrow> None)"
| "proto_of h _ = None"

fun chain_get :: "heap \<Rightarrow> nat \<Rightarrow> key \<Rightarrow> jsval option" where
  "chain_get h r k = (case own_get h (Ref r) k of
      Some v \<Rightarrow> Some v
    | None \<Rightarrow> (case proto (obj_at h r) of
          Some p \<Rightarrow> if p < r then chain_get h p k else None
        | None \<Rightarrow> None))"

declare chain_get.simps [simp del]

definition lookup_prop :: "heap \<Rightarrow> jsval \<Rightarrow> key \<Rightarrow> jsval option" where
  "lookup_prop h v k = (case own_get h v k of
      Some x \<Rightarrow> Some x
    | None \<Rightarrow> (case proto_of h v of Some p \<Rightarrow> chain_get h p k | None \<Rightarrow> None))"

text \<open>
  \<open>v[k]\<close> where \<open>v\<close> is known not to be null or undefined; \<open>getM\<close> is the
  same with the TypeError of a null or undefined receiver; \<open>has_prop\<close> is the
  operator \<open>in\<close>.
\<close>

definition get :: "heap \<Rightarrow> jsval \<Rightarrow> key \<Rightarrow> jsval" where
  "get h v k = (case lookup_prop h v k of Some x \<Rightarrow> x | None \<Rightarrow> Undef)"

definition getM :: "heap \<Rightarrow> jsval \<Rightarrow> key \<Rightarrow> ('s, jsval) js" where
  "getM h v k = (if nullish v then throwM (TypeErr ''cannot read property of null or undefined'')
     else retM (get h v k))"

definition has_prop :: "heap \<Rightarrow> jsval \<Rightarrow> key \<Rightarrow> bool" where
  "has_prop h v k \<longleftrightarrow> lookup_prop h v k \<noteq> None"

definition has_own :: "heap \<Rightarrow> jsval \<Rightarrow> key \<Rightarrow> bool" where
  "has_own h v k \<longleftrightarrow> own_get h v k \<noteq> None"

lemma getM_nonnull [simp]: "\<not> nullish v \<Longrightarrow> getM h v k = retM (get h v k)"
  by (simp add: getM_def)

lemma getM_nullish [simp]:
  "nullish v \<Longrightarrow> getM h v k = throwM (TypeErr ''cannot read property of null or undefined'')"
  by (simp add: getM_def)

lemma get_Arr_Idx [simp]: "i < length xs \<Longrightarrow> get h (Arr xs) (Idx i) = xs ! i"
  by (simp add: get_def lookup_prop_def)

lemma get_Arr_LEN [simp]: "get h (Arr xs) LEN = nnum (length xs)"
  by (simp add: get_def lookup_prop_def LEN_def)

lemma get_Str_LEN [simp]: "get h (Str s) LEN = nnum (length s)"
  by (simp add: get_def lookup_prop_def LEN_def)

section \<open>Enumeration\<close>

text \<open>Array indices in ascending order, then the names in order of insertion.\<close>

fun idx_of :: "key \<Rightarrow> nat option" where
  "idx_of (Idx n) = Some n"
| "idx_of (Name s) = None"

definition order_keys :: "key list \<Rightarrow> key list" where
  "order_keys ks = map Idx (sort (List.map_filter idx_of ks)) @ filter (\<lambda>k. idx_of k = None) ks"

fun own_keys :: "heap \<Rightarrow> jsval \<Rightarrow> key list" where
  "own_keys h (Str s) = map Idx [0..<length s]"
| "own_keys h (Arr xs) = map Idx [0..<length xs]"
| "own_keys h (PObj ps) = order_keys (map fst ps)"
| "own_keys h (Ref r) = order_keys (map Idx [0..<length (elems (obj_at h r))]
     @ map fst (props (obj_at h r)))"
| "own_keys h _ = []"

fun chain_keys :: "heap \<Rightarrow> nat \<Rightarrow> key list" where
  "chain_keys h r = own_keys h (Ref r) @
     (case proto (obj_at h r) of
        Some p \<Rightarrow> if p < r then filter (\<lambda>k. \<not> has_own h (Ref r) k) (chain_keys h p) else []
      | None \<Rightarrow> [])"

declare chain_keys.simps [simp del]

text \<open>The keys a \<open>for (key in v)\<close> loop visits.\<close>

definition for_in :: "heap \<Rightarrow> jsval \<Rightarrow> key list" where
  "for_in h v = own_keys h v @ (case proto_of h v of
      Some p \<Rightarrow> filter (\<lambda>k. \<not> has_own h v k) (chain_keys h p) | None \<Rightarrow> [])"

text \<open>Assignment to a property of a plain object: in place, or at the end.\<close>

fun put :: "key \<Rightarrow> jsval \<Rightarrow> (key \<times> jsval) list \<Rightarrow> (key \<times> jsval) list" where
  "put k v [] = [(k, v)]"
| "put k v ((j, w) # ps) = (if j = k then (k, v) # ps else (j, w) # put k v ps)"

lemma map_of_put [simp]: "map_of (put k v ps) j = (if j = k then Some v else map_of ps j)"
  by (induction ps) auto

lemma fst_put: "map fst (put k v ps) = (if k \<in> fst ` set ps then map fst ps else map fst ps @ [k])"
  by (induction ps) (force simp: image_iff)+

lemma set_fst_put [simp]: "fst ` set (put k v ps) = insert k (fst ` set ps)"
  by (induction ps) (force simp: image_iff)+

lemma distinct_put [simp]: "distinct (map fst ps) \<Longrightarrow> distinct (map fst (put k v ps))"
  by (auto simp: fst_put)

lemma set_order_keys [simp]: "set (order_keys ks) = set ks"
proof -
  have "k \<in> set (order_keys ks) \<longleftrightarrow> k \<in> set ks" for k
    by (cases k) (auto simp: order_keys_def List.map_filter_def image_iff split: key.splits
        intro!: bexI elim!: idx_of.elims)
  then show ?thesis by blast
qed

lemma mset_order_keys: "mset (order_keys ks) = mset ks"
proof (induction ks)
  case Nil
  then show ?case by (simp add: order_keys_def)
next
  case (Cons k ks)
  then show ?case by (cases k) (auto simp: order_keys_def List.map_filter_def)
qed

lemma distinct_order_keys [simp]: "distinct (order_keys ks) = distinct ks"
  using mset_order_keys by (metis mset_eq_imp_distinct_iff)

section \<open>Kinds of objects\<close>

fun isObject :: "jsval \<Rightarrow> bool" where
  "isObject (Ref r) = True"
| "isObject (Arr xs) = True"
| "isObject (PObj ps) = True"
| "isObject _ = False"

fun class_name :: "jsclass \<Rightarrow> string" where
  "class_name CObject = ''Object''"
| "class_name CArray = ''Array''"
| "class_name CFunction = ''Function''"
| "class_name CArguments = ''Arguments''"
| "class_name CString = ''String''"
| "class_name CNumber = ''Number''"
| "class_name CBoolean = ''Boolean''"
| "class_name CDate = ''Date''"
| "class_name CRegExp = ''RegExp''"
| "class_name CError = ''Error''"

text \<open>\<open>Object.prototype.toString.call(v)\<close>\<close>

fun class_of :: "heap \<Rightarrow> jsval \<Rightarrow> string" where
  "class_of h Undef = ''Undefined''"
| "class_of h Null = ''Null''"
| "class_of h (Bool b) = ''Boolean''"
| "class_of h (Num n) = ''Number''"
| "class_of h (Str s) = ''String''"
| "class_of h (Ref r) = class_name (cls (obj_at h r))"
| "class_of h (Arr xs) = ''Array''"
| "class_of h (PObj ps) = ''Object''"

definition toString_call :: "heap \<Rightarrow> jsval \<Rightarrow> string" where
  "toString_call h v = ''[object '' @ class_of h v @ '']''"

fun typeof :: "heap \<Rightarrow> jsval \<Rightarrow> string" where
  "typeof h Undef = ''undefined''"
| "typeof h (Bool b) = ''boolean''"
| "typeof h (Num n) = ''number''"
| "typeof h (Str s) = ''string''"
| "typeof h (Ref r) = (if cls (obj_at h r) = CFunction then ''function'' else ''object'')"
| "typeof h _ = ''object''"

section \<open>Loops over array-likes\<close>

text \<open>\<open>obj.length === +obj.length\<close>\<close>

definition is_arraylike :: "heap \<Rightarrow> jsval \<Rightarrow> bool" where
  "is_arraylike h v \<longleftrightarrow> strict_eq (get h v LEN) (Num (to_number h (get h v LEN)))"

text \<open>
  How often a loop \<open>for (i = 0; i < n; i++)\<close> runs; it never ends when \<open>n\<close> is infinite.
\<close>

fun loop_count :: "jsnum \<Rightarrow> jsexn + nat" where
  "loop_count (Fin i) = Inr (nat i)"
| "loop_count PInf = Inl Diverges"
| "loop_count _ = Inr 0"

text \<open>\<open>Array(n)\<close> for a number \<open>n\<close>: the length it makes, or the RangeError.\<close>

definition array_length :: "jsnum \<Rightarrow> jsexn + nat" where
  "array_length n = (case norm0 n of
      Fin i \<Rightarrow> if 0 \<le> i \<and> i < 4294967296 then Inr (nat i) else Inl (RangeErr ''Invalid array length'')
    | _ \<Rightarrow> Inl (RangeErr ''Invalid array length''))"

lemma is_arraylike_Arr [simp]: "is_arraylike h (Arr xs)"
  by (simp add: is_arraylike_def)

lemma is_arraylike_Str [simp]: "is_arraylike h (Str s)"
  by (simp add: is_arraylike_def)

text \<open>The elements of an array-like, by index.\<close>

definition items :: "heap \<Rightarrow> jsval \<Rightarrow> nat \<Rightarrow> jsval list" where
  "items h v n = map (\<lambda>i. get h v (to_key h (nnum i))) [0..<n]"

lemma items_Arr [simp]:
  assumes "length xs < 4294967295"
  shows "items h (Arr xs) (length xs) = xs"
  using assms by (intro nth_equalityI) (auto simp: items_def)

end
