(* ===== verification/Underscore_Core.thy ===== *)
theory Underscore_Core
  imports JS_Values
begin

text \<open>
  The functions of underscore.js that the rest of the library is built from: type tests,
  the keys, values and pairs of an object, property accessors and matchers, the
  normalisation of callbacks (\<open>createCallback\<close>, \<open>iteratee\<close>), and the two
  searches (\<open>indexOf\<close>, \<open>sortedIndex\<close>). A name ending in \<open>_u\<close> is
  the member of that name of the underscore object.

  A callback argument is \<open>Fn f\<close>, a function, or \<open>Val v\<close>, any value that
  is not a function. Callbacks act on a state of their own and may throw; they do not
  change the collection they are applied to.
\<close>

section \<open>Type tests\<close>

definition isArray_u :: "heap \<Rightarrow> jsval \<Rightarrow> bool" where
  "isArray_u h obj \<longleftrightarrow> toString_call h obj = ''[object Array]''"

definition isObject_u :: "heap \<Rightarrow> jsval \<Rightarrow> bool" where
  "isObject_u h obj \<longleftrightarrow> (let type = typeof h obj in
     type = ''function'' \<or> type = ''object'' \<and> truthy obj)"

definition isType_u :: "string \<Rightarrow> heap \<Rightarrow> jsval \<Rightarrow> bool" where
  "isType_u name h obj \<longleftrightarrow> toString_call h obj = ''[object '' @ name @ '']''"

definition isArguments_u :: "heap \<Rightarrow> jsval \<Rightarrow> bool" where
  "isArguments_u = isType_u ''Arguments''"

definition isFunction_u :: "heap \<Rightarrow> jsval \<Rightarrow> bool" where
  "isFunction_u h obj \<longleftrightarrow> typeof h obj = ''function''"

definition isNumber_u :: "heap \<Rightarrow> jsval \<Rightarrow> bool" where
  "isNumber_u = isType_u ''Number''"

definition isString_u :: "heap \<Rightarrow> jsval \<Rightarrow> bool" where
  "isString_u = isType_u ''String''"

definition isBoolean_u :: "heap \<Rightarrow> jsval \<Rightarrow> bool" where
  "isBoolean_u h obj \<longleftrightarrow> strict_eq obj (Bool True) \<or> strict_eq obj (Bool False)
     \<or> toString_call h obj = ''[object Boolean]''"

definition isNaN_u :: "heap \<Rightarrow> jsval \<Rightarrow> bool" where
  "isNaN_u h obj \<longleftrightarrow> isNumber_u h obj \<and> \<not> strict_eq obj (Num (to_number h obj))"

definition isNull_u :: "jsval \<Rightarrow> bool" where
  "isNull_u obj \<longleftrightarrow> strict_eq obj Null"

definition isUndefined_u :: "jsval \<Rightarrow> bool" where
  "isUndefined_u obj \<longleftrightarrow> strict_eq obj Undef"

definition isElement_u :: "heap \<Rightarrow> jsval \<Rightarrow> bool" where
  "isElement_u h obj \<longleftrightarrow> truthy obj \<and> strict_eq (get h obj (Name ''nodeType'')) (inum 1)"

definition has_u :: "heap \<Rightarrow> jsval \<Rightarrow> key \<Rightarrow> bool" where
  "has_u h obj k \<longleftrightarrow> \<not> nullish obj \<and> has_own h obj k"

section \<open>Keys, values, pairs\<close>

definition keys_u :: "heap \<Rightarrow> jsval \<Rightarrow> key list" where
  "keys_u h obj = (if \<not> isObject_u h obj then [] else own_keys h obj)"

definition values_u :: "heap \<Rightarrow> jsval \<Rightarrow> jsval list" where
  "values_u h obj = map (\<lambda>k. get h obj k) (keys_u h obj)"

definition pairs_u :: "heap \<Rightarrow> jsval \<Rightarrow> (key \<times> jsval) list" where
  "pairs_u h obj = map (\<lambda>k. (k, get h obj k)) (keys_u h obj)"

definition invert_u :: "heap \<Rightarrow> jsval \<Rightarrow> (key \<times> jsval) list" where
  "invert_u h obj =
     fold (\<lambda>k result. put (to_key h (get h obj k)) (Str (key_str k)) result) (keys_u h obj) []"

section \<open>Callbacks\<close>

datatype 's callee = Fn "'s fn" | Val jsval

definition identity_u :: "'s fn" where
  "identity_u this args = retM (arg args 0)"

definition constant_u :: "jsval \<Rightarrow> 's fn" where
  "constant_u v this args = retM v"

definition noop_u :: "'s fn" where
  "noop_u this args = retM Undef"

definition property_u :: "heap \<Rightarrow> jsval \<Rightarrow> 's fn" where
  "property_u h k this args = getM h (arg args 0) (to_key h k)"

definition matches_u :: "heap \<Rightarrow> jsval \<Rightarrow> 's fn" where
  "matches_u h attrs = (let pairs = pairs_u h attrs in (\<lambda>this args.
     let obj = arg args 0 in
     if nullish obj then retM (Bool (pairs = []))
     else retM (Bool (\<not> (\<exists>(k, v) \<in> set pairs. \<not> strict_eq v (get h obj k) \<or> \<not> has_prop h obj k)))))"

definition negate_u :: "'s fn \<Rightarrow> 's fn" where
  "negate_u predicate this args = bindM (predicate this args) (\<lambda>r. retM (Bool (\<not> truthy r)))"

definition createCallback :: "'s fn \<Rightarrow> jsval \<Rightarrow> nat option \<Rightarrow> 's fn" where
  "createCallback func context argCount =
     (if strict_eq context Undef then func
      else (let n = (case argCount of None \<Rightarrow> 3 | Some n \<Rightarrow> n) in
        if n \<in> {1, 2, 3, 4} then (\<lambda>this args. func context (map (arg args) [0..<n]))
        else (\<lambda>this args. func context args)))"

definition iteratee_u :: "heap \<Rightarrow> 's callee \<Rightarrow> jsval \<Rightarrow> nat option \<Rightarrow> 's fn" where
  "iteratee_u h v context argCount = (case v of
      Fn f \<Rightarrow> createCallback f context argCount
    | Val x \<Rightarrow> if nullish x then identity_u
              else if isObject_u h x then matches_u h x
              else property_u h x)"

section \<open>Walking a collection\<close>

text \<open>
  The keys the loops of the collection functions visit: the indices below the length for
  an array-like, otherwise the own enumerable keys (\<open>keys\<close> and \<open>length\<close> of
  the sources). \<open>coll_len\<close> is \<open>(keys || obj).length\<close>.
\<close>

definition coll_keys :: "heap \<Rightarrow> jsval \<Rightarrow> jsexn + jsval list" where
  "coll_keys h obj = (if \<not> is_arraylike h obj
     then Inr (map (\<lambda>k. Str (key_str k)) (keys_u h obj))
     else (case loop_count (to_number h (get h obj LEN)) of
        Inl e \<Rightarrow> Inl e | Inr n \<Rightarrow> Inr (map nnum [0..<n])))"

definition coll_len :: "heap \<Rightarrow> jsval \<Rightarrow> jsnum" where
  "coll_len h obj = (if \<not> is_arraylike h obj then Fin (int (length (keys_u h obj)))
     else to_number h (get h obj LEN))"

definition elem :: "heap \<Rightarrow> jsval \<Rightarrow> jsval \<Rightarrow> jsval" where
  "elem h obj k = get h obj (to_key h k)"

text \<open>The elements \<open>a[0], ..., a[a.length - 1]\<close> a loop over an array reads.\<close>

definition arr_items :: "heap \<Rightarrow> jsval \<Rightarrow> jsexn + jsval list" where
  "arr_items h a = (case loop_count (to_number h (get h a LEN)) of
      Inl e \<Rightarrow> Inl e | Inr n \<Rightarrow> Inr (items h a n))"

section \<open>Searching an array\<close>

text \<open>
  \<open>low + high >>> 1\<close> keeps 32 bits of the sum. The loop is given fuel; the lemmas
  below show that one unit per element and one more is enough.
\<close>

fun sortedIndex_loop ::
  "nat \<Rightarrow> heap \<Rightarrow> (jsval \<Rightarrow> ('s, jsval) js) \<Rightarrow> jsval \<Rightarrow> jsval \<Rightarrow> nat \<Rightarrow> nat \<Rightarrow> ('s, nat) js" where
  "sortedIndex_loop 0 h it array v low high = throwM Diverges"
| "sortedIndex_loop (Suc fuel) h it array v low high =
     (if low < high then
        (let mid = (low + high) mod 4294967296 div 2 in
         bindM (it (elem h array (nnum mid))) (\<lambda>c.
           if js_less h c v then sortedIndex_loop fuel h it array v (mid + 1) high
           else sortedIndex_loop fuel h it array v low mid))
      else retM low)"

definition sortedIndex_u ::
  "heap \<Rightarrow> jsval \<Rightarrow> jsval \<Rightarrow> 's callee \<Rightarrow> jsval \<Rightarrow> ('s, nat) js" where
  "sortedIndex_u h array obj it context =
     (let f = iteratee_u h it context (Some 1) in
      bindM (f Undef [obj]) (\<lambda>v.
      bindM (getM h array LEN) (\<lambda>len.
      bindM (liftE (loop_count (to_number h len))) (\<lambda>n.
        sortedIndex_loop (Suc n) h (\<lambda>x. f Undef [x]) array v 0 n))))"

text \<open>The index of the first element from \<open>i\<close> on that is strictly equal to the item.\<close>

fun find_from :: "jsval list \<Rightarrow> jsval \<Rightarrow> nat \<Rightarrow> int" where
  "find_from [] item i = -1"
| "find_from (x # xs) item i = (if strict_eq x item then int i else find_from xs item (Suc i))"

definition indexOf_u :: "heap \<Rightarrow> jsval \<Rightarrow> jsval \<Rightarrow> jsval \<Rightarrow> ('s, int) js" where
  "indexOf_u h array item isSorted =
     (if nullish array then retM (-1)
      else bindM (liftE (arr_items h array)) (\<lambda>xs.
        let length = int (length xs) in
        if truthy isSorted then
          (case isSorted of
             Num n \<Rightarrow> (case norm0 n of
                 Fin k \<Rightarrow> (let i = (if k < 0 then max 0 (length + k) else k) in
                          retM (find_from (drop (nat i) xs) item (nat i)))
               | NInf \<Rightarrow> retM (find_from xs item 0)
               | _ \<Rightarrow> retM (-1))
           | _ \<Rightarrow> bindM (sortedIndex_u h array item (Val Undef) Undef) (\<lambda>i.
                   retM (if strict_eq (elem h array (nnum i)) item then int i else -1)))
        else retM (find_from xs item 0)))"

text \<open>\<open>while (--idx >= 0) if (array[idx] === item) return idx\<close>, from \<open>idx = n\<close>.\<close>

fun find_back :: "(nat \<Rightarrow> jsval) \<Rightarrow> jsval \<Rightarrow> nat \<Rightarrow> int" where
  "find_back a item 0 = -1"
| "find_back a item (Suc n) = (if strict_eq (a n) item then int n else find_back a item n)"

definition lastIndexOf_u :: "heap \<Rightarrow> jsval \<Rightarrow> jsval \<Rightarrow> jsval \<Rightarrow> ('s, int) js" where
  "lastIndexOf_u h array item from =
     (if nullish array then retM (-1)
      else bindM (liftE (loop_count (to_number h (get h array LEN)))) (\<lambda>len.
        let idx = (case from of
            Num n \<Rightarrow> (case norm0 n of
                Fin k \<Rightarrow> if k < 0 then int len + k + 1 else min (int len) (k + 1)
              | PInf \<Rightarrow> int len
              | _ \<Rightarrow> 0)
          | _ \<Rightarrow> int len) in
        retM (find_back (\<lambda>i. elem h array (nnum i)) item (nat idx))))"

section \<open>Lemmas\<close>

lemmas us_type_defs = isArray_u_def isObject_u_def isType_u_def isArguments_u_def isFunction_u_def
  isNumber_u_def isString_u_def isBoolean_u_def toString_call_def

lemma isObject_u_simps [simp]:
  "isObject_u h (Arr xs)" "isObject_u h (PObj ps)" "isObject_u h (Ref r)"
  "\<not> isObject_u h (Str s)" "\<not> isObject_u h (Num n)" "\<not> isObject_u h (Bool b)"
  "\<not> isObject_u h Undef" "\<not> isObject_u h Null"
  by (auto simp: isObject_u_def Let_def)

lemma isArray_u_simps [simp]:
  "isArray_u h (Arr xs)" "\<not> isArray_u h (PObj ps)" "\<not> isArray_u h (Str s)"
  "\<not> isArray_u h (Num n)" "\<not> isArray_u h (Bool b)" "\<not> isArray_u h Undef" "\<not> isArray_u h Null"
  by (auto simp: isArray_u_def toString_call_def)

lemma isArguments_u_simps [simp]:
  "\<not> isArguments_u h (Arr xs)" "\<not> isArguments_u h (PObj ps)" "\<not> isArguments_u h (Str s)"
  "\<not> isArguments_u h (Num n)" "\<not> isArguments_u h (Bool b)" "\<not> isArguments_u h Undef"
  "\<not> isArguments_u h Null"
  by (auto simp: isArguments_u_def isType_u_def toString_call_def)

lemma keys_u_Arr [simp]: "keys_u h (Arr xs) = map Idx [0..<length xs]"
  by (simp add: keys_u_def)

lemma keys_u_PObj [simp]: "keys_u h (PObj ps) = order_keys (map fst ps)"
  by (simp add: keys_u_def)

lemma iteratee_Fn [simp]: "iteratee_u h (Fn f) Undef n = f"
  by (simp add: iteratee_u_def createCallback_def)

lemma iteratee_Undef [simp]: "iteratee_u h (Val Undef) c n = identity_u"
  by (simp add: iteratee_u_def)

lemma createCallback_Undef [simp]: "createCallback f Undef n = f"
  by (simp add: createCallback_def)

lemma coll_keys_Arr [simp]: "coll_keys h (Arr xs) = Inr (map nnum [0..<length xs])"
  by (simp add: coll_keys_def)

lemma coll_len_Arr [simp]: "coll_len h (Arr xs) = Fin (int (length xs))"
  by (simp add: coll_len_def)

lemma arr_items_Arr [simp]: "length xs < 4294967295 \<Longrightarrow> arr_items h (Arr xs) = Inr xs"
  by (simp add: arr_items_def)

lemma elem_nnum_Arr [simp]:
  "i < length xs \<Longrightarrow> i < 4294967295 \<Longrightarrow> elem h (Arr xs) (nnum i) = xs ! i"
  by (simp add: elem_def)

lemma map_elem_Arr:
  assumes "length xs < 4294967295"
  shows "map (\<lambda>k. f (elem h (Arr xs) k) k) (map nnum [0..<length xs])
       = map (\<lambda>(i, x). f x (nnum i)) (indexed xs)"
proof -
  have "map (\<lambda>k. f (elem h (Arr xs) k) k) (map nnum [0..<length xs])
      = map (\<lambda>i. f (xs ! i) (nnum i)) [0..<length xs]"
    using assms by (auto simp: comp_def)
  then show ?thesis by (simp add: map_nth_upt [where f = "\<lambda>x i. f x (nnum i)"])
qed

abbreviation arr_ok :: "jsval list \<Rightarrow> bool" where
  "arr_ok xs \<equiv> length xs < 4294967295"

lemma map_elem_id [simp]:
  assumes "arr_ok xs"
  shows "map (elem h (Arr xs)) (map nnum [0..<length xs]) = xs"
  using assms by (intro nth_equalityI) auto

lemma array_length_ok [simp]: "n < 4294967296 \<Longrightarrow> array_length (Fin (int n)) = Inr n"
  by (simp add: array_length_def norm0_def)

subsection \<open>Linear search\<close>

lemma find_from_miss: "find_from xs item i = -1 \<longleftrightarrow> (\<forall>x\<in>set xs. \<not> strict_eq x item)"
  by (induction xs arbitrary: i) auto

lemma find_from_spec:
  "find_from xs item i = -1 \<and> (\<forall>x\<in>set xs. \<not> strict_eq x item) \<or>
   (\<exists>j<length xs. find_from xs item i = int (i + j) \<and> strict_eq (xs ! j) item \<and>
      (\<forall>m<j. \<not> strict_eq (xs ! m) item))"
proof (induction xs arbitrary: i)
  case Nil
  then show ?case by simp
next
  case (Cons x xs)
  show ?case
  proof (cases "strict_eq x item")
    case True
    then show ?thesis by (intro disjI2 exI [of _ 0]) simp
  next
    case False
    from Cons.IH [of "Suc i"] show ?thesis
    proof (elim disjE exE conjE)
      fix j assume "j < length xs" "find_from xs item (Suc i) = int (Suc i + j)"
        "strict_eq (xs ! j) item" "\<forall>m<j. \<not> strict_eq (xs ! m) item"
      with False show ?thesis
        by (intro disjI2 exI [of _ "Suc j"]) (auto simp: less_Suc_eq_0_disj)
    qed (use False in simp)
  qed
qed

lemma find_from_nonneg: "0 \<le> find_from xs item i \<longleftrightarrow> (\<exists>x\<in>set xs. strict_eq x item)"
  using find_from_spec [of xs item i] by (metis nth_mem of_nat_0_le_iff neg_0_le_iff_le not_one_le_zero)

lemma find_back_spec:
  "find_back a item n = -1 \<and> (\<forall>i<n. \<not> strict_eq (a i) item) \<or>
   (\<exists>j<n. find_back a item n = int j \<and> strict_eq (a j) item \<and>
      (\<forall>i. j < i \<and> i < n \<longrightarrow> \<not> strict_eq (a i) item))"
proof (induction n)
  case 0
  then show ?case by simp
next
  case (Suc n)
  show ?case
  proof (cases "strict_eq (a n) item")
    case True
    then show ?thesis by auto
  next
    case False
    then show ?thesis using Suc.IH by (auto simp: less_Suc_eq)
  qed
qed

subsection \<open>Binary search\<close>

text \<open>
  \<open>parted P n\<close>: the elements that are less than the value come first.
\<close>

definition parted :: "(nat \<Rightarrow> bool) \<Rightarrow> nat \<Rightarrow> bool" where
  "parted P n \<longleftrightarrow> (\<forall>i j. i \<le> j \<longrightarrow> j < n \<longrightarrow> P j \<longrightarrow> P i)"

lemma sortedIndex_loop_pure:
  assumes "\<And>x. it x = retM (c x)"
    and "parted (\<lambda>i. js_less h (c (elem h array (nnum i))) v) n"
    and "low \<le> high" "high \<le> n" "n \<le> 2147483648" "high - low < fuel"
    and "\<forall>i<low. js_less h (c (elem h array (nnum i))) v"
    and "\<forall>i. high \<le> i \<longrightarrow> i < n \<longrightarrow> \<not> js_less h (c (elem h array (nnum i))) v"
  shows "\<exists>r\<le>n. sortedIndex_loop fuel h it array v low high = retM r
    \<and> (\<forall>i<r. js_less h (c (elem h array (nnum i))) v)
    \<and> (\<forall>i. r \<le> i \<longrightarrow> i < n \<longrightarrow> \<not> js_less h (c (elem h array (nnum i))) v)"
proof -
  have it: "it = (\<lambda>x. retM (c x))" using assms(1) by blast
  show ?thesis
    using assms(3-)
  proof (induction fuel arbitrary: low high)
    case 0
    then show ?case by simp
  next
    case (Suc fuel)
    let ?P = "\<lambda>i. js_less h (c (elem h array (nnum i))) v"
    show ?case
    proof (cases "low < high")
      case False
      with Suc.prems show ?thesis by (intro exI [of _ low]) auto
    next
      case True
      let ?mid = "(low + high) mod 4294967296 div 2"
      from True Suc.prems have small: "low + high < 4294967296" by simp
      then have mid: "?mid = (low + high) div 2" by simp
      with True have lm: "low \<le> ?mid" and mh: "?mid < high" by simp_all
      show ?thesis
      proof (cases "?P ?mid")
        case True
        with assms(2) lm mh Suc.prems have below: "\<forall>i<?mid + 1. ?P i"
          unfolding parted_def by (metis Suc_eq_plus1 less_Suc_eq_le order_less_le_trans)
        have "\<exists>r\<le>n. sortedIndex_loop fuel h it array v (?mid + 1) high = retM r
            \<and> (\<forall>i<r. ?P i) \<and> (\<forall>i. r \<le> i \<longrightarrow> i < n \<longrightarrow> \<not> ?P i)"
          using Suc.prems lm mh below by (intro Suc.IH) auto
        with True \<open>low < high\<close> show ?thesis by (simp add: it Let_def)
      next
        case False
        with assms(2) have above: "\<forall>i. ?mid \<le> i \<longrightarrow> i < n \<longrightarrow> \<not> ?P i"
          unfolding parted_def by blast
        have "\<exists>r\<le>n. sortedIndex_loop fuel h it array v low ?mid = retM r
            \<and> (\<forall>i<r. ?P i) \<and> (\<forall>i. r \<le> i \<longrightarrow> i < n \<longrightarrow> \<not> ?P i)"
          using Suc.prems lm mh above by (intro Suc.IH) auto
        with False \<open>low < high\<close> show ?thesis by (simp add: it Let_def)
      qed
    qed
  qed
qed

end
