(* ===== verification/Underscore_Collections.thy ===== *)
theory Underscore_Collections
  imports Underscore_Core
begin

text \<open>
  The collection functions of underscore.js. A collection is an array-like, visited by
  index, or an object, visited by its own keys. The definitions are written in the order
  and with the composition of the source: \<open>find\<close> runs \<open>some\<close> with a closure
  that records the value, \<open>filter\<close>, \<open>max\<close>, \<open>groupBy\<close> and
  \<open>partition\<close> run \<open>each\<close> with closures over local variables
  (\<open>withC\<close>), \<open>reject\<close> is \<open>filter\<close> with a negated predicate, and so on.
\<close>

section \<open>Iteration\<close>

definition each_u :: "heap \<Rightarrow> jsval \<Rightarrow> 's fn \<Rightarrow> jsval \<Rightarrow> ('s, jsval) js" where
  "each_u h obj it context =
     (if nullish obj then retM obj
      else (let f = createCallback it context None in
        bindM (liftE (coll_keys h obj)) (\<lambda>ks.
        bindM (iterM (\<lambda>k. bindM (f Undef [elem h obj k, k, obj]) (\<lambda>_. retM ())) ks) (\<lambda>_.
        retM obj))))"

definition map_u :: "heap \<Rightarrow> jsval \<Rightarrow> 's callee \<Rightarrow> jsval \<Rightarrow> ('s, jsval list) js" where
  "map_u h obj it context =
     (if nullish obj then retM []
      else (let f = iteratee_u h it context None in
        bindM (liftE (array_length (coll_len h obj))) (\<lambda>_.
        bindM (liftE (coll_keys h obj)) (\<lambda>ks.
        mapM (\<lambda>k. f Undef [elem h obj k, k, obj]) ks))))"

definition reduceError :: string where
  "reduceError = ''Reduce of empty array with no initial value''"

definition reduce_u ::
  "heap \<Rightarrow> jsval \<Rightarrow> 's fn \<Rightarrow> jsval option \<Rightarrow> jsval \<Rightarrow> ('s, jsval) js" where
  "reduce_u h obj0 it memo context =
     (let obj = (if nullish obj0 then Arr [] else obj0);
          f = createCallback it context (Some 4);
          body = (\<lambda>m k. f Undef [m, elem h obj k, k, obj]) in
      case memo of
        Some m \<Rightarrow> bindM (liftE (coll_keys h obj)) (\<lambda>ks. foldM body m ks)
      | None \<Rightarrow>
          if \<not> truthy (Num (coll_len h obj)) then throwM (TypeErr reduceError)
          else bindM (liftE (coll_keys h obj)) (\<lambda>ks.
            let first = (if is_arraylike h obj then nnum 0 else arg ks 0) in
            foldM body (elem h obj first) (tl ks)))"

text \<open>
  \<open>while (index--)\<close> counts down to zero, so a negative length never stops it.
\<close>

definition reduceRight_u ::
  "heap \<Rightarrow> jsval \<Rightarrow> 's fn \<Rightarrow> jsval option \<Rightarrow> jsval \<Rightarrow> ('s, jsval) js" where
  "reduceRight_u h obj0 it memo context =
     (let obj = (if nullish obj0 then Arr [] else obj0);
          f = createCallback it context (Some 4);
          body = (\<lambda>m k. f Undef [m, elem h obj k, k, obj]) in
      if memo = None \<and> \<not> truthy (Num (coll_len h obj)) then throwM (TypeErr reduceError)
      else if num_less (coll_len h obj) (Fin 0) then throwM Diverges
      else bindM (liftE (coll_keys h obj)) (\<lambda>ks.
        case memo of
          Some m \<Rightarrow> foldM body m (rev ks)
        | None \<Rightarrow> foldM body (elem h obj (last ks)) (rev (butlast ks))))"

section \<open>Tests\<close>

definition every_u :: "heap \<Rightarrow> jsval \<Rightarrow> 's callee \<Rightarrow> jsval \<Rightarrow> ('s, bool) js" where
  "every_u h obj predicate context =
     (if nullish obj then retM True
      else (let p = iteratee_u h predicate context None in
        bindM (liftE (coll_keys h obj)) (\<lambda>ks.
        bindM (anyM (\<lambda>k. bindM (p Undef [elem h obj k, k, obj]) (\<lambda>r. retM (\<not> truthy r))) ks)
          (\<lambda>failed. retM (\<not> failed)))))"

definition some_u :: "heap \<Rightarrow> jsval \<Rightarrow> 's callee \<Rightarrow> jsval \<Rightarrow> ('s, bool) js" where
  "some_u h obj predicate context =
     (if nullish obj then retM False
      else (let p = iteratee_u h predicate context None in
        bindM (liftE (coll_keys h obj)) (\<lambda>ks.
        anyM (\<lambda>k. bindM (p Undef [elem h obj k, k, obj]) (\<lambda>r. retM (truthy r))) ks)))"

definition find_u :: "heap \<Rightarrow> jsval \<Rightarrow> 's callee \<Rightarrow> jsval \<Rightarrow> ('s, jsval) js" where
  "find_u h obj predicate context =
     (let p = iteratee_u h predicate context None;
          probe = (\<lambda>this args. bindM (outerM (p Undef [arg args 0, arg args 1, arg args 2])) (\<lambda>r.
            if truthy r then bindM (setC (\<lambda>_. arg args 0)) (\<lambda>_. retM (Bool True))
            else retM Undef)) in
      bindM (withC Undef (some_u h obj (Fn probe) Undef)) (\<lambda>(_, result). retM result))"

definition filter_u :: "heap \<Rightarrow> jsval \<Rightarrow> 's callee \<Rightarrow> jsval \<Rightarrow> ('s, jsval list) js" where
  "filter_u h obj predicate context =
     (if nullish obj then retM []
      else (let p = iteratee_u h predicate context None;
          push = (\<lambda>this args. bindM (outerM (p Undef [arg args 0, arg args 1, arg args 2])) (\<lambda>r.
            if truthy r then bindM (setC (\<lambda>results. results @ [arg args 0])) (\<lambda>_. retM Undef)
            else retM Undef)) in
      bindM (withC [] (each_u h obj push Undef)) (\<lambda>(_, results). retM results)))"

definition reject_u :: "heap \<Rightarrow> jsval \<Rightarrow> 's callee \<Rightarrow> jsval \<Rightarrow> ('s, jsval list) js" where
  "reject_u h obj predicate context =
     filter_u h obj (Fn (negate_u (iteratee_u h predicate Undef None))) context"

definition contains_u :: "heap \<Rightarrow> jsval \<Rightarrow> jsval \<Rightarrow> ('s, bool) js" where
  "contains_u h obj target =
     (if nullish obj then retM False
      else (let a = (if is_arraylike h obj then obj else Arr (values_u h obj)) in
        bindM (indexOf_u h a target Undef) (\<lambda>i. retM (0 \<le> i))))"

text \<open>
  \<open>code\<close> is what the function objects of the store do when they are called.
\<close>

definition call_ref :: "heap \<Rightarrow> (nat \<Rightarrow> 's fn) \<Rightarrow> jsval \<Rightarrow> 's fn" where
  "call_ref h code f this args = (case f of
      Ref r \<Rightarrow> if cls (obj_at h r) = CFunction then code r this args
               else throwM (TypeErr ''not a function'')
    | _ \<Rightarrow> throwM (TypeErr ''not a function''))"

definition invoke_u ::
  "heap \<Rightarrow> (nat \<Rightarrow> 's fn) \<Rightarrow> jsval \<Rightarrow> 's callee \<Rightarrow> jsval list \<Rightarrow> ('s, jsval list) js" where
  "invoke_u h code obj meth args = map_u h obj (Fn (\<lambda>this vs.
     let v = arg vs 0 in
     case meth of
       Fn f \<Rightarrow> f v args
     | Val name \<Rightarrow> bindM (getM h v (to_key h name)) (\<lambda>f. call_ref h code f v args))) Undef"

definition pluck_u :: "heap \<Rightarrow> jsval \<Rightarrow> jsval \<Rightarrow> ('s, jsval list) js" where
  "pluck_u h obj k = map_u h obj (Fn (property_u h k)) Undef"

definition where_u :: "heap \<Rightarrow> jsval \<Rightarrow> jsval \<Rightarrow> ('s, jsval list) js" where
  "where_u h obj attrs = filter_u h obj (Fn (matches_u h attrs)) Undef"

definition findWhere_u :: "heap \<Rightarrow> jsval \<Rightarrow> jsval \<Rightarrow> ('s, jsval) js" where
  "findWhere_u h obj attrs = find_u h obj (Fn (matches_u h attrs)) Undef"

section \<open>Extrema\<close>

text \<open>
  \<open>better a b\<close> is \<open>a > b\<close> for \<open>max\<close> and \<open>a < b\<close> for
  \<open>min\<close>; \<open>worst\<close> is the infinity the search starts from.
\<close>

fun callee_null :: "'s callee \<Rightarrow> bool" where
  "callee_null (Val v) = nullish v"
| "callee_null (Fn f) = False"

definition extreme ::
  "(jsval \<Rightarrow> jsval \<Rightarrow> bool) \<Rightarrow> jsval \<Rightarrow> heap \<Rightarrow> jsval \<Rightarrow> 's callee \<Rightarrow> jsval \<Rightarrow> ('s, jsval) js" where
  "extreme better worst h obj it context =
     (if callee_null it \<and> \<not> nullish obj then
        bindM (if is_arraylike h obj then liftE (arr_items h obj) else retM (values_u h obj)) (\<lambda>xs.
        retM (foldl (\<lambda>result v. if better v result then v else result) worst xs))
      else (let f = iteratee_u h it context None;
          probe = (\<lambda>this args. bindM (outerM (f Undef [arg args 0, arg args 1, arg args 2])) (\<lambda>computed.
            bindM (setC (\<lambda>(result, lastComputed).
              if better computed lastComputed \<or> strict_eq computed worst \<and> strict_eq result worst
              then (arg args 0, computed) else (result, lastComputed))) (\<lambda>_. retM Undef))) in
        bindM (withC (worst, worst) (each_u h obj probe Undef)) (\<lambda>(_, result, _). retM result)))"

definition max_u :: "heap \<Rightarrow> jsval \<Rightarrow> 's callee \<Rightarrow> jsval \<Rightarrow> ('s, jsval) js" where
  "max_u h = extreme (\<lambda>a b. js_less h b a) (Num NInf) h"

definition min_u :: "heap \<Rightarrow> jsval \<Rightarrow> 's callee \<Rightarrow> jsval \<Rightarrow> ('s, jsval) js" where
  "min_u h = extreme (\<lambda>a b. js_less h a b) (Num PInf) h"

section \<open>Shuffling\<close>

text \<open>
  \<open>Math.random()\<close> is a parameter: a number \<open>r\<close> with \<open>0 \<le> r < 1\<close>.
  \<open>shuffle\<close> and \<open>sample\<close> take the results of its successive calls.
\<close>

definition random_u :: "rat \<Rightarrow> int \<Rightarrow> int option \<Rightarrow> int" where
  "random_u r mn mx = (let (lo, hi) = (case mx of None \<Rightarrow> (0, mn) | Some m \<Rightarrow> (mn, m)) in
     lo + \<lfloor>r * of_int (hi - lo + 1)\<rfloor>)"

fun shuffle_loop :: "(nat \<Rightarrow> rat) \<Rightarrow> jsval list \<Rightarrow> nat \<Rightarrow> jsval list \<Rightarrow> jsval list" where
  "shuffle_loop rnd [] index shuffled = shuffled"
| "shuffle_loop rnd (x # xs) index shuffled =
     (let rand = nat (random_u (rnd index) 0 (Some (int index)));
          moved = (if rand \<noteq> index then shuffled[index := shuffled ! rand] else shuffled) in
      shuffle_loop rnd xs (Suc index) (moved[rand := x]))"

definition shuffle_u :: "(nat \<Rightarrow> rat) \<Rightarrow> heap \<Rightarrow> jsval \<Rightarrow> ('s, jsval list) js" where
  "shuffle_u rnd h obj =
     bindM (if truthy obj \<and> is_arraylike h obj then liftE (arr_items h obj) else retM (values_u h obj))
       (\<lambda>xs. retM (shuffle_loop rnd xs 0 (replicate (length xs) Undef)))"

definition sample_u ::
  "(nat \<Rightarrow> rat) \<Rightarrow> heap \<Rightarrow> jsval \<Rightarrow> int option \<Rightarrow> bool \<Rightarrow> ('s, jsval list + jsval) js" where
  "sample_u rnd h obj n guard =
     (if n = None \<or> guard then
        bindM (getM h obj LEN) (\<lambda>_.
        bindM (if is_arraylike h obj then liftE (arr_items h obj) else retM (values_u h obj)) (\<lambda>xs.
        retM (Inr (arg xs (nat (random_u (rnd 0) (int (length xs) - 1) None))))))
      else bindM (shuffle_u rnd h obj) (\<lambda>xs.
        retM (Inl (take (nat (max 0 (the n))) xs))))"

section \<open>Sorting\<close>

text \<open>The comparator returns a number; \<open>sort\<close> looks at its sign.\<close>

definition num_sub :: "jsnum \<Rightarrow> jsnum \<Rightarrow> jsnum" where
  "num_sub a b = (case (norm0 a, norm0 b) of
      (Fin x, Fin y) \<Rightarrow> Fin (x - y)
    | (NaN, _) \<Rightarrow> NaN
    | (_, NaN) \<Rightarrow> NaN
    | (PInf, PInf) \<Rightarrow> NaN
    | (NInf, NInf) \<Rightarrow> NaN
    | (PInf, _) \<Rightarrow> PInf
    | (NInf, _) \<Rightarrow> NInf
    | (_, PInf) \<Rightarrow> NInf
    | (_, NInf) \<Rightarrow> PInf
    | _ \<Rightarrow> NaN)"

definition sortBy_cmp :: "heap \<Rightarrow> jsval \<Rightarrow> jsval \<Rightarrow> jsnum" where
  "sortBy_cmp h left right =
     (let a = get h left (Name ''criteria''); b = get h right (Name ''criteria'');
          tie = num_sub (to_number h (get h left (Name ''index'')))
                        (to_number h (get h right (Name ''index''))) in
      if \<not> strict_eq a b then
        if js_less h b a \<or> strict_eq a Undef then Fin 1
        else if js_less h a b \<or> strict_eq b Undef then Fin (-1)
        else tie
      else tie)"

definition sortBy_u :: "heap \<Rightarrow> jsval \<Rightarrow> 's callee \<Rightarrow> jsval \<Rightarrow> ('s, jsval list) js" where
  "sortBy_u h obj it context =
     (let f = iteratee_u h it context None in
      bindM (map_u h obj (Fn (\<lambda>this args.
          bindM (f Undef [arg args 0, arg args 1, arg args 2]) (\<lambda>c.
          retM (PObj [(Name ''value'', arg args 0), (Name ''index'', arg args 1),
                      (Name ''criteria'', c)])))) Undef) (\<lambda>boxes.
      pluck_u h (Arr (js_sort (\<lambda>l r. num_less (Fin 0) (sortBy_cmp h l r)) boxes)) (Str ''value'')))"

section \<open>Grouping\<close>

type_synonym props = "(key \<times> jsval) list"

definition group ::
  "(heap \<Rightarrow> props \<Rightarrow> jsval \<Rightarrow> key \<Rightarrow> props) \<Rightarrow> heap \<Rightarrow> jsval \<Rightarrow> 's callee \<Rightarrow> jsval \<Rightarrow> ('s, props) js" where
  "group behavior h obj it context =
     (let f = iteratee_u h it context None;
          add = (\<lambda>this args. bindM (outerM (f Undef [arg args 0, arg args 1, obj])) (\<lambda>k.
            bindM (setC (\<lambda>result. behavior h result (arg args 0) (to_key h k))) (\<lambda>_. retM Undef))) in
      bindM (withC [] (each_u h obj add Undef)) (\<lambda>(_, result). retM result))"

fun push_onto :: "jsval \<Rightarrow> jsval \<Rightarrow> jsval" where
  "push_onto (Arr xs) v = Arr (xs @ [v])"
| "push_onto w v = w"

definition groupBy_behavior :: "heap \<Rightarrow> props \<Rightarrow> jsval \<Rightarrow> key \<Rightarrow> props" where
  "groupBy_behavior h result v k =
     (if has_u h (PObj result) k then put k (push_onto (get h (PObj result) k) v) result
      else put k (Arr [v]) result)"

definition groupBy_u :: "heap \<Rightarrow> jsval \<Rightarrow> 's callee \<Rightarrow> jsval \<Rightarrow> ('s, props) js" where
  "groupBy_u = group groupBy_behavior"

definition indexBy_u :: "heap \<Rightarrow> jsval \<Rightarrow> 's callee \<Rightarrow> jsval \<Rightarrow> ('s, props) js" where
  "indexBy_u = group (\<lambda>h result v k. put k v result)"

fun increment :: "jsval \<Rightarrow> jsval" where
  "increment (Num (Fin i)) = inum (i + 1)"
| "increment v = v"

definition countBy_behavior :: "heap \<Rightarrow> props \<Rightarrow> jsval \<Rightarrow> key \<Rightarrow> props" where
  "countBy_behavior h result v k =
     (if has_u h (PObj result) k then put k (increment (get h (PObj result) k)) result
      else put k (inum 1) result)"

definition countBy_u :: "heap \<Rightarrow> jsval \<Rightarrow> 's callee \<Rightarrow> jsval \<Rightarrow> ('s, props) js" where
  "countBy_u = group countBy_behavior"

section \<open>Conversion\<close>

definition toArray_u :: "heap \<Rightarrow> jsval \<Rightarrow> ('s, jsval list) js" where
  "toArray_u h obj =
     (if \<not> truthy obj then retM []
      else if isArray_u h obj then liftE (arr_items h obj)
      else if is_arraylike h obj then map_u h obj (Fn identity_u) Undef
      else retM (values_u h obj))"

definition size_u :: "heap \<Rightarrow> jsval \<Rightarrow> jsval" where
  "size_u h obj =
     (if nullish obj then inum 0
      else if is_arraylike h obj then get h obj LEN
      else nnum (length (keys_u h obj)))"

definition partition_u ::
  "heap \<Rightarrow> jsval \<Rightarrow> 's callee \<Rightarrow> jsval \<Rightarrow> ('s, jsval list \<times> jsval list) js" where
  "partition_u h obj predicate context =
     (let p = iteratee_u h predicate context None;
          add = (\<lambda>this args. bindM (outerM (p Undef [arg args 0, arg args 1, arg args 2])) (\<lambda>r.
            bindM (setC (\<lambda>(pass, fail). if truthy r then (pass @ [arg args 0], fail)
                                        else (pass, fail @ [arg args 0]))) (\<lambda>_. retM Undef))) in
      bindM (withC ([], []) (each_u h obj add Undef)) (\<lambda>(_, pf). retM pf))"

section \<open>Lemmas: loops with closures\<close>

lemma each_pure:
  assumes "\<not> nullish obj" "coll_keys h obj = Inr ks"
  shows "each_u h obj (\<lambda>this args. retM (f args)) Undef = retM obj"
  using assms by (simp add: each_u_def js_loops)

lemma each_closure:
  assumes "\<not> nullish obj" "coll_keys h obj = Inr ks"
    and "\<And>args. body args = bindM (setC (g args)) (\<lambda>_. retM Undef)"
  shows "withC c (each_u h obj (\<lambda>this args. body args) Undef)
    = retM (obj, fold (\<lambda>k. g [elem h obj k, k, obj]) ks c)"
  using assms(1,2) by (simp add: each_u_def assms(3) withC_iterM_setC)

text \<open>The values a collection holds, in the order in which it is visited.\<close>

definition entries :: "heap \<Rightarrow> jsval \<Rightarrow> jsval list \<Rightarrow> jsval list list" where
  "entries h obj ks = map (\<lambda>k. [elem h obj k, k, obj]) ks"

lemma map_u_pure:
  assumes "\<not> nullish obj" "coll_keys h obj = Inr ks" "array_length (coll_len h obj) = Inr n"
  shows "map_u h obj (Fn (\<lambda>this args. retM (f args))) Undef = retM (map f (entries h obj ks))"
  using assms by (simp add: map_u_def js_loops entries_def comp_def)

lemma filter_u_pure:
  fixes f :: "jsval list \<Rightarrow> jsval"
  assumes "\<not> nullish obj" "coll_keys h obj = Inr ks"
  shows "(filter_u h obj (Fn (\<lambda>this args. retM (f args))) Undef :: ('s, jsval list) js)
    = retM (map hd (filter (\<lambda>e. truthy (f e)) (entries h obj ks)))"
proof -
  define g where "g = (\<lambda>args. if truthy (f [arg args 0, arg args 1, arg args 2])
    then (\<lambda>results. results @ [arg args 0]) else (\<lambda>results. results))"
  have "withC [] (each_u h obj (\<lambda>this args.
          if truthy (f [arg args 0, arg args 1, arg args 2])
          then bindM (setC (\<lambda>results. results @ [arg args 0])) (\<lambda>_. retM Undef) else retM Undef) Undef)
      = (retM (obj, fold (\<lambda>k. g [elem h obj k, k, obj]) ks []) :: ('s, jsval \<times> jsval list) js)"
    by (rule each_closure [OF assms]) (simp add: g_def setC_if)
  moreover have "fold (\<lambda>k. g [elem h obj k, k, obj]) ks acc
      = acc @ map hd (filter (\<lambda>e. truthy (f e)) (entries h obj ks))" for acc
    by (induction ks arbitrary: acc) (auto simp: entries_def g_def)
  ultimately show ?thesis using assms(1) by (simp add: filter_u_def Let_def)
qed

lemma negate_pure:
  "negate_u (\<lambda>this args. retM (f args)) = (\<lambda>this args. retM (Bool (\<not> truthy (f args))))"
  by (rule ext, rule ext) (simp add: negate_u_def)

lemma reject_u_pure:
  assumes "\<not> nullish obj" "coll_keys h obj = Inr ks"
  shows "reject_u h obj (Fn (\<lambda>this args. retM (f args))) Undef
    = retM (map hd (filter (\<lambda>e. \<not> truthy (f e)) (entries h obj ks)))"
  by (simp add: reject_u_def negate_pure filter_u_pure [OF assms])

lemma partition_u_pure:
  fixes f :: "jsval list \<Rightarrow> jsval"
  assumes "\<not> nullish obj" "coll_keys h obj = Inr ks"
  shows "(partition_u h obj (Fn (\<lambda>this args. retM (f args))) Undef
      :: ('s, jsval list \<times> jsval list) js)
    = retM (map hd (filter (\<lambda>e. truthy (f e)) (entries h obj ks)),
            map hd (filter (\<lambda>e. \<not> truthy (f e)) (entries h obj ks)))"
proof -
  define g where "g = (\<lambda>args (pass, fail). if truthy (f [arg args 0, arg args 1, arg args 2])
    then (pass @ [arg args 0], fail) else (pass, fail @ [arg args 0]))"
  have "withC ([], []) (each_u h obj (\<lambda>this args. bindM (setC (g args)) (\<lambda>_. retM Undef)) Undef)
      = (retM (obj, fold (\<lambda>k. g [elem h obj k, k, obj]) ks ([], []))
          :: ('s, jsval \<times> jsval list \<times> jsval list) js)"
    by (rule each_closure [OF assms]) simp
  moreover have "fold (\<lambda>k. g [elem h obj k, k, obj]) ks (p, q)
      = (p @ map hd (filter (\<lambda>e. truthy (f e)) (entries h obj ks)),
         q @ map hd (filter (\<lambda>e. \<not> truthy (f e)) (entries h obj ks)))" for p q
    by (induction ks arbitrary: p q) (auto simp: entries_def g_def)
  ultimately show ?thesis by (simp add: partition_u_def Let_def g_def)
qed

section \<open>Membership and binary search\<close>

lemma indexOf_u_Arr:
  "arr_ok xs \<Longrightarrow> indexOf_u h (Arr xs) item Undef = retM (find_from xs item 0)"
  by (simp add: indexOf_u_def Let_def)

lemma contains_u_Arr:
  "arr_ok xs \<Longrightarrow> contains_u h (Arr xs) t = retM (\<exists>x\<in>set xs. strict_eq x t)"
  by (simp add: contains_u_def indexOf_u_Arr Let_def find_from_nonneg)

text \<open>
  C23. On an array whose elements below the value come first, \<open>_.sortedIndex\<close>
  returns, the result is at most the length, every element before it is less than the
  value and no element from it on is: it is the insertion point that keeps the order.
  Arrays of up to \<open>2 ^ 31\<close> elements, where \<open>low + high >>> 1\<close> does not wrap.
\<close>

theorem sortedIndex_insertion_point:
  fixes c :: "jsval \<Rightarrow> jsval"
  assumes "length xs \<le> 2147483648"
    and "parted (\<lambda>i. js_less h (c (xs ! i)) (c obj)) (length xs)"
  shows "\<exists>r\<le>length xs.
    (sortedIndex_u h (Arr xs) obj (Fn (\<lambda>this args. retM (c (arg args 0)))) Undef :: ('s, nat) js) = retM r
    \<and> (\<forall>i<r. js_less h (c (xs ! i)) (c obj))
    \<and> (\<forall>i. r \<le> i \<longrightarrow> i < length xs \<longrightarrow> \<not> js_less h (c (xs ! i)) (c obj))"
proof -
  let ?P = "\<lambda>i. js_less h (c (elem h (Arr xs) (nnum i))) (c obj)"
  have el: "i < length xs \<Longrightarrow> elem h (Arr xs) (nnum i) = xs ! i" for i
    using assms(1) by simp
  then have "parted ?P (length xs)"
    using assms(2) unfolding parted_def by (metis order_le_less_trans)
  then obtain r where r: "r \<le> length xs" "(sortedIndex_loop (Suc (length xs)) h (\<lambda>x. retM (c x)) (Arr xs) (c obj) 0
      (length xs) :: ('s, nat) js) = retM r"
      "\<forall>i<r. ?P i" "\<forall>i. r \<le> i \<longrightarrow> i < length xs \<longrightarrow> \<not> ?P i"
    using sortedIndex_loop_pure [OF refl, of h c "Arr xs" "c obj" "length xs" 0 "length xs"
        "Suc (length xs)"] assms(1) by (simp only: diff_zero lessI le_refl not_less_zero) auto
  have "(sortedIndex_u h (Arr xs) obj (Fn (\<lambda>this args. retM (c (arg args 0)))) Undef :: ('s, nat) js) = retM r"
    using r(2) by (simp add: sortedIndex_u_def del: sortedIndex_loop.simps)
  with r el show ?thesis by (intro exI [of _ r]) auto
qed

theorem sortedIndex_insertion_point_witness:
  "\<exists>r\<le>length [inum 10, inum 20, inum 30].
    (sortedIndex_u [] (Arr [inum 10, inum 20, inum 30]) (inum 25)
       (Fn (\<lambda>this args. retM (id (arg args 0)))) Undef :: (unit, nat) js) = retM r
    \<and> (\<forall>i<r. js_less [] (id ([inum 10, inum 20, inum 30] ! i)) (id (inum 25)))
    \<and> (\<forall>i. r \<le> i \<longrightarrow> i < length [inum 10, inum 20, inum 30] \<longrightarrow>
          \<not> js_less [] (id ([inum 10, inum 20, inum 30] ! i)) (id (inum 25)))"
  by (rule sortedIndex_insertion_point)
     (auto simp: parted_def less_Suc_eq numeral_3_eq_3 nth_Cons')

section \<open>Folding\<close>

lemma foldM_elem:
  assumes "arr_ok xs"
  shows "foldM (\<lambda>m k. retM (g m (elem h (Arr xs) k))) m (map nnum [0..<length xs]) = retM (foldl g m xs)"
  using assms by (simp only: foldM_pure foldl_comp_map map_elem_id)

lemma keys_tl: "tl (map nnum [0..<length (x # xs)]) = map (\<lambda>i. nnum (Suc i)) [0..<length xs]"
  by (simp add: upt_conv_Cons map_Suc_upt [symmetric] del: upt_Suc map_Suc_upt)

lemma foldl_append_map: "foldl g m (rev xs) = foldr (\<lambda>x m. g m x) xs m"
  by (simp add: foldr_conv_foldl)

lemma reduce_u_Some:
  assumes "arr_ok xs"
  shows "reduce_u h (Arr xs) (\<lambda>this args. retM (g (arg args 0) (arg args 1))) (Some m) Undef
    = retM (foldl g m xs)"
  using foldM_elem [OF assms] by (simp add: reduce_u_def Let_def)

lemma reduceRight_u_Some:
  assumes "arr_ok xs"
  shows "reduceRight_u h (Arr xs) (\<lambda>this args. retM (g (arg args 0) (arg args 1))) (Some m) Undef
    = retM (foldr (\<lambda>x m. g m x) xs m)"
proof -
  have "map (elem h (Arr xs)) (rev (map nnum [0..<length xs])) = rev xs"
    using map_elem_id [OF assms, of h] by (simp only: rev_map [symmetric])
  then have "foldl (\<lambda>m k. g m (elem h (Arr xs) k)) m (rev (map nnum [0..<length xs]))
      = foldr (\<lambda>x m. g m x) xs m"
    by (simp only: foldl_comp_map foldl_append_map)
  then show ?thesis
    by (simp add: reduceRight_u_def Let_def foldM_pure del: rev_map)
qed

lemma reduce_u_None:
  assumes "arr_ok (x # xs)"
  shows "reduce_u h (Arr (x # xs)) (\<lambda>this args. retM (g (arg args 0) (arg args 1))) None Undef
    = retM (foldl g x xs)"
proof -
  have "map (elem h (Arr (x # xs))) (tl (map nnum [0..<length (x # xs)])) = xs"
    using map_elem_id [OF assms, of h] by (simp only: map_tl) simp
  moreover have "elem h (Arr (x # xs)) (nnum 0) = x"
    using elem_nnum_Arr [of 0 "x # xs" h] by simp
  ultimately show ?thesis
    by (simp add: reduce_u_def Let_def foldM_pure foldl_comp_map del: upt_Suc map_tl)
qed

lemma reduceRight_u_None:
  assumes "arr_ok (xs @ [x])"
  shows "reduceRight_u h (Arr (xs @ [x])) (\<lambda>this args. retM (g (arg args 0) (arg args 1))) None Undef
    = retM (foldr (\<lambda>x m. g m x) xs x)"
proof -
  have "map (elem h (Arr (xs @ [x]))) (rev (butlast (map nnum [0..<length (xs @ [x])]))) = rev xs"
    using map_elem_id [OF assms, of h] by (simp only: rev_map [symmetric] map_butlast) simp
  moreover have "elem h (Arr (xs @ [x])) (last (map nnum [0..<length (xs @ [x])])) = x"
    using elem_nnum_Arr [of "length xs" "xs @ [x]" h] assms by simp
  ultimately show ?thesis
    by (simp add: reduceRight_u_def Let_def foldM_pure foldl_comp_map foldl_append_map
        del: rev_map map_butlast)
qed

lemma reduce_u_empty:
  "reduce_u h (Arr []) it None Undef = throwM (TypeErr reduceError)"
  "reduceRight_u h (Arr []) it None Undef = throwM (TypeErr reduceError)"
  by (simp_all add: reduce_u_def reduceRight_u_def)

text \<open>
  C35. \<open>_.reduce\<close> over an array is the left fold of the callback and
  \<open>_.reduceRight\<close> the right fold; without an initial value they start from the first
  (last) element, and on an empty array they throw the TypeError of the source.
\<close>

theorem reduce_is_fold:
  fixes g :: "jsval \<Rightarrow> jsval \<Rightarrow> jsval"
  assumes "arr_ok (x # xs)" "arr_ok (xs @ [x])"
  defines "cb \<equiv> (\<lambda>this args. retM (g (arg args 0) (arg args 1)) :: ('s, jsval) js)"
  shows "reduce_u h (Arr xs) cb (Some m) Undef = retM (foldl g m xs)
    \<and> reduceRight_u h (Arr xs) cb (Some m) Undef = retM (foldr (\<lambda>x m. g m x) xs m)
    \<and> reduce_u h (Arr (x # xs)) cb None Undef = retM (foldl g x xs)
    \<and> reduceRight_u h (Arr (xs @ [x])) cb None Undef = retM (foldr (\<lambda>x m. g m x) xs x)
    \<and> reduce_u h (Arr []) cb None Undef = throwM (TypeErr reduceError)
    \<and> reduceRight_u h (Arr []) cb None Undef = throwM (TypeErr reduceError)"
  using assms(1,2) unfolding cb_def
  by (intro conjI reduce_u_Some reduceRight_u_Some reduce_u_None reduceRight_u_None reduce_u_empty) auto

theorem reduce_is_fold_witness:
  "reduce_u [] (Arr [inum 2]) (\<lambda>this args. retM (Arr [arg args 0, arg args 1])) (Some (inum 1)) Undef
     = (retM (Arr [inum 1, inum 2]) :: (unit, jsval) js)"
  using reduce_is_fold [where x = "inum 3" and xs = "[inum 2]" and g = "\<lambda>a b. Arr [a, b]"
      and m = "inum 1" and h = "[]" and ?'s = unit] by simp

section \<open>Finding\<close>

text \<open>
  What the closure of \<open>find\<close> does along a list of keys: it records the first value
  that passes, and the predicate is not called again after it.
\<close>

fun upto_hit :: "('a \<Rightarrow> bool) \<Rightarrow> 'a list \<Rightarrow> 'a list" where
  "upto_hit P [] = []"
| "upto_hit P (x # xs) = x # (if P x then [] else upto_hit P xs)"

lemma anyM_find:
  "anyM (\<lambda>k. bindM (outerM (bindM (modS (\<lambda>calls. calls @ [e k])) (\<lambda>_. retM (Bool (P (e k)))))) (\<lambda>r.
       bindM (if truthy r then bindM (setC (\<lambda>_. e k)) (\<lambda>_. retM (Bool True)) else retM Undef)
         (\<lambda>r. retM (truthy r)))) ks (c, calls)
   = (Inr (\<exists>v\<in>set (map e ks). P v),
      (case find P (map e ks) of None \<Rightarrow> c | Some v \<Rightarrow> v), calls @ upto_hit P (map e ks))"
  by (induction ks arbitrary: calls) (simp_all add: js_simps outerM_def modS_def setC_def)

text \<open>
  \<open>_.find\<close> returns the first element that passes the test, or
  \<open>undefined\<close> if none does; the predicate is called on the elements in order and on
  none after the one that is returned (the state records its calls).
\<close>

theorem find_first_and_stop:
  fixes P :: "jsval \<Rightarrow> bool"
  assumes "arr_ok xs"
  defines "p \<equiv> (\<lambda>this args. bindM (modS (\<lambda>calls. calls @ [arg args 0])) (\<lambda>_. retM (Bool (P (arg args 0)))))"
  shows "find_u h (Arr xs) (Fn p) Undef calls
    = (Inr (case find P xs of None \<Rightarrow> Undef | Some x \<Rightarrow> x), calls @ upto_hit P xs)"
proof -
  have "find_u h (Arr xs) (Fn p) Undef calls
      = (case anyM (\<lambda>k. bindM (outerM (bindM (modS (\<lambda>calls. calls @ [elem h (Arr xs) k]))
              (\<lambda>_. retM (Bool (P (elem h (Arr xs) k)))))) (\<lambda>r.
          bindM (if truthy r then bindM (setC (\<lambda>_. elem h (Arr xs) k)) (\<lambda>_. retM (Bool True))
            else retM Undef) (\<lambda>r. retM (truthy r)))) (map nnum [0..<length xs]) (Undef, calls) of
          (Inl e, c, s) \<Rightarrow> (Inl e, s) | (Inr a, c, s) \<Rightarrow> (Inr c, s))"
    by (simp add: find_u_def some_u_def p_def withC_def bindM_app retM_app cong: if_cong
        split: prod.split sum.split)
  then show ?thesis by (simp only: anyM_find map_elem_id [OF assms(1)] sum.case prod.case)
qed

theorem find_first_and_stop_witness:
  "find_u [] (Arr [inum 1, inum 2, inum 3])
     (Fn (\<lambda>this args. bindM (modS (\<lambda>calls. calls @ [arg args 0])) (\<lambda>_. retM (Bool (arg args 0 = inum 2)))))
     Undef [] = (Inr (inum 2), [inum 1, inum 2])"
  using find_first_and_stop [where P = "\<lambda>x. x = inum 2" and xs = "[inum 1, inum 2, inum 3]"
      and h = "[]" and calls = "[]"] by simp

section \<open>Filtering\<close>

text \<open>
  For any collection and any predicate without side effects, \<open>_.filter\<close> and
  \<open>_.reject\<close> split the values into those that pass and those that do not, in their
  order, nothing is lost or repeated, and \<open>_.partition\<close> returns exactly this pair.
\<close>

theorem partition_filter_reject:
  fixes f :: "jsval list \<Rightarrow> jsval"
  assumes "\<not> nullish obj" "coll_keys h obj = Inr ks"
  defines "p \<equiv> Fn (\<lambda>this args. retM (f args) :: ('s, jsval) js)"
  shows "\<exists>pass fail. filter_u h obj p Undef = retM pass \<and> reject_u h obj p Undef = retM fail
    \<and> partition_u h obj p Undef = retM (pass, fail)
    \<and> mset pass + mset fail = mset (map (elem h obj) ks)
    \<and> subseq pass (map (elem h obj) ks) \<and> subseq fail (map (elem h obj) ks)"
proof -
  let ?E = "entries h obj ks"
  have vals: "map hd ?E = map (elem h obj) ks" by (simp add: entries_def)
  have "mset (map hd (filter Q ?E)) + mset (map hd (filter (\<lambda>e. \<not> Q e) ?E)) = mset (map hd ?E)" for Q
    by (metis image_mset_union mset_filter mset_map multiset_partition)
  moreover have "subseq (map hd (filter Q ?E)) (map hd ?E)" for Q
    by (intro subseq_map subseq_filter_left)
  ultimately show ?thesis
    unfolding p_def filter_u_pure [OF assms(1,2)] reject_u_pure [OF assms(1,2)]
      partition_u_pure [OF assms(1,2)] vals [symmetric] by blast
qed

theorem partition_filter_reject_witness:
  "\<exists>pass fail. filter_u [] (PObj [(Name ''a'', inum 1), (Name ''b'', inum 2)])
      (Fn (\<lambda>this args. retM (Bool (arg args 0 = inum 2)) :: (unit, jsval) js)) Undef = retM pass
    \<and> mset pass + mset fail = mset [inum 1, inum 2]"
proof -
  let ?o = "PObj [(Name ''a'', inum 1), (Name ''b'', inum 2)]"
  have k: "coll_keys [] ?o = Inr [Str ''a'', Str ''b'']"
    by (simp add: coll_keys_def is_arraylike_def get_def lookup_prop_def LEN_def chain_get.simps
        obj_at_def plain_obj_def order_keys_def List.map_filter_def has_length_def ObjProto_def)
  have e: "map (elem [] ?o) [Str ''a'', Str ''b''] = [inum 1, inum 2]"
    by (simp add: elem_def to_key_def str_key_def canonical_numeral_def is_digit_def get_def lookup_prop_def)
  show ?thesis
    using partition_filter_reject [OF _ k, where f = "\<lambda>args. Bool (arg args 0 = inum 2)" and ?'s = unit]
    unfolding e by auto
qed

section \<open>Extrema of numbers\<close>

lemma foldl_max:
  "foldl (\<lambda>r v. if js_less h r v then v else r) (inum a) (map inum is) = inum (foldl max a is)"
proof (induction "is" arbitrary: a)
  case Nil
  then show ?case by simp
next
  case (Cons i "is")
  have "(if js_less h (inum a) (inum i) then inum i else inum a) = inum (max a i)" by simp
  with Cons.IH [of "max a i"] show ?case by simp
qed

lemma foldl_max_Max: "foldl max (a::int) is = Max (set (a # is))"
proof -
  have "foldl max a is = fold max is a"
    by (induction "is" arbitrary: a) (simp_all add: max.commute)
  then show ?thesis by (simp only: Max.set_eq_fold)
qed

lemma max_u_ints:
  assumes "arr_ok (map inum is)"
  shows "max_u h (Arr (map inum is)) (Val Undef) Undef
    = retM (if is = [] then Num NInf else inum (Max (set is)))"
proof -
  have "foldl (\<lambda>r v. if js_less h r v then v else r) (Num NInf) (map inum is)
      = (if is = [] then Num NInf else inum (Max (set is)))"
    by (cases "is") (simp_all add: foldl_max foldl_max_Max)
  with assms show ?thesis by (simp add: max_u_def extreme_def)
qed

section \<open>Shuffling\<close>

lemma random_u_bounds:
  assumes "0 \<le> r" "r < 1" "lo \<le> hi"
  shows "lo \<le> random_u r lo (Some hi) \<and> random_u r lo (Some hi) \<le> hi"
proof -
  let ?n = "of_int (hi - lo + 1) :: rat"
  have pos: "0 < ?n" using assms(3) by simp
  then have "0 \<le> r * ?n" using assms(1) by simp
  moreover have "r * ?n < of_int (hi - lo + 1)" using assms(2) pos by simp
  ultimately have "0 \<le> \<lfloor>r * ?n\<rfloor>" "\<lfloor>r * ?n\<rfloor> < hi - lo + 1"
    by (simp_all only: zero_le_floor floor_less_iff)
  then show ?thesis by (simp add: random_u_def)
qed

lemma shuffle_step:
  assumes "i < length sh" "r \<le> i"
  shows "mset (take (Suc i) ((if r \<noteq> i then sh[i := sh ! r] else sh)[r := x]))
       = add_mset x (mset (take i sh))"
proof (cases "r = i")
  case True
  with assms show ?thesis by (simp add: take_Suc_conv_app_nth)
next
  case False
  with assms have "r < i" by simp
  with assms have "take (Suc i) (sh[i := sh ! r, r := x]) = (take i sh)[r := x] @ [sh ! r]"
    by (simp add: take_Suc_conv_app_nth take_update_swap list_update_append)
  moreover have "mset ((take i sh)[r := x]) = add_mset x (mset (take i sh) - {#sh ! r#})"
    using \<open>r < i\<close> assms by (simp add: mset_update)
  moreover have "sh ! r \<in># mset (take i sh)"
    using \<open>r < i\<close> assms by (auto simp: in_set_conv_nth)
  ultimately show ?thesis using False by simp
qed

lemma shuffle_loop_mset:
  assumes "\<And>n. 0 \<le> rnd n \<and> rnd n < 1" "length sh = i + length xs"
  shows "mset (shuffle_loop rnd xs i sh) = mset (take i sh) + mset xs"
  using assms(2)
proof (induction xs arbitrary: i sh)
  case Nil
  then show ?case by simp
next
  case (Cons x xs)
  let ?r = "nat (random_u (rnd i) 0 (Some (int i)))"
  let ?sh = "(if ?r \<noteq> i then sh[i := sh ! ?r] else sh)[?r := x]"
  have "?r \<le> i" using random_u_bounds [of "rnd i" 0 "int i"] assms(1) [of i] by linarith
  with Cons.prems have "mset (take (Suc i) ?sh) = add_mset x (mset (take i sh))"
    by (intro shuffle_step) auto
  moreover have "mset (shuffle_loop rnd xs (Suc i) ?sh) = mset (take (Suc i) ?sh) + mset xs"
    using Cons.prems by (intro Cons.IH) simp
  ultimately show ?case by (simp add: Let_def)
qed

text \<open>
  Whatever numbers \<open>Math.random\<close> returns in [0, 1), \<open>_.shuffle\<close>
  of an array is a permutation of its elements: none is lost, none appears twice.
\<close>

theorem shuffle_permutes:
  assumes "\<And>n. 0 \<le> rnd n \<and> rnd n < 1" "arr_ok xs"
  shows "\<exists>ys. (shuffle_u rnd h (Arr xs) :: ('s, jsval list) js) = retM ys \<and> mset ys = mset xs"
  using shuffle_loop_mset [of rnd "replicate (length xs) Undef" 0 xs] assms
  by (intro exI [of _ "shuffle_loop rnd xs 0 (replicate (length xs) Undef)"]) (simp add: shuffle_u_def)

theorem shuffle_permutes_witness:
  "\<exists>ys. (shuffle_u (\<lambda>n. 1 / 2) [] (Arr [inum 1, inum 2, inum 3]) :: (unit, jsval list) js) = retM ys
     \<and> mset ys = mset [inum 1, inum 2, inum 3]"
  by (rule shuffle_permutes) auto

section \<open>Grouping\<close>

text \<open>The elements whose criterion has the key \<open>k\<close>, in the order of the collection.\<close>

definition group_of :: "heap \<Rightarrow> (jsval list \<Rightarrow> jsval) \<Rightarrow> jsval list list \<Rightarrow> key \<Rightarrow> jsval list" where
  "group_of h f es k = map hd (filter (\<lambda>e. to_key h (f e) = k) es)"

lemma group_pure:
  fixes f :: "jsval list \<Rightarrow> jsval"
  assumes "\<not> nullish obj" "coll_keys h obj = Inr ks"
  shows "(group behavior h obj (Fn (\<lambda>this args. retM (f args))) Undef :: ('s, props) js)
    = retM (foldl (\<lambda>result e. behavior h result (hd e) (to_key h (f e))) [] (entries h obj ks))"
proof -
  define g where "g = (\<lambda>args result. behavior h result (arg args 0) (to_key h (f [arg args 0, arg args 1, obj])))"
  have "withC [] (each_u h obj (\<lambda>this args. bindM (setC (g args)) (\<lambda>_. retM Undef)) Undef)
      = (retM (obj, fold (\<lambda>k. g [elem h obj k, k, obj]) ks []) :: ('s, jsval \<times> props) js)"
    by (rule each_closure [OF assms]) simp
  moreover have "fold (\<lambda>k. g [elem h obj k, k, obj]) ks acc
      = foldl (\<lambda>result e. behavior h result (hd e) (to_key h (f e))) acc (entries h obj ks)" for acc
    by (induction ks arbitrary: acc) (auto simp: entries_def g_def)
  ultimately show ?thesis by (simp add: group_def Let_def g_def)
qed

lemma has_u_PObj [simp]: "has_u h (PObj ps) k \<longleftrightarrow> map_of ps k \<noteq> None"
  by (simp add: has_u_def has_own_def)

lemma get_PObj_Some [simp]: "map_of ps k = Some v \<Longrightarrow> get h (PObj ps) k = v"
  by (simp add: get_def lookup_prop_def)

lemma groupBy_fold:
  "map_of (foldl (\<lambda>result e. groupBy_behavior h result (hd e) (to_key h (f e))) [] es) k
   = (if group_of h f es k = [] then None else Some (Arr (group_of h f es k)))"
proof (induction es rule: rev_induct)
  case Nil
  then show ?case by (simp add: group_of_def)
next
  case (snoc e es)
  then show ?case by (auto simp: groupBy_behavior_def group_of_def split: if_splits)
qed

lemma countBy_fold:
  "map_of (foldl (\<lambda>result e. countBy_behavior h result (hd e) (to_key h (f e))) [] es) k
   = (if group_of h f es k = [] then None else Some (nnum (length (group_of h f es k))))"
proof (induction es rule: rev_induct)
  case Nil
  then show ?case by (simp add: group_of_def)
next
  case (snoc e es)
  then show ?case by (auto simp: countBy_behavior_def group_of_def split: if_splits)
qed

lemma indexBy_fold:
  "map_of (foldl (\<lambda>result e. put (to_key h (f e)) (hd e) result) [] es) k
   = (if group_of h f es k = [] then None else Some (last (group_of h f es k)))"
proof (induction es rule: rev_induct)
  case Nil
  then show ?case by (simp add: group_of_def)
next
  case (snoc e es)
  then show ?case by (auto simp: group_of_def split: if_splits)
qed

text \<open>
  For every key, \<open>_.groupBy\<close> holds exactly the values whose criterion has that
  key, in their order; \<open>_.countBy\<close> holds how many there are and \<open>_.indexBy\<close>
  the last of them; a key no value has is in none of the three results.
\<close>

theorem groupBy_countBy_indexBy:
  fixes f :: "jsval list \<Rightarrow> jsval"
  assumes "\<not> nullish obj" "coll_keys h obj = Inr ks"
  defines "it \<equiv> Fn (\<lambda>this args. retM (f args) :: ('s, jsval) js)"
  defines "grp \<equiv> group_of h f (entries h obj ks)"
  shows "\<exists>G C I. groupBy_u h obj it Undef = retM G \<and> countBy_u h obj it Undef = retM C
    \<and> indexBy_u h obj it Undef = retM I
    \<and> (\<forall>k. map_of G k = (if grp k = [] then None else Some (Arr (grp k)))
        \<and> map_of C k = (if grp k = [] then None else Some (nnum (length (grp k))))
        \<and> map_of I k = (if grp k = [] then None else Some (last (grp k))))"
  unfolding it_def grp_def groupBy_u_def countBy_u_def indexBy_u_def group_pure [OF assms(1,2)]
  using groupBy_fold countBy_fold indexBy_fold by blast

theorem groupBy_countBy_indexBy_witness:
  "\<exists>G. groupBy_u [] (Arr [inum 1, inum 2, inum 1]) (Fn (\<lambda>this args. retM (arg args 0) :: (unit, jsval) js))
       Undef = retM G \<and> map_of G (Idx 1) = Some (Arr [inum 1, inum 1]) \<and> map_of G (Idx 3) = None"
proof -
  have "to_key [] (inum 1) = Idx 1" "to_key [] (inum 2) = Idx 2"
    using to_key_nnum [of 1 "[]"] to_key_nnum [of 2 "[]"] by simp_all
  moreover have "map (elem [] (Arr [inum 1, inum 2, inum 1])) [nnum 0, nnum 1, nnum 2] = [inum 1, inum 2, inum 1]"
    using map_elem_id [of "[inum 1, inum 2, inum 1]" "[]"] by (simp add: upt_conv_Cons)
  ultimately show ?thesis
    using groupBy_countBy_indexBy [of "Arr [inum 1, inum 2, inum 1]" "[]" "[nnum 0, nnum 1, nnum 2]"
        "\<lambda>args. arg args 0", where ?'s = unit]
    by (auto simp: group_of_def entries_def upt_conv_Cons)
qed

section \<open>Sorting by a criterion\<close>

text \<open>The object \<open>_.sortBy\<close> makes for an element, when the criterion is an integer.\<close>

definition sort_box :: "jsval \<Rightarrow> nat \<Rightarrow> int \<Rightarrow> jsval" where
  "sort_box v i c = PObj [(Name ''value'', v), (Name ''index'', nnum i), (Name ''criteria'', inum c)]"

definition is_box :: "jsval \<Rightarrow> bool" where
  "is_box b \<longleftrightarrow> (\<exists>v i c. b = sort_box v i c)"

definition box_gt :: "heap \<Rightarrow> jsval \<Rightarrow> jsval \<Rightarrow> bool" where
  "box_gt h l r \<longleftrightarrow> num_less (Fin 0) (sortBy_cmp h l r)"

lemma sort_box_gets [simp]:
  "get h (sort_box v i c) (Name ''value'') = v"
  "get h (sort_box v i c) (Name ''index'') = nnum i"
  "get h (sort_box v i c) (Name ''criteria'') = inum c"
  by (simp_all add: sort_box_def get_def lookup_prop_def)

lemma box_gt_iff [simp]:
  "box_gt h (sort_box v i c) (sort_box w j d) \<longleftrightarrow> d < c \<or> c = d \<and> j < i"
  by (auto simp: box_gt_def sortBy_cmp_def num_sub_def Let_def)

interpretation sortBy_order: comparator is_box "box_gt h" for h
  by unfold_locales (auto simp: is_box_def)

text \<open>The boxes of an array, and what sorting them gives.\<close>

definition boxes :: "(jsval \<Rightarrow> int) \<Rightarrow> jsval list \<Rightarrow> jsval list" where
  "boxes c xs = map (\<lambda>(i, x). sort_box x i (c x)) (indexed xs)"

definition box_val :: "jsval \<Rightarrow> jsval" where
  "box_val b = get [] b (Name ''value'')"

fun box_idx :: "jsval \<Rightarrow> nat" where
  "box_idx (PObj [(k, v), (j, Num (Fin i)), w]) = nat i"
| "box_idx b = 0"

lemma box_sels [simp]: "box_val (sort_box v i c) = v" "box_idx (sort_box v i c) = i"
  by (simp add: box_val_def) (simp add: sort_box_def)

lemma boxes_vals [simp]: "map box_val (boxes c xs) = xs" "map box_idx (boxes c xs) = [0..<length xs]"
  by (simp_all add: boxes_def comp_def case_prod_unfold)

lemma set_boxes: "b \<in> set (boxes c xs) \<Longrightarrow> \<exists>x i. b = sort_box x i (c x)"
  by (auto simp: boxes_def)

lemma boxes_ok: "\<forall>b\<in>set (boxes c xs). is_box b"
  using set_boxes is_box_def by metis

lemma boxes_sorted:
  "sorted_wrt (\<lambda>a b. c (box_val a) < c (box_val b) \<or> c (box_val a) = c (box_val b) \<and> box_idx a \<le> box_idx b)
     (js_sort (box_gt h) (boxes c xs))"
proof (rule sorted_wrt_mono_rel)
  show "sorted_wrt (\<lambda>a b. \<not> box_gt h a b) (js_sort (box_gt h) (boxes c xs))"
    by (rule sortBy_order.sorted_js_sort [OF boxes_ok])
next
  fix a b assume "a \<in> set (js_sort (box_gt h) (boxes c xs))" "b \<in> set (js_sort (box_gt h) (boxes c xs))"
    and "\<not> box_gt h a b"
  then show "c (box_val a) < c (box_val b) \<or> c (box_val a) = c (box_val b) \<and> box_idx a \<le> box_idx b"
    by (auto dest!: set_boxes)
qed

lemma boxes_stable:
  "filter (\<lambda>b. c (box_val b) = k) (js_sort (box_gt h) (boxes c xs))
   = filter (\<lambda>b. c (box_val b) = k) (boxes c xs)" (is "?l = ?r")
proof (rule map_sorted_distinct_set_unique [where f = box_idx])
  have dist: "distinct (map box_idx (boxes c xs))" by simp
  have "mset (map box_idx (js_sort (box_gt h) (boxes c xs))) = mset (map box_idx (boxes c xs))"
    by (simp del: boxes_vals)
  then have dist': "distinct (map box_idx (js_sort (box_gt h) (boxes c xs)))"
    using dist mset_eq_imp_distinct_iff by blast
  show "inj_on box_idx (set ?l \<union> set ?r)"
    using dist by (metis (no_types, lifting) Un_subset_iff distinct_map filter_is_subset inj_on_subset
        set_js_sort)
  show "distinct (map box_idx ?l)" "distinct (map box_idx ?r)"
    using dist dist' by (auto intro: distinct_map_filter)
  have "sorted (map box_idx (boxes c xs))" by simp
  then show "sorted (map box_idx ?r)" by (rule sorted_filter)
  have "sorted_wrt (\<lambda>a b. box_idx a \<le> box_idx b) ?l"
    using sorted_wrt_filter [OF boxes_sorted [of c h xs], where P = "\<lambda>b. c (box_val b) = k"]
    by (rule sorted_wrt_mono_rel [rotated]) auto
  then show "sorted (map box_idx ?l)" by (simp add: sorted_wrt_map)
qed simp

lemma pluck_u_Arr:
  assumes "arr_ok xs" "\<forall>x\<in>set xs. \<not> nullish x"
  shows "(pluck_u h (Arr xs) k :: ('s, jsval list) js) = retM (map (\<lambda>x. get h x (to_key h k)) xs)"
proof -
  have "mapM (\<lambda>j. getM h (elem h (Arr xs) j) (to_key h k)) (map nnum [0..<length xs])
      = (mapM (\<lambda>j. retM (get h (elem h (Arr xs) j) (to_key h k))) (map nnum [0..<length xs])
          :: ('s, jsval list) js)"
    using assms by (intro mapM_cong_set refl) auto
  also have "\<dots> = retM (map (\<lambda>x. get h x (to_key h k)) (map (elem h (Arr xs)) (map nnum [0..<length xs])))"
    by (simp add: mapM_pure comp_def)
  also have "\<dots> = retM (map (\<lambda>x. get h x (to_key h k)) xs)"
    by (simp only: map_elem_id [OF assms(1)])
  finally show ?thesis using assms(1) by (simp add: pluck_u_def map_u_def property_u_def)
qed

lemma sortBy_u_ints:
  fixes c :: "jsval \<Rightarrow> int"
  assumes "arr_ok xs"
  shows "(sortBy_u h (Arr xs) (Fn (\<lambda>this args. retM (inum (c (arg args 0))))) Undef :: ('s, jsval list) js)
    = retM (map box_val (js_sort (box_gt h) (boxes c xs)))"
proof -
  have m: "map (\<lambda>k. sort_box (elem h (Arr xs) k) (nat (case k of Num (Fin i) \<Rightarrow> i)) (c (elem h (Arr xs) k)))
      (map nnum [0..<length xs]) = boxes c xs"
    using map_elem_Arr [OF assms, where f = "\<lambda>x k. sort_box x (nat (case k of Num (Fin i) \<Rightarrow> i)) (c x)" and h = h]
    by (simp add: boxes_def)
  have mk: "mapM (\<lambda>k. retM (PObj [(Name ''value'', elem h (Arr xs) k), (Name ''index'', k),
        (Name ''criteria'', inum (c (elem h (Arr xs) k)))])) (map nnum [0..<length xs])
      = (retM (boxes c xs) :: ('s, jsval list) js)"
    unfolding m [symmetric] mapM_pure by (simp add: sort_box_def comp_def)
  have val: "to_key h (Str ''value'') = Name ''value''"
    by (simp add: to_key_def str_key_def canonical_numeral_def is_digit_def)
  have "arr_ok (js_sort (box_gt h) (boxes c xs))" using assms by (simp add: boxes_def)
  moreover have "\<forall>b\<in>set (js_sort (box_gt h) (boxes c xs)). \<not> nullish b"
    by (auto dest!: set_boxes simp: sort_box_def)
  ultimately have pl: "(pluck_u h (Arr (js_sort (box_gt h) (boxes c xs))) (Str ''value'') :: ('s, jsval list) js)
      = retM (map (\<lambda>b. get h b (Name ''value'')) (js_sort (box_gt h) (boxes c xs)))"
    using pluck_u_Arr val by metis
  have "map (\<lambda>b. get h b (Name ''value'')) (js_sort (box_gt h) (boxes c xs))
      = map box_val (js_sort (box_gt h) (boxes c xs))"
    by (rule map_cong) (auto dest!: set_boxes)
  then have "(pluck_u h (Arr (js_sort (box_gt h) (boxes c xs))) (Str ''value'') :: ('s, jsval list) js)
      = retM (map box_val (js_sort (box_gt h) (boxes c xs)))" by (simp only: pl)
  moreover have "(\<lambda>l r. num_less (Fin 0) (sortBy_cmp h l r)) = box_gt h"
    by (intro ext) (simp add: box_gt_def)
  ultimately show ?thesis using assms mk
    by (simp add: sortBy_u_def map_u_def)
qed

text \<open>
  C22. \<open>_.sortBy\<close> of an array by an integer criterion returns a permutation of the
  elements in ascending order of the criterion, and it is stable: elements with equal
  criteria keep their order.
\<close>

theorem sortBy_stable_sort:
  fixes c :: "jsval \<Rightarrow> int"
  assumes "arr_ok xs"
  shows "\<exists>ys. (sortBy_u h (Arr xs) (Fn (\<lambda>this args. retM (inum (c (arg args 0))))) Undef :: ('s, jsval list) js)
      = retM ys
    \<and> mset ys = mset xs \<and> sorted (map c ys) \<and> (\<forall>k. filter (\<lambda>x. c x = k) ys = filter (\<lambda>x. c x = k) xs)"
proof -
  let ?s = "js_sort (box_gt h) (boxes c xs)"
  have "mset (map box_val ?s) = mset (map box_val (boxes c xs))" by (simp del: boxes_vals)
  then have "mset (map box_val ?s) = mset xs" by simp
  moreover have "sorted (map c (map box_val ?s))"
    unfolding map_map sorted_wrt_map using boxes_sorted
    by (rule sorted_wrt_mono_rel [rotated]) (auto simp: comp_def)
  moreover have "filter (\<lambda>x. c x = k) (map box_val ?s) = filter (\<lambda>x. c x = k) xs" for k
  proof -
    have "filter (\<lambda>x. c x = k) (map box_val ?s) = map box_val (filter (\<lambda>b. c (box_val b) = k) ?s)"
      by (simp add: filter_map comp_def)
    also have "\<dots> = filter (\<lambda>x. c x = k) (map box_val (boxes c xs))"
      by (simp only: boxes_stable filter_map comp_def)
    finally show ?thesis by simp
  qed
  ultimately show ?thesis using sortBy_u_ints [OF assms] by blast
qed

theorem sortBy_stable_sort_witness:
  "\<exists>ys. (sortBy_u [] (Arr [inum 3, Null, inum 1])
        (Fn (\<lambda>this args. retM (inum ((\<lambda>v. case v of Num (Fin i) \<Rightarrow> i | _ \<Rightarrow> 7) (arg args 0))))) Undef
        :: (unit, jsval list) js) = retM ys
    \<and> mset ys = mset [inum 3, Null, inum 1]"
  using sortBy_stable_sort [where c = "\<lambda>v. case v of Num (Fin i) \<Rightarrow> i | _ \<Rightarrow> 7" and h = "[]"
      and xs = "[inum 3, Null, inum 1]" and ?'s = unit] by auto

end
