(* ===== verification/Underscore_Arrays.thy ===== *)
theory Underscore_Arrays
  imports Underscore_Collections
begin

text \<open>
  The array functions of underscore.js: slices (\<open>first\<close>, \<open>initial\<close>,
  \<open>last\<close>, \<open>rest\<close>), \<open>compact\<close>, \<open>flatten\<close>, the set
  operations, \<open>zip\<close>, \<open>object\<close> and \<open>range\<close>, in the order of the
  source; then that slices divide an array, that \<open>flatten\<close> lists the leaves, that
  \<open>uniq\<close> keeps the first occurrences in both of its algorithms, that the set
  operations are the set operations up to strict equality, that \<open>object\<close> inverts
  \<open>pairs\<close>, and that \<open>range\<close> is the arithmetic progression.
\<close>

section \<open>Slices\<close>

text \<open>\<open>Array.prototype.slice\<close>: relative start and end, clamped to the length.\<close>

definition clamp_index :: "nat \<Rightarrow> jsnum \<Rightarrow> nat" where
  "clamp_index len n = (case norm0 n of
      Fin k \<Rightarrow> if k < 0 then nat (int len + k) else min (nat k) len
    | PInf \<Rightarrow> len
    | _ \<Rightarrow> 0)"

definition slice_call :: "heap \<Rightarrow> jsval \<Rightarrow> jsnum \<Rightarrow> jsnum \<Rightarrow> ('s, jsval list) js" where
  "slice_call h array start end =
     (if nullish array then throwM (TypeErr ''slice called on null or undefined'')
      else bindM (liftE (arr_items h array)) (\<lambda>xs.
        let from = clamp_index (length xs) start; upto = clamp_index (length xs) end in
        retM (take (upto - from) (drop from xs))))"

definition num_max :: "jsnum \<Rightarrow> jsnum \<Rightarrow> jsnum" where
  "num_max a b = (if a = NaN \<or> b = NaN then NaN else if num_less a b then b else a)"

definition first_u :: "heap \<Rightarrow> jsval \<Rightarrow> jsval \<Rightarrow> bool \<Rightarrow> ('s, jsval) js" where
  "first_u h array n guard =
     (if nullish array then retM Undef
      else if nullish n \<or> guard then retM (elem h array (nnum 0))
      else if js_less h n (inum 0) then retM (Arr [])
      else bindM (slice_call h array (Fin 0) (to_number h n)) (\<lambda>xs. retM (Arr xs)))"

definition initial_u :: "heap \<Rightarrow> jsval \<Rightarrow> jsval \<Rightarrow> bool \<Rightarrow> ('s, jsval list) js" where
  "initial_u h array n guard =
     bindM (getM h array LEN) (\<lambda>len.
     slice_call h array (Fin 0) (num_max (Fin 0)
       (num_sub (to_number h len) (if nullish n \<or> guard then Fin 1 else to_number h n))))"

definition last_u :: "heap \<Rightarrow> jsval \<Rightarrow> jsval \<Rightarrow> bool \<Rightarrow> ('s, jsval) js" where
  "last_u h array n guard =
     (if nullish array then retM Undef
      else (let len = to_number h (get h array LEN) in
        if nullish n \<or> guard then retM (elem h array (Num (num_sub len (Fin 1))))
        else bindM (slice_call h array (num_max (num_sub len (to_number h n)) (Fin 0)) PInf)
          (\<lambda>xs. retM (Arr xs))))"

definition rest_u :: "heap \<Rightarrow> jsval \<Rightarrow> jsval \<Rightarrow> bool \<Rightarrow> ('s, jsval list) js" where
  "rest_u h array n guard =
     slice_call h array (if nullish n \<or> guard then Fin 1 else to_number h n) PInf"

definition compact_u :: "heap \<Rightarrow> jsval \<Rightarrow> ('s, jsval list) js" where
  "compact_u h array = filter_u h array (Fn identity_u) Undef"

section \<open>Flattening\<close>

text \<open>\<open>f.apply(this, v)\<close>: the list of arguments that the array-like \<open>v\<close> stands for.\<close>

definition apply_args :: "heap \<Rightarrow> jsval \<Rightarrow> jsexn + jsval list" where
  "apply_args h v = (if nullish v then Inr []
     else if isObject v then arr_items h v
     else Inl (TypeErr ''CreateListFromArrayLike called on non-object''))"

fun concat_args :: "heap \<Rightarrow> jsval list \<Rightarrow> jsval list \<Rightarrow> ('s, jsval list) js" where
  "concat_args h output [] = retM output"
| "concat_args h output (v # vs) =
     (if isArray_u h v then bindM (liftE (arr_items h v)) (\<lambda>xs. concat_args h (output @ xs) vs)
      else concat_args h (output @ [v]) vs)"

definition isArray_fn :: "heap \<Rightarrow> 's fn" where
  "isArray_fn h this args = retM (Bool (isArray_u h (arg args 0)))"

text \<open>
  The recursion follows references and does not end on a cyclic array; \<open>depth\<close> is the
  depth of the call stack, whose overflow is a RangeError.
\<close>

fun flatten :: "nat \<Rightarrow> heap \<Rightarrow> jsval \<Rightarrow> bool \<Rightarrow> bool \<Rightarrow> jsval list \<Rightarrow> ('s, jsval list) js" where
  "flatten 0 h input shallow strict output = throwM (RangeErr ''Maximum call stack size exceeded'')"
| "flatten (Suc depth) h input shallow strict output =
     bindM (if shallow then every_u h input (Fn (isArray_fn h)) Undef else retM False) (\<lambda>all_arrays.
       if all_arrays then bindM (liftE (apply_args h input)) (concat_args h output)
       else bindM (getM h input LEN) (\<lambda>_.
         bindM (liftE (arr_items h input)) (\<lambda>vs.
         foldM (\<lambda>output v.
           if \<not> isArray_u h v \<and> \<not> isArguments_u h v then
             retM (if \<not> strict then output @ [v] else output)
           else if shallow then bindM (liftE (apply_args h v)) (\<lambda>xs. retM (output @ xs))
           else flatten depth h v shallow strict output) output vs)))"

definition flatten_u :: "nat \<Rightarrow> heap \<Rightarrow> jsval \<Rightarrow> bool \<Rightarrow> ('s, jsval list) js" where
  "flatten_u depth h array shallow = flatten depth h array shallow False []"

section \<open>Set operations\<close>

text \<open>
  The second and third argument of \<open>uniq\<close> are shifted when the second is not a
  boolean, so they are values here; \<open>code\<close> is what the function objects do.
\<close>

definition to_callee :: "heap \<Rightarrow> (nat \<Rightarrow> 's fn) \<Rightarrow> jsval \<Rightarrow> 's callee" where
  "to_callee h code v = (case v of Ref r \<Rightarrow> if cls (obj_at h r) = CFunction then Fn (code r) else Val v
     | _ \<Rightarrow> Val v)"

text \<open>
  One pass of the loop of \<open>uniq\<close>: the state is \<open>result\<close> and \<open>seen\<close>,
  which is the previous value when the array is sorted, a list of computed values otherwise.
\<close>

definition uniq_step ::
  "heap \<Rightarrow> jsval \<Rightarrow> bool \<Rightarrow> 's fn option \<Rightarrow> jsval list \<times> jsval list \<Rightarrow> nat \<times> jsval
   \<Rightarrow> ('s, jsval list \<times> jsval list) js" where
  "uniq_step h array isSorted it = (\<lambda>(result, seen) (i, v).
     if isSorted then
       retM (if i = 0 \<or> \<not> strict_eq (arg seen 0) v then result @ [v] else result, [v])
     else (case it of
       Some f \<Rightarrow> bindM (f Undef [v, nnum i, array]) (\<lambda>computed.
         bindM (indexOf_u h (Arr seen) computed Undef) (\<lambda>k.
         retM (if k < 0 then (result @ [v], seen @ [computed]) else (result, seen))))
     | None \<Rightarrow> bindM (indexOf_u h (Arr result) v Undef) (\<lambda>k.
         retM (if k < 0 then result @ [v] else result, seen))))"

definition uniq_u ::
  "heap \<Rightarrow> (nat \<Rightarrow> 's fn) \<Rightarrow> jsval \<Rightarrow> jsval \<Rightarrow> jsval \<Rightarrow> jsval \<Rightarrow> ('s, jsval list) js" where
  "uniq_u h code array isSorted0 iteratee0 context0 =
     (if nullish array then retM []
      else (let (isSorted, iteratee, context) = (if \<not> isBoolean_u h isSorted0
              then (Bool False, isSorted0, iteratee0) else (isSorted0, iteratee0, context0));
          it = (if nullish iteratee then None
                else Some (iteratee_u h (to_callee h code iteratee) context None)) in
        bindM (liftE (arr_items h array)) (\<lambda>xs.
        bindM (foldM (uniq_step h array (truthy isSorted) it) ([], []) (indexed xs)) (\<lambda>(result, _).
        retM result))))"

text \<open>The functions below take a list of arguments (the \<open>arguments\<close> object).\<close>

definition union_u :: "heap \<Rightarrow> (nat \<Rightarrow> 's fn) \<Rightarrow> jsval list \<Rightarrow> ('s, jsval list) js" where
  "union_u h code args = bindM (flatten 1 h (Arr args) True True [])
     (\<lambda>xs. uniq_u h code (Arr xs) Undef Undef Undef)"

definition intersection_u :: "heap \<Rightarrow> jsval list \<Rightarrow> ('s, jsval list) js" where
  "intersection_u h args =
     (if nullish (arg args 0) then retM []
      else bindM (liftE (arr_items h (arg args 0))) (\<lambda>xs.
        foldM (\<lambda>result item.
          bindM (contains_u h (Arr result) item) (\<lambda>seen.
            if seen then retM result
            else bindM (anyM (\<lambda>other. bindM (contains_u h other item) (\<lambda>c. retM (\<not> c))) (tl args))
              (\<lambda>missing. retM (if missing then result else result @ [item])))) [] xs))"

definition difference_u :: "heap \<Rightarrow> jsval list \<Rightarrow> ('s, jsval list) js" where
  "difference_u h args =
     bindM (flatten 1 h (Arr (tl args)) True True []) (\<lambda>rest.
     filter_u h (arg args 0) (Fn (\<lambda>this vs.
       bindM (contains_u h (Arr rest) (arg vs 0)) (\<lambda>c. retM (Bool (\<not> c))))) Undef)"

definition without_u :: "heap \<Rightarrow> jsval list \<Rightarrow> ('s, jsval list) js" where
  "without_u h args = difference_u h [arg args 0, Arr (tl args)]"

section \<open>Lists to rows and objects\<close>

text \<open>\<open>Array(length)\<close> makes a one-element array when \<open>length\<close> is not a number.\<close>

definition zip_u :: "heap \<Rightarrow> jsval list \<Rightarrow> ('s, jsval list) js" where
  "zip_u h args =
     (if nullish (arg args 0) then retM []
      else bindM (max_u h (Arr args) (Val (Str ''length'')) Undef) (\<lambda>longest.
        bindM (getM h longest LEN) (\<lambda>len.
        bindM (case len of Num n \<Rightarrow> bindM (liftE (array_length n)) (\<lambda>_. retM [])
               | _ \<Rightarrow> retM [len]) (\<lambda>results.
        bindM (liftE (loop_count (to_number h len))) (\<lambda>n.
        bindM (mapM (\<lambda>i. bindM (pluck_u h (Arr args) (nnum i)) (\<lambda>row. retM (Arr row))) [0..<n]) (\<lambda>rows.
        retM (rows @ drop n results)))))))"

definition object_u :: "heap \<Rightarrow> jsval \<Rightarrow> jsval \<Rightarrow> ('s, props) js" where
  "object_u h list vals =
     (if nullish list then retM []
      else bindM (liftE (arr_items h list)) (\<lambda>xs.
        foldM (\<lambda>result (i, x).
          if truthy vals then retM (put (to_key h x) (elem h vals (nnum i)) result)
          else bindM (getM h x (Idx 0)) (\<lambda>k. bindM (getM h x (Idx 1)) (\<lambda>v.
            retM (put (to_key h k) v result)))) [] (indexed xs)))"

section \<open>Ranges\<close>

definition num_add :: "jsnum \<Rightarrow> jsnum \<Rightarrow> jsnum" where
  "num_add a b = (if a = NegZero \<and> b = NegZero then NegZero else num_sub a (negate_num b))"

text \<open>\<open>Math.ceil(a / b)\<close>\<close>

definition ceil_div :: "jsnum \<Rightarrow> jsnum \<Rightarrow> jsnum" where
  "ceil_div a b = (case (norm0 a, norm0 b) of
      (Fin x, Fin y) \<Rightarrow> if y = 0 then (if x = 0 then NaN else if 0 < x then PInf else NInf)
                        else Fin (- (- x div y))
    | (Fin x, PInf) \<Rightarrow> Fin 0
    | (Fin x, NInf) \<Rightarrow> Fin 0
    | (PInf, Fin y) \<Rightarrow> if 0 \<le> y then PInf else NInf
    | (NInf, Fin y) \<Rightarrow> if 0 \<le> y then NInf else PInf
    | _ \<Rightarrow> NaN)"

fun range_loop :: "nat \<Rightarrow> jsnum \<Rightarrow> jsnum \<Rightarrow> jsnum list" where
  "range_loop 0 start step = []"
| "range_loop (Suc n) start step = start # range_loop n (num_add start step) step"

definition num_arg :: "jsnum list \<Rightarrow> nat \<Rightarrow> jsnum" where
  "num_arg args i = (if i < length args then args ! i else NaN)"

definition range_u :: "jsnum list \<Rightarrow> jsexn + jsnum list" where
  "range_u args =
     (let (start, stop) = (if length args \<le> 1
            then (Fin 0, if truthy (Num (num_arg args 0)) then num_arg args 0 else Fin 0)
            else (num_arg args 0, num_arg args 1));
          step = (if truthy (Num (num_arg args 2)) then num_arg args 2 else Fin 1) in
      case array_length (num_max (ceil_div (num_sub stop start) step) (Fin 0)) of
        Inl e \<Rightarrow> Inl e
      | Inr n \<Rightarrow> Inr (range_loop n start step))"
section \<open>Lemmas: slices\<close>

lemma clamp_nat [simp]: "clamp_index len (Fin (int k)) = min k len"
  by (simp add: clamp_index_def)

lemma clamp_special [simp]: "clamp_index len PInf = len" "clamp_index len (Fin 0) = 0" "clamp_index len NaN = 0"
  by (simp_all add: clamp_index_def)

lemma num_sub_Fin [simp]: "num_sub (Fin a) (Fin b) = Fin (a - b)"
  by (simp add: num_sub_def)

lemma num_max_Fin [simp]: "num_max (Fin a) (Fin b) = Fin (max a b)"
  by (auto simp: num_max_def)

lemma nat_diff_max [simp]:
  "max 0 (int m - int n) = int (m - n)" "max (int m - int n) 0 = int (m - n)"
  by (auto simp: max_def)

lemma slice_call_Arr [simp]:
  "arr_ok xs \<Longrightarrow> slice_call h (Arr xs) a b
   = retM (take (clamp_index (length xs) b - clamp_index (length xs) a) (drop (clamp_index (length xs) a) xs))"
  by (simp add: slice_call_def Let_def)

text \<open>
  For every count \<open>k\<close>, \<open>_.first\<close> and \<open>_.rest\<close> divide an array
  after its first \<open>k\<close> elements, and \<open>_.initial\<close> and \<open>_.last\<close> divide
  it before its last \<open>k\<close>; counts beyond the length take the whole array, and the
  calls on null or undefined return undefined (first, last) or throw a TypeError (rest, initial).
\<close>

theorem slices_divide:
  assumes "arr_ok xs"
  shows "(\<exists>a b. (first_u h (Arr xs) (nnum k) False :: ('s, jsval) js) = retM (Arr a)
      \<and> (rest_u h (Arr xs) (nnum k) False :: ('s, jsval list) js) = retM b
      \<and> a @ b = xs \<and> length a = min k (length xs))
    \<and> (\<exists>c d. (initial_u h (Arr xs) (nnum k) False :: ('s, jsval list) js) = retM c
      \<and> (last_u h (Arr xs) (nnum k) False :: ('s, jsval) js) = retM (Arr d)
      \<and> c @ d = xs \<and> length d = min k (length xs))
    \<and> (first_u h Null (nnum k) False :: ('s, jsval) js) = retM Undef
    \<and> (last_u h Null (nnum k) False :: ('s, jsval) js) = retM Undef
    \<and> (\<exists>m. (rest_u h Null (nnum k) False :: ('s, jsval list) js) = throwM (TypeErr m))
    \<and> (\<exists>m. (initial_u h Null (nnum k) False :: ('s, jsval list) js) = throwM (TypeErr m))"
proof -
  have "(first_u h (Arr xs) (nnum k) False :: ('s, jsval) js) = retM (Arr (take k xs))"
    "(rest_u h (Arr xs) (nnum k) False :: ('s, jsval list) js) = retM (drop k xs)"
    using assms by (auto simp: first_u_def rest_u_def min_def)
  moreover have "(initial_u h (Arr xs) (nnum k) False :: ('s, jsval list) js) = retM (take (length xs - k) xs)"
    "(last_u h (Arr xs) (nnum k) False :: ('s, jsval) js) = retM (Arr (drop (length xs - k) xs))"
    using assms by (auto simp: initial_u_def last_u_def Let_def)
  moreover have "length (drop (length xs - k) xs) = min k (length xs)" by auto
  ultimately show ?thesis
    by (intro conjI exI) (auto simp: first_u_def last_u_def rest_u_def initial_u_def slice_call_def)
qed

theorem slices_divide_witness:
  "\<exists>a b. (first_u [] (Arr [inum 1, inum 2, inum 3]) (nnum 2) False :: (unit, jsval) js) = retM (Arr a)
      \<and> (rest_u [] (Arr [inum 1, inum 2, inum 3]) (nnum 2) False :: (unit, jsval list) js) = retM b
      \<and> a @ b = [inum 1, inum 2, inum 3] \<and> length a = 2"
  using slices_divide [of "[inum 1, inum 2, inum 3]" "[]" 2, where ?'s = unit] by (simp add: numeral_2_eq_2)

section \<open>Lemmas: flattening\<close>

text \<open>The leaves of a nested array, its nesting depth, and the shape the statement is about.\<close>

fun leaves :: "jsval \<Rightarrow> jsval list" where
  "leaves (Arr xs) = concat (map leaves xs)"
| "leaves v = [v]"

fun nesting :: "jsval \<Rightarrow> nat" where
  "nesting (Arr xs) = Suc (Max (set (0 # map nesting xs)))"
| "nesting v = 0"

fun tree_shaped :: "heap \<Rightarrow> jsval \<Rightarrow> bool" where
  "tree_shaped h (Arr xs) \<longleftrightarrow> arr_ok xs \<and> (\<forall>x\<in>set xs. tree_shaped h x)"
| "tree_shaped h v \<longleftrightarrow> \<not> isArray_u h v \<and> \<not> isArguments_u h v"

lemma foldM_append:
  assumes "\<And>out x. x \<in> set xs \<Longrightarrow> f out x = retM (out @ g x)"
  shows "foldM f out xs = retM (out @ concat (map g xs))"
  using assms by (induction xs arbitrary: out) auto

lemma flatten_deep:
  "tree_shaped h (Arr xs) \<Longrightarrow> nesting (Arr xs) \<le> depth \<Longrightarrow>
   (flatten depth h (Arr xs) False False out :: ('s, jsval list) js) = retM (out @ leaves (Arr xs))"
proof (induction depth arbitrary: xs out)
  case 0
  then show ?case by simp
next
  case (Suc depth)
  have "foldM (\<lambda>output v.
      if \<not> isArray_u h v \<and> \<not> isArguments_u h v then retM (output @ [v])
      else flatten depth h v False False output) out xs
    = (retM (out @ concat (map leaves xs)) :: ('s, jsval list) js)"
  proof (rule foldM_append)
    fix out' x assume x: "x \<in> set xs"
    then have ok: "tree_shaped h x" using Suc.prems by simp
    have "nesting x \<le> depth" using Suc.prems x by simp
    then show "(if \<not> isArray_u h x \<and> \<not> isArguments_u h x then retM (out' @ [x])
        else flatten depth h x False False out') = (retM (out' @ leaves x) :: ('s, jsval list) js)"
      using ok Suc.IH by (cases x) auto
  qed
  then show ?case using Suc.prems by (simp cong: if_cong)
qed

lemma to_key_0 [simp]: "to_key h (inum 0) = Idx 0"
  using to_key_nnum [of 0 h] by simp

lemma flatten_cyclic:
  assumes "r < length h" "cls (h ! r) = CArray" "elems (h ! r) = [Ref r]"
  shows "(flatten depth h (Ref r) False strict out :: ('s, jsval list) js)
    = throwM (RangeErr ''Maximum call stack size exceeded'')"
proof (induction depth arbitrary: out)
  case (Suc depth)
  have "get h (Ref r) LEN = nnum 1" "get h (Ref r) (to_key h (nnum 0)) = Ref r"
    using assms by (simp_all add: get_def lookup_prop_def LEN_def obj_at_def has_length_def Let_def)
  then have "arr_items h (Ref r) = Inr [Ref r]" by (simp add: arr_items_def items_def)
  with assms Suc show ?case by (simp add: us_type_defs obj_at_def)
qed simp



section \<open>Lemmas: duplicates\<close>

text \<open>
  \<open>member v xs\<close>: an element strictly equal to \<open>v\<close>. \<open>firsts f xs\<close>: the
  elements whose image under \<open>f\<close> no earlier element has (NaN equals nothing, so
  all NaN stay).
\<close>

definition member :: "jsval \<Rightarrow> jsval list \<Rightarrow> bool" where
  "member v xs \<longleftrightarrow> (\<exists>x\<in>set xs. strict_eq x v)"

definition firsts :: "(jsval \<Rightarrow> jsval) \<Rightarrow> jsval list \<Rightarrow> jsval list" where
  "firsts f xs = map (nth xs) (filter (\<lambda>i. \<forall>j<i. \<not> strict_eq (f (xs ! j)) (f (xs ! i))) [0..<length xs])"

lemma firsts_snoc:
  "firsts f (xs @ [v]) = firsts f xs @ (if \<exists>x\<in>set xs. strict_eq (f x) (f v) then [] else [v])"
proof -
  have "map (nth (xs @ [v])) (filter (\<lambda>i. \<forall>j<i. \<not> strict_eq (f ((xs @ [v]) ! j)) (f ((xs @ [v]) ! i)))
      [0..<length xs]) = firsts f xs"
    unfolding firsts_def by (intro map_cong filter_cong) (auto simp: nth_append)
  moreover have "(\<forall>j<length xs. \<not> strict_eq (f ((xs @ [v]) ! j)) (f v)) \<longleftrightarrow> \<not> (\<exists>x\<in>set xs. strict_eq (f x) (f v))"
    by (metis in_set_conv_nth nth_append)
  ultimately show ?thesis by (simp add: firsts_def)
qed

lemma firsts_Nil [simp]: "firsts f [] = []"
  by (simp add: firsts_def)

lemma firsts_member: "(\<exists>x\<in>set (firsts f xs). strict_eq (f x) w) \<longleftrightarrow> (\<exists>x\<in>set xs. strict_eq (f x) w)"
proof (induction xs rule: rev_induct)
  case (snoc v xs)
  then show ?case by (auto simp: firsts_snoc intro: strict_eq_trans)
qed simp

lemma length_firsts: "length (firsts f xs) \<le> length xs"
  using length_filter_le [of _ "[0..<length xs]"] by (simp add: firsts_def)

lemma set_firsts: "set (firsts f xs) \<subseteq> set xs"
  by (auto simp: firsts_def)

lemma firsts_distinct: "sorted_wrt (\<lambda>a b. \<not> strict_eq (f a) (f b)) (firsts f xs)"
proof (induction xs rule: rev_induct)
  case (snoc v xs)
  then show ?case using set_firsts by (fastforce simp: firsts_snoc sorted_wrt_append)
qed simp

lemma member_firsts [simp]: "member v (firsts (\<lambda>v. v) xs) = member v xs"
  using firsts_member [of "\<lambda>v. v"] by (simp add: member_def)

lemma indexed_snoc: "indexed (xs @ [x]) = indexed xs @ [(length xs, x)]"
  by (simp add: indexed_def)

lemma foldM_snoc: "foldM f b (xs @ [x]) = bindM (foldM f b xs) (\<lambda>b'. f b' x)"
  by (induction xs arbitrary: b) auto

lemma find_from_neg: "find_from xs v i < 0 \<longleftrightarrow> \<not> member v xs"
  using find_from_nonneg [of xs v i] by (auto simp: member_def)

lemma uniq_plain:
  "arr_ok xs \<Longrightarrow>
   (foldM (uniq_step h array False None) ([], []) (indexed xs) :: ('s, jsval list \<times> jsval list) js)
   = retM (firsts (\<lambda>v. v) xs, [])"
proof (induction xs rule: rev_induct)
  case (snoc x xs)
  have "arr_ok (firsts (\<lambda>v. v) xs)" using length_firsts [of "\<lambda>v. v" xs] snoc.prems by simp
  moreover have "member x (firsts (\<lambda>v. v) xs) \<longleftrightarrow> (\<exists>y\<in>set xs. strict_eq y x)"
    using firsts_member [of "\<lambda>v. v" xs x] by (simp add: member_def)
  ultimately show ?case using snoc
    by (simp add: indexed_snoc foldM_snoc indexOf_u_Arr find_from_neg firsts_snoc uniq_step_def)
qed simp

lemma uniq_by:
  fixes f :: "jsval \<Rightarrow> jsval"
  shows "arr_ok xs \<Longrightarrow>
   (foldM (uniq_step h array False (Some (\<lambda>this args. retM (f (arg args 0))))) ([], []) (indexed xs)
     :: ('s, jsval list \<times> jsval list) js)
   = retM (firsts f xs, map f (firsts f xs))"
proof (induction xs rule: rev_induct)
  case (snoc x xs)
  have "length (firsts f xs) < 4294967295" using length_firsts [of f xs] snoc.prems by simp
  moreover have "member (f x) (map f (firsts f xs)) \<longleftrightarrow> (\<exists>y\<in>set xs. strict_eq (f y) (f x))"
    using firsts_member by (auto simp: member_def)
  ultimately show ?case using snoc
    by (simp add: indexed_snoc foldM_snoc uniq_step_def indexOf_u_Arr find_from_neg firsts_snoc)
qed simp

text \<open>Equal elements are neighbours, as in a sorted array.\<close>

definition clustered :: "jsval list \<Rightarrow> bool" where
  "clustered xs \<longleftrightarrow> (\<forall>i j k. i \<le> j \<longrightarrow> j \<le> k \<longrightarrow> k < length xs \<longrightarrow> strict_eq (xs ! i) (xs ! k)
     \<longrightarrow> strict_eq (xs ! j) (xs ! k))"

lemma clustered_prefix: "clustered (xs @ [x]) \<Longrightarrow> clustered xs"
  unfolding clustered_def
proof (intro allI impI)
  fix i j k
  assume "\<forall>i j k. i \<le> j \<longrightarrow> j \<le> k \<longrightarrow> k < length (xs @ [x]) \<longrightarrow>
      strict_eq ((xs @ [x]) ! i) ((xs @ [x]) ! k) \<longrightarrow> strict_eq ((xs @ [x]) ! j) ((xs @ [x]) ! k)"
    and "i \<le> j" "j \<le> k" "k < length xs" "strict_eq (xs ! i) (xs ! k)"
  then show "strict_eq (xs ! j) (xs ! k)"
    by (elim allE [of _ i] allE [of _ j] allE [of _ k]) (simp add: nth_append)
qed

lemma clustered_last:
  assumes "clustered (xs @ [x])" "xs \<noteq> []"
  shows "strict_eq (last xs) x \<longleftrightarrow> (\<exists>y\<in>set xs. strict_eq y x)"
proof
  assume "\<exists>y\<in>set xs. strict_eq y x"
  then obtain i where i: "i < length xs" "strict_eq (xs ! i) x" by (metis in_set_conv_nth)
  with assms(1) have "strict_eq ((xs @ [x]) ! (length xs - 1)) ((xs @ [x]) ! length xs)"
    unfolding clustered_def by (elim allE [of _ i] allE [of _ "length xs - 1"] allE [of _ "length xs"])
      (simp add: nth_append)
  with assms(2) show "strict_eq (last xs) x" by (simp add: nth_append last_conv_nth)
qed (use assms(2) in auto)

lemma uniq_sorted:
  "clustered xs \<Longrightarrow>
   (foldM (uniq_step h array True it) ([], []) (indexed xs) :: ('s, jsval list \<times> jsval list) js)
   = retM (firsts (\<lambda>v. v) xs, if xs = [] then [] else [last xs])"
proof (induction xs rule: rev_induct)
  case (snoc x xs)
  then show ?case using clustered_prefix [OF snoc.prems] clustered_last [OF snoc.prems]
    by (auto simp: indexed_snoc foldM_snoc uniq_step_def firsts_snoc)
qed simp

lemma isBoolean_Undef [simp]: "\<not> isBoolean_u h Undef" "isBoolean_u h (Bool b)"
  by (auto simp: isBoolean_u_def toString_call_def)

lemma isBoolean_Fun: "cls (obj_at h r) = CFunction \<Longrightarrow> \<not> isBoolean_u h (Ref r)"
  by (simp add: isBoolean_u_def toString_call_def)

lemma uniq_u_plain:
  "arr_ok xs \<Longrightarrow> (uniq_u h code (Arr xs) Undef Undef Undef :: ('s, jsval list) js) = retM (firsts (\<lambda>v. v) xs)"
  by (simp add: uniq_u_def Let_def uniq_plain)

text \<open>
  \<open>_.uniq\<close> of an array keeps exactly the first occurrence of every value, in
  order; with a callback, the first element for every computed value; and its faster
  algorithm for sorted arrays returns the same list as the general one whenever equal
  elements are neighbours.
\<close>

theorem uniq_first_occurrences:
  fixes f :: "jsval \<Rightarrow> jsval" and code :: "nat \<Rightarrow> 's fn"
  assumes "arr_ok xs"
    and "cls (obj_at h r) = CFunction" "code r = (\<lambda>this args. retM (f (arg args 0)))"
  shows "uniq_u h code (Arr xs) Undef Undef Undef = retM (firsts (\<lambda>v. v) xs)
    \<and> uniq_u h code (Arr xs) (Ref r) Undef Undef = retM (firsts f xs)
    \<and> (clustered xs \<longrightarrow> uniq_u h code (Arr xs) (Bool True) Undef Undef
          = uniq_u h code (Arr xs) Undef Undef Undef)"
  using assms by (auto simp: uniq_u_def Let_def uniq_plain uniq_by uniq_sorted isBoolean_Fun to_callee_def)

theorem uniq_first_occurrences_witness:
  "uniq_u [plain_obj\<lparr>cls := CFunction\<rparr>] (\<lambda>_ this args. retM (arg args 0) :: (unit, jsval) js)
      (Arr [inum 1, inum 1, inum 2]) (Bool True) Undef Undef
   = uniq_u [plain_obj\<lparr>cls := CFunction\<rparr>] (\<lambda>_ this args. retM (arg args 0) :: (unit, jsval) js)
      (Arr [inum 1, inum 1, inum 2]) Undef Undef Undef"
proof -
  have "clustered [inum 1, inum 1, inum 2]"
    by (auto simp: clustered_def nth_Cons less_Suc_eq split: nat.split)
  then show ?thesis
    using uniq_first_occurrences [where r = 0 and h = "[plain_obj\<lparr>cls := CFunction\<rparr>]"
        and xs = "[inum 1, inum 1, inum 2]" and f = "\<lambda>v. v"
        and code = "\<lambda>_ this args. retM (arg args 0) :: (unit, jsval) js"]
    by (simp add: obj_at_def)
qed

section \<open>Lemmas: set operations\<close>

lemma every_isArray:
  assumes "arr_ok vs"
  shows "(every_u h (Arr vs) (Fn (isArray_fn h)) Undef :: ('s, bool) js) = retM (\<forall>v\<in>set vs. isArray_u h v)"
proof -
  have "set vs = set (map (elem h (Arr vs)) (map nnum [0..<length vs]))"
    by (simp only: map_elem_id [OF assms])
  then have "(\<forall>v\<in>set vs. isArray_u h v) \<longleftrightarrow> (\<forall>k\<in>set (map nnum [0..<length vs]). isArray_u h (elem h (Arr vs) k))"
    by auto
  then show ?thesis by (simp add: every_u_def isArray_fn_def js_loops Let_def)
qed

lemma concat_args_Arr:
  "(\<forall>xs\<in>set xss. arr_ok xs) \<Longrightarrow>
   (concat_args h out (map Arr xss) :: ('s, jsval list) js) = retM (out @ concat xss)"
  by (induction xss arbitrary: out) auto

lemma flatten_args:
  assumes "length xss < 4294967295" "\<forall>xs\<in>set xss. arr_ok xs"
  shows "(flatten 1 h (Arr (map Arr xss)) True True [] :: ('s, jsval list) js) = retM (concat xss)"
  using assms concat_args_Arr [of xss h "[]", where ?'s = 's] every_isArray [of "map Arr xss" h, where ?'s = 's]
  by (simp only: One_nat_def flatten.simps) (simp add: apply_args_def)

lemma intersection_fold:
  assumes "arr_ok xs" "\<forall>ys\<in>set yss. arr_ok ys"
  shows "(foldM (\<lambda>result item. bindM (contains_u h (Arr result) item) (\<lambda>seen.
      if seen then retM result
      else bindM (anyM (\<lambda>other. bindM (contains_u h other item) (\<lambda>c. retM (\<not> c))) (map Arr yss))
        (\<lambda>missing. retM (if missing then result else result @ [item])))) [] xs :: ('s, jsval list) js)
    = retM (firsts (\<lambda>v. v) (filter (\<lambda>x. \<forall>ys\<in>set yss. member x ys) xs))"
  using assms(1)
proof (induction xs rule: rev_induct)
  case (snoc x xs)
  let ?Q = "\<lambda>x. \<forall>ys\<in>set yss. member x ys"
  let ?r = "firsts (\<lambda>v. v) (filter ?Q xs)"
  have ok: "arr_ok ?r"
    using snoc.prems le_trans [OF length_firsts length_filter_le, of "\<lambda>v. v" ?Q xs]
    by (simp del: length_filter_le)
  have any: "(anyM (\<lambda>other. bindM (contains_u h other x) (\<lambda>c. retM (\<not> c))) (map Arr yss) :: ('s, bool) js)
      = retM (\<not> ?Q x)"
    using assms(2) by (induction yss) (auto simp: contains_u_Arr member_def intro: arg_cong [where f = retM])
  have Qx: "?Q x" if "member x (filter ?Q xs)"
    using that strict_eq_trans unfolding member_def by (simp, blast)
  have mem: "(\<exists>y\<in>set ?r. strict_eq y x) = member x (filter ?Q xs)"
    using member_firsts [of x "filter ?Q xs"] by (simp add: member_def)
  have fs: "firsts (\<lambda>v. v) (zs @ [x]) = firsts (\<lambda>v. v) zs @ (if member x zs then [] else [x])" for zs
    by (simp add: firsts_snoc member_def)
  have "arr_ok xs" using snoc.prems by simp
  from snoc.IH [OF this] show ?case
    using Qx by (auto simp: foldM_snoc contains_u_Arr [OF ok] any fs mem)
qed simp

lemma filter_u_Arr:
  assumes "arr_ok xs"
  shows "(filter_u h (Arr xs) (Fn (\<lambda>this args. retM (f (arg args 0)))) Undef :: ('s, jsval list) js)
    = retM (filter (\<lambda>x. truthy (f x)) xs)"
proof -
  let ?ks = "map nnum [0..<length xs]"
  have "map hd (filter (\<lambda>e. truthy (f (arg e 0))) (entries h (Arr xs) ?ks))
      = filter (\<lambda>x. truthy (f x)) (map (elem h (Arr xs)) ?ks)"
    by (simp add: entries_def filter_map comp_def)
  then show ?thesis
    using filter_u_pure [of "Arr xs" h ?ks "\<lambda>args. f (arg args 0)", where ?'s = 's]
    by (simp only: map_elem_id [OF assms] coll_keys_Arr nullish_simps not_False_eq_True simp_thms)
qed

text \<open>
  On arrays, \<open>_.union\<close>, \<open>_.intersection\<close> and \<open>_.difference\<close>
  hold exactly the values of the union, intersection and difference, where two values are
  the same when they are strictly equal; the first two have no two equal elements, and the
  third keeps the order and the duplicates of the first array.
\<close>

theorem set_operations:
  fixes code :: "nat \<Rightarrow> 's fn"
  assumes "length xss < 4294967294" "\<forall>ys\<in>set (xs # xss). arr_ok ys" "arr_ok (concat (xs # xss))"
  shows "\<exists>U I D. union_u h code (map Arr (xs # xss)) = retM U
    \<and> (intersection_u h (map Arr (xs # xss)) :: ('s, jsval list) js) = retM I
    \<and> (difference_u h (map Arr (xs # xss)) :: ('s, jsval list) js) = retM D
    \<and> (\<forall>v. (member v U \<longleftrightarrow> (\<exists>ys\<in>set (xs # xss). member v ys))
        \<and> (member v I \<longleftrightarrow> (\<forall>ys\<in>set (xs # xss). member v ys)))
    \<and> D = filter (\<lambda>v. \<forall>ys\<in>set xss. \<not> member v ys) xs
    \<and> sorted_wrt (\<lambda>a b. \<not> strict_eq a b) U \<and> sorted_wrt (\<lambda>a b. \<not> strict_eq a b) I"
proof -
  let ?I = "firsts (\<lambda>v. v) (filter (\<lambda>x. \<forall>ys\<in>set xss. member x ys) xs)"
  have U: "union_u h code (map Arr (xs # xss)) = retM (firsts (\<lambda>v. v) (concat (xs # xss)))"
    using assms flatten_args [of "xs # xss" h, where ?'s = 's] uniq_u_plain [OF assms(3)]
    by (simp only: union_u_def bindM_retM) simp
  have I: "(intersection_u h (map Arr (xs # xss)) :: ('s, jsval list) js) = retM ?I"
    using assms intersection_fold [of xs xss h] by (simp add: intersection_u_def cong: if_cong)
  have "(difference_u h (map Arr (xs # xss)) :: ('s, jsval list) js)
      = filter_u h (Arr xs) (Fn (\<lambda>this vs. retM (Bool (\<not> (\<exists>x\<in>set (concat xss). strict_eq x (arg vs 0)))))) Undef"
    using assms flatten_args [of xss h, where ?'s = 's] contains_u_Arr [of "concat xss", where ?'a = 's]
    by (simp add: difference_u_def del: flatten.simps One_nat_def)
  then have D: "(difference_u h (map Arr (xs # xss)) :: ('s, jsval list) js)
      = retM (filter (\<lambda>v. \<forall>ys\<in>set xss. \<not> member v ys) xs)"
    using assms filter_u_Arr [where f = "\<lambda>v. Bool (\<not> (\<exists>x\<in>set (concat xss). strict_eq x v))" and ?'s = 's]
    by (simp add: member_def)
  have "member v ?I \<longleftrightarrow> (\<forall>ys\<in>set (xs # xss). member v ys)" for v
    unfolding member_firsts using strict_eq_trans strict_eq_sym
    by (auto simp: member_def) (metis (no_types, lifting))+
  moreover have "member v (firsts (\<lambda>v. v) (concat (xs # xss))) \<longleftrightarrow> (\<exists>ys\<in>set (xs # xss). member v ys)" for v
    unfolding member_firsts by (auto simp: member_def)
  ultimately show ?thesis using U I D firsts_distinct [of "\<lambda>v. v"] by (intro exI conjI) auto
qed

theorem set_operations_witness:
  "\<exists>D. (difference_u [] (map Arr [[inum 1, inum 2, inum 3], [inum 2]]) :: (unit, jsval list) js) = retM D
     \<and> D = [inum 1, inum 3]"
  using set_operations [of "[[inum 2]]" "[inum 1, inum 2, inum 3]" "[]" "\<lambda>_ _ _. retM Undef :: (unit, jsval) js"]
  by (auto simp: member_def)

section \<open>Lemmas: objects from lists\<close>

lemma map_of_fold_put:
  "map_of (fold (\<lambda>(k, v). put k v) kvs acc) j
   = (case map_of (rev kvs) j of Some v \<Rightarrow> Some v | None \<Rightarrow> map_of acc j)"
  by (induction kvs arbitrary: acc) (auto simp: map_add_Some_iff map_add_def split: option.split)

lemma map_of_rev_distinct:
  assumes "distinct (map fst kvs)"
  shows "map_of (rev kvs) k = map_of kvs k"
proof -
  have "map_of (rev kvs) k = Some v \<longleftrightarrow> map_of kvs k = Some v" for v
    using assms by (simp add: rev_map [symmetric])
  then show ?thesis by (metis not_Some_eq)
qed

lemma map_of_fold_put_distinct:
  "distinct (map fst kvs) \<Longrightarrow> map_of (fold (\<lambda>(k, v). put k v) kvs []) j = map_of kvs j"
  by (simp add: map_of_fold_put map_of_rev_distinct split: option.split)

lemma foldM_fold:
  assumes "\<And>acc x. x \<in> set xs \<Longrightarrow> f acc x = retM (g x acc)"
  shows "foldM f acc xs = retM (fold g xs acc)"
  using assms by (induction xs arbitrary: acc) auto

lemma fold_indexed: "fold (\<lambda>(i, x). g x) (indexed xs) acc = fold g xs acc"
proof -
  have "fold (\<lambda>(i, x). g x) (indexed xs) acc = fold g (map snd (indexed xs)) acc"
    by (simp only: fold_map comp_def case_prod_unfold)
  then show ?thesis by simp
qed

lemma object_u_pairs:
  assumes "length kvs < 4294967295"
  shows "(object_u h (Arr (map (\<lambda>(k, v). Arr [k, v]) kvs)) Undef :: ('s, props) js)
    = retM (fold (\<lambda>(k, v). put k v) (map (\<lambda>(k, v). (to_key h k, v)) kvs) [])"
proof -
  let ?g = "\<lambda>x. put (to_key h (get h x (Idx 0))) (get h x (Idx 1))"
  have "foldM (\<lambda>result (i, x). if truthy Undef then retM (put (to_key h x) (elem h Undef (nnum i)) result)
        else bindM (getM h x (Idx 0)) (\<lambda>k. bindM (getM h x (Idx 1)) (\<lambda>v. retM (put (to_key h k) v result))))
      [] (indexed (map (\<lambda>(k, v). Arr [k, v]) kvs))
    = (retM (fold (\<lambda>(i, x). ?g x) (indexed (map (\<lambda>(k, v). Arr [k, v]) kvs)) []) :: ('s, props) js)"
    by (rule foldM_fold) (auto simp: set_indexed case_prod_unfold)
  also have "fold (\<lambda>(i, x). ?g x) (indexed (map (\<lambda>(k, v). Arr [k, v]) kvs)) []
      = fold (\<lambda>(k, v). put k v) (map (\<lambda>(k, v). (to_key h k, v)) kvs) []"
    unfolding fold_indexed by (simp add: fold_map comp_def case_prod_unfold)
  finally show ?thesis using assms by (simp add: object_u_def)
qed

lemma map_fst_pairs: "map fst (pairs_u h (PObj ps)) = order_keys (map fst ps)"
  by (simp add: pairs_u_def comp_def)

lemma map_of_pairs_u:
  assumes "distinct (map fst ps)"
  shows "map_of (pairs_u h (PObj ps)) j = map_of ps j"
proof (cases "map_of ps j")
  case None
  then have "j \<notin> set (map fst (pairs_u h (PObj ps)))"
    unfolding map_fst_pairs by (simp add: map_of_eq_None_iff)
  then have "map_of (pairs_u h (PObj ps)) j = None" by (simp add: map_of_eq_None_iff)
  with None show ?thesis by simp
next
  case (Some v)
  then have "(j, v) \<in> set (pairs_u h (PObj ps))"
    using map_of_SomeD [OF Some] by (force simp: pairs_u_def)
  moreover have "distinct (map fst (pairs_u h (PObj ps)))"
    unfolding map_fst_pairs using assms by simp
  ultimately show ?thesis using Some by simp
qed

lemma to_key_Str [simp]: "to_key h (Str s) = str_key s"
  by (simp add: to_key_def)

lemma key_str_str_key [simp]: "key_str (str_key s) = s"
proof (cases "canonical_numeral s \<and> read_nat s < 4294967295")
  case True
  then show ?thesis by (simp add: str_key_def show_read_nat)
qed (auto simp: str_key_def)

lemma object_u_parallel:
  assumes "arr_ok ks" "length vs = length ks"
  shows "(object_u h (Arr ks) (Arr vs) :: ('s, props) js)
    = retM (fold (\<lambda>(k, v). put k v) (map (\<lambda>(k, v). (to_key h k, v)) (zip ks vs)) [])"
proof -
  let ?f = "\<lambda>(i, x). (to_key h x, vs ! i)"
  have "foldM (\<lambda>result (i, x). if truthy (Arr vs) then retM (put (to_key h x) (elem h (Arr vs) (nnum i)) result)
        else bindM (getM h x (Idx 0)) (\<lambda>k. bindM (getM h x (Idx 1)) (\<lambda>v. retM (put (to_key h k) v result))))
      [] (indexed ks)
    = (retM (fold (\<lambda>e. case ?f e of (k, v) \<Rightarrow> put k v) (indexed ks) []) :: ('s, props) js)"
    using assms by (intro foldM_fold) (auto simp: set_indexed)
  also have "fold (\<lambda>e. case ?f e of (k, v) \<Rightarrow> put k v) (indexed ks) []
      = fold (\<lambda>(k, v). put k v) (map ?f (indexed ks)) []"
    by (simp add: fold_map comp_def case_prod_unfold)
  also have "map ?f (indexed ks) = map (\<lambda>(k, v). (to_key h k, v)) (zip ks vs)"
    using assms(2) by (intro nth_equalityI) (auto simp: indexed_def)
  finally show ?thesis using assms by (simp add: object_u_def)
qed

lemma set_pairs_u: "distinct (map fst ps) \<Longrightarrow> set (pairs_u h (PObj ps)) = set ps"
  using map_of_pairs_u [of ps h] map_fst_pairs [of h ps]
  by (subst map_of_inject_set [symmetric]) (auto simp: fun_eq_iff)

lemma distinct_fold_put: "distinct (map fst acc) \<Longrightarrow> distinct (map fst (fold (\<lambda>(k, v). put k v) kvs acc))"
  by (induction kvs arbitrary: acc) auto

lemma set_fold_put:
  assumes "distinct (map fst kvs)"
  shows "set (fold (\<lambda>(k, v). put k v) kvs []) = set kvs"
  using assms distinct_fold_put [of "[]" kvs] map_of_fold_put_distinct [OF assms]
  by (subst map_of_inject_set [symmetric]) (auto simp: fun_eq_iff)

text \<open>An object whose values are distinct strings.\<close>

definition invertible :: "props \<Rightarrow> bool" where
  "invertible ps \<longleftrightarrow> distinct (map fst ps) \<and> inj_on snd (set ps) \<and> (\<forall>kv\<in>set ps. \<exists>s. snd kv = Str s)"

lemma set_invert_u:
  assumes "invertible ps"
  shows "set (invert_u h (PObj ps)) = (\<lambda>(k, v). (to_key h v, Str (key_str k))) ` set ps"
    and "distinct (map fst (invert_u h (PObj ps)))"
proof -
  let ?L = "map (\<lambda>(k, v). (to_key h v, Str (key_str k))) (pairs_u h (PObj ps))"
  have d: "distinct (map fst ps)" and inj: "inj_on snd (set ps)"
    and str: "\<forall>kv\<in>set ps. \<exists>s. snd kv = Str s"
    using assms by (auto simp: invertible_def)
  have inv: "invert_u h (PObj ps) = fold (\<lambda>(k, v). put k v) ?L []"
    by (simp add: invert_u_def pairs_u_def fold_map comp_def)
  have "distinct (pairs_u h (PObj ps))"
    using d map_fst_pairs [of h ps] by (metis distinct_map distinct_order_keys)
  moreover have "inj_on (\<lambda>(k, v). to_key h v) (set ps)"
  proof (rule inj_onI)
    fix x y assume xy: "x \<in> set ps" "y \<in> set ps" "(\<lambda>(k, v). to_key h v) x = (\<lambda>(k, v). to_key h v) y"
    with str obtain s t where "snd x = Str s" "snd y = Str t" by blast
    with xy(3) have "str_key s = str_key t" by (cases x, cases y) simp
    then have "snd x = snd y" using \<open>snd x = Str s\<close> \<open>snd y = Str t\<close> key_str_str_key by metis
    with inj xy show "x = y" by (simp add: inj_onD)
  qed
  ultimately have dL: "distinct (map fst ?L)"
    using set_pairs_u [OF d, of h] by (simp add: distinct_map comp_def case_prod_unfold)
  show "set (invert_u h (PObj ps)) = (\<lambda>(k, v). (to_key h v, Str (key_str k))) ` set ps"
    unfolding inv set_fold_put [OF dL] using set_pairs_u [OF d, of h] by simp
  show "distinct (map fst (invert_u h (PObj ps)))"
    unfolding inv by (rule distinct_fold_put) simp
qed

lemma invert_invert:
  assumes "invertible ps" "\<forall>k\<in>fst ` set ps. key_ok k"
  shows "map_of (invert_u h (PObj (invert_u h (PObj ps)))) = map_of ps"
proof -
  let ?f = "\<lambda>(k, v). (to_key h v, Str (key_str k))"
  let ?R = "invert_u h (PObj ps)"
  have d: "distinct (map fst ps)" and str: "\<forall>kv\<in>set ps. \<exists>s. snd kv = Str s"
    using assms(1) by (auto simp: invertible_def)
  have "inj_on snd (set ?R)"
  proof (rule inj_onI)
    fix x y assume "x \<in> set ?R" "y \<in> set ?R" "snd x = snd y"
    then obtain a b where ab: "a \<in> set ps" "b \<in> set ps" "x = ?f a" "y = ?f b" "key_str (fst a) = key_str (fst b)"
      unfolding set_invert_u(1) [OF assms(1)] by auto
    with assms(2) have "fst a = fst b" by (simp add: key_str_inj)
    with d ab(1,2) have "a = b" by (metis distinct_map inj_onD)
    with ab show "x = y" by simp
  qed
  then have R: "invertible ?R"
    using set_invert_u [OF assms(1), of h] by (auto simp: invertible_def)
  have "?f (?f kv) = kv" if "kv \<in> set ps" for kv
  proof -
    obtain k v where kv: "kv = (k, v)" by (cases kv)
    with that str obtain s where "v = Str s" by auto
    moreover have "str_key (key_str k) = k" using that kv assms(2) by (force simp: key_ok_def)
    ultimately show ?thesis by (simp add: kv)
  qed
  then have "?f ` (?f ` set ps) = set ps" by (force simp: image_image)
  then have "set (invert_u h (PObj ?R)) = set ps"
    unfolding set_invert_u(1) [OF R] set_invert_u(1) [OF assms(1)] .
  then show ?thesis using map_of_inject_set [OF set_invert_u(2) [OF R] d] by simp
qed

text \<open>
  \<open>_.object\<close> inverts \<open>_.pairs\<close>: the object made from the
  \<open>[key, value]\<close> pairs of an object has the same value for every key, and so has the
  object made from the parallel lists \<open>_.keys\<close> and \<open>_.values\<close>. Where the
  values are distinct strings, \<open>_.invert\<close> is its own inverse.
\<close>

theorem object_pairs_roundtrip:
  assumes "distinct (map fst ps)" "\<forall>k\<in>fst ` set ps. key_ok k" "length ps < 4294967295"
  shows "(\<exists>R. (object_u h (Arr (map (\<lambda>(k, v). Arr [Str (key_str k), v]) (pairs_u h (PObj ps)))) Undef
        :: ('s, props) js) = retM R \<and> map_of R = map_of ps)
    \<and> (\<exists>R. (object_u h (Arr (map (\<lambda>k. Str (key_str k)) (keys_u h (PObj ps))))
          (Arr (values_u h (PObj ps))) :: ('s, props) js) = retM R \<and> map_of R = map_of ps)
    \<and> (invertible ps \<longrightarrow> map_of (invert_u h (PObj (invert_u h (PObj ps)))) = map_of ps)"
proof -
  let ?P = "pairs_u h (PObj ps)"
  let ?s = "\<lambda>(k, v). (Str (key_str k), v)"
  have len: "length ?P < 4294967295"
    using assms(1,3) map_fst_pairs [of h ps] by (metis length_map mset_order_keys size_mset)
  have "map (\<lambda>(k, v). (to_key h k, v)) (map ?s ?P) = map (\<lambda>x. x) ?P"
    unfolding map_map
  proof (rule map_cong [OF refl])
    fix x assume "x \<in> set ?P"
    then have "fst x \<in> fst ` set ps" using set_pairs_u [OF assms(1), of h] by simp
    with assms(2) show "((\<lambda>(k, v). (to_key h k, v)) \<circ> ?s) x = x"
      by (cases x) (auto simp: key_ok_def)
  qed
  then have conv: "map (\<lambda>(k, v). (to_key h k, v)) (map ?s ?P) = ?P" by simp
  have dP: "distinct (map fst ?P)" using assms(1) map_fst_pairs [of h ps] by simp
  have R: "map_of (fold (\<lambda>(k, v). put k v) ?P []) = map_of ps"
    using map_of_fold_put_distinct [OF dP] map_of_pairs_u [OF assms(1)] by (auto simp: fun_eq_iff)
  have one: "(object_u h (Arr (map (\<lambda>(k, v). Arr [Str (key_str k), v]) ?P)) Undef :: ('s, props) js)
      = retM (fold (\<lambda>(k, v). put k v) ?P [])"
    using object_u_pairs [of "map ?s ?P" h, where ?'s = 's] len unfolding conv
    by (simp add: comp_def case_prod_unfold)
  have "zip (map (\<lambda>k. Str (key_str k)) (keys_u h (PObj ps))) (values_u h (PObj ps)) = map ?s ?P"
    by (simp add: values_u_def pairs_u_def zip_map_map zip_same_conv_map)
  moreover have "arr_ok (map (\<lambda>k. Str (key_str k)) (keys_u h (PObj ps)))"
    "length (values_u h (PObj ps)) = length (map (\<lambda>k. Str (key_str k)) (keys_u h (PObj ps)))"
    using len by (simp_all add: values_u_def pairs_u_def)
  ultimately have "(object_u h (Arr (map (\<lambda>k. Str (key_str k)) (keys_u h (PObj ps))))
      (Arr (values_u h (PObj ps))) :: ('s, props) js) = retM (fold (\<lambda>(k, v). put k v) ?P [])"
    by (simp only: object_u_parallel conv)
  with one show ?thesis using R invert_invert [of ps h] assms(2) by blast
qed

theorem object_pairs_roundtrip_witness:
  "map_of (invert_u [] (PObj (invert_u [] (PObj [(Name ''a'', Str ''x''), (Name ''b'', Str ''y'')]))))
   = map_of [(Name ''a'', Str ''x''), (Name ''b'', Str ''y'')]"
  using object_pairs_roundtrip [of "[(Name ''a'', Str ''x''), (Name ''b'', Str ''y'')]" "[]", where ?'s = unit]
  by (simp add: invertible_def key_ok_def str_key_def canonical_numeral_def is_digit_def)

section \<open>Lemmas: ranges\<close>

lemma num_add_Fin [simp]: "num_add (Fin a) (Fin b) = Fin (a + b)"
  by (simp add: num_add_def num_sub_def)

lemma range_loop_Fin: "range_loop n (Fin a) (Fin s) = map (\<lambda>i. Fin (a + int i * s)) [0..<n]"
proof (induction n arbitrary: a)
  case (Suc n)
  have "map (\<lambda>i. Fin (a + int i * s)) [0..<Suc n] = Fin a # map (\<lambda>i. Fin (a + s + int i * s)) [0..<n]"
    by (simp add: upt_conv_Cons map_Suc_upt [symmetric] algebra_simps del: upt_Suc map_Suc_upt)
  with Suc show ?case by simp
qed simp

definition range_size :: "int \<Rightarrow> int \<Rightarrow> int \<Rightarrow> int" where
  "range_size a b s = max 0 (- (- (b - a) div s))"

lemma range_u_ints:
  assumes "s \<noteq> 0"
  shows "range_u [Fin a, Fin b, Fin s] = (if range_size a b s < 4294967296
      then Inr (map (\<lambda>i. Fin (a + int i * s)) [0..<nat (range_size a b s)])
      else Inl (RangeErr ''Invalid array length''))"
proof -
  have len: "num_max (ceil_div (num_sub (Fin b) (Fin a)) (Fin s)) (Fin 0) = Fin (range_size a b s)"
    using assms by (simp add: ceil_div_def range_size_def max.commute)
  have "range_u [Fin a, Fin b, Fin s] = (case array_length (Fin (range_size a b s)) of
      Inl e \<Rightarrow> Inl e | Inr n \<Rightarrow> Inr (range_loop n (Fin a) (Fin s)))"
    using assms unfolding len [symmetric] by (simp add: range_u_def num_arg_def Let_def)
  moreover have "0 \<le> range_size a b s" by (simp add: range_size_def)
  ultimately show ?thesis by (simp add: array_length_def range_loop_Fin)
qed

lemma range_size_bounds:
  assumes "0 \<le> i" "i < range_size a b s"
  shows "(0 < s \<longrightarrow> a + i * s < b) \<and> (s < 0 \<longrightarrow> b < a + i * s)"
proof -
  have i: "i < - ((a - b) div s)" using assms by (simp add: range_size_def)
  then have lt: "(a - b) div s + i < 0" by simp
  have eq: "(a - b + i * s) div s = (a - b) div s + i" if "s \<noteq> 0" using that by simp
  have "a - b + i * s < 0" if "0 < s"
    using lt eq that by (metis pos_imp_zdiv_neg_iff less_irrefl)
  moreover have "0 < a - b + i * s" if "s < 0"
    using lt eq that by (metis neg_imp_zdiv_neg_iff less_irrefl)
  ultimately show ?thesis by auto
qed

lemma range_size_end:
  assumes "s \<noteq> 0"
  shows "(0 < s \<longrightarrow> b \<le> a + range_size a b s * s) \<and> (s < 0 \<longrightarrow> a + range_size a b s * s \<le> b)"
proof -
  have ge: "0 \<le> (a - b) div s + range_size a b s" by (simp add: range_size_def)
  have eq: "(a - b + range_size a b s * s) div s = (a - b) div s + range_size a b s" using assms by simp
  have "0 \<le> a - b + range_size a b s * s" if "0 < s"
    using ge eq that by (metis pos_imp_zdiv_nonneg_iff)
  moreover have "a - b + range_size a b s * s \<le> 0" if "s < 0"
    using ge eq that by (metis neg_imp_zdiv_nonneg_iff)
  ultimately show ?thesis by auto
qed

text \<open>
  \<open>_.range(start, stop, step)\<close> is the arithmetic progression from
  \<open>start\<close> by \<open>step\<close>, upwards or downwards: it contains no element at or
  beyond \<open>stop\<close>, the next one would be there, and the call throws a RangeError
  exactly when the array would have \<open>2^32\<close> elements or more.
\<close>

theorem range_progression:
  assumes "s \<noteq> 0"
  shows "\<exists>n. (range_u [Fin a, Fin b, Fin s] = (if n < 2 ^ 32
        then Inr (map (\<lambda>i. Fin (a + int i * s)) [0..<n]) else Inl (RangeErr ''Invalid array length'')))
    \<and> (\<forall>i<n. (0 < s \<longrightarrow> a + int i * s < b) \<and> (s < 0 \<longrightarrow> b < a + int i * s))
    \<and> (0 < s \<longrightarrow> b \<le> a + int n * s) \<and> (s < 0 \<longrightarrow> a + int n * s \<le> b)"
proof -
  have nn: "int (nat (range_size a b s)) = range_size a b s" by (simp add: range_size_def)
  then have "nat (range_size a b s) < 2 ^ 32 \<longleftrightarrow> range_size a b s < 4294967296" by auto
  then show ?thesis
    using range_u_ints [OF assms, of a b] range_size_end [OF assms, of b a] range_size_bounds [of _ a b s] nn
    by (intro exI [of _ "nat (range_size a b s)"]) auto
qed

theorem range_progression_witness:
  "\<exists>n. (range_u [Fin 10, Fin 0, Fin (-3)] = (if n < 2 ^ 32
        then Inr (map (\<lambda>i. Fin (10 + int i * -3)) [0..<n]) else Inl (RangeErr ''Invalid array length'')))
     \<and> 10 + int n * -3 \<le> 0"
  using range_progression [of "-3" 10 0] by auto

end
