(* ===== verification/Underscore_Functions.thy ===== *)
theory Underscore_Functions
  imports Underscore_Arrays
begin

text \<open>
  The function functions of underscore.js. A function that returns a closure is modelled by
  the closure's captured variables (a value or a record) and by what one call of the closure
  does to them; the wrapped function runs on the same state, so it may call the closure again.
  \<open>throttle\<close> and \<open>debounce\<close> run against a clock and a list of pending timers;
  their executions are step relations, and the properties about time are invariants of them.
\<close>

section \<open>Binding\<close>

text \<open>A call of a closure: as a function with its \<open>this\<close>, or with \<open>new\<close> on a fresh object.\<close>

datatype call_mode = Call jsval | New jsval

text \<open>
  The function \<open>bound\<close>; with \<open>new\<close>, the function's result counts when it is an
  object. The native \<open>Function.prototype.bind\<close> the code prefers behaves the same way.
\<close>

definition bound_call ::
  "heap \<Rightarrow> 's fn \<Rightarrow> jsval \<Rightarrow> jsval list \<Rightarrow> call_mode \<Rightarrow> jsval list \<Rightarrow> ('s, jsval) js" where
  "bound_call h func context args mode actual = (case mode of
      Call this \<Rightarrow> func context (args @ actual)
    | New self \<Rightarrow> bindM (func self (args @ actual)) (\<lambda>result.
        retM (if isObject_u h result then result else self)))"

definition bind_u ::
  "heap \<Rightarrow> 's callee \<Rightarrow> jsval \<Rightarrow> jsval list \<Rightarrow> jsexn + (call_mode \<Rightarrow> jsval list \<Rightarrow> ('s, jsval) js)" where
  "bind_u h func context args = (case func of
      Fn f \<Rightarrow> Inr (bound_call h f context args)
    | Val v \<Rightarrow> Inl (TypeErr ''Bind must be called on a function''))"

text \<open>\<open>partial\<close>: \<open>us\<close> is the underscore object, the placeholder.\<close>

definition partial_step :: "jsval \<Rightarrow> jsval list \<Rightarrow> jsval list \<times> nat \<Rightarrow> jsval \<Rightarrow> jsval list \<times> nat" where
  "partial_step us actual = (\<lambda>(args, position) b.
     if strict_eq b us then (args @ [arg actual position], Suc position)
     else (args @ [b], position))"

definition partial_args :: "jsval \<Rightarrow> jsval list \<Rightarrow> jsval list \<Rightarrow> jsval list" where
  "partial_args us boundArgs actual =
     (let (args, position) = foldl (partial_step us actual) ([], 0) boundArgs in
      args @ drop position actual)"

definition partial_u :: "jsval \<Rightarrow> 's fn \<Rightarrow> jsval list \<Rightarrow> 's fn" where
  "partial_u us func boundArgs this actual = func this (partial_args us boundArgs actual)"

definition wrap_u :: "jsval \<Rightarrow> jsval \<Rightarrow> 's fn \<Rightarrow> 's fn" where
  "wrap_u us func wrapper = partial_u us wrapper [func]"

text \<open>
  \<open>bindAll\<close> on the methods of an object; when a name is not a method it throws and the
  methods before it stay bound.
\<close>

fun bindAll_loop ::
  "heap \<Rightarrow> jsval \<Rightarrow> key list \<Rightarrow> (key \<Rightarrow> 's callee) \<Rightarrow> (jsexn + unit) \<times> (key \<Rightarrow> 's callee)" where
  "bindAll_loop h obj [] methods = (Inr (), methods)"
| "bindAll_loop h obj (k # ks) methods = (case bind_u h (methods k) obj [] of
      Inl e \<Rightarrow> (Inl e, methods)
    | Inr f \<Rightarrow> bindAll_loop h obj ks (methods(k := Fn (\<lambda>this args. f (Call this) args))))"

definition bindAll_u ::
  "heap \<Rightarrow> jsval \<Rightarrow> key list \<Rightarrow> (key \<Rightarrow> 's callee) \<Rightarrow> (jsexn + unit) \<times> (key \<Rightarrow> 's callee)" where
  "bindAll_u h obj names methods =
     (if names = [] then (Inl (Thrown (Str ''bindAll must be passed function names'')), methods)
      else bindAll_loop h obj names methods)"

section \<open>Memoizing\<close>

text \<open>The captured variable is \<open>memoize.cache\<close>.\<close>

definition memoize_call ::
  "heap \<Rightarrow> (props \<times> 's) fn \<Rightarrow> (props \<times> 's) fn option \<Rightarrow> (props \<times> 's) fn" where
  "memoize_call h func hasher this args =
     bindM (case hasher of Some hash \<Rightarrow> hash this args | None \<Rightarrow> retM (arg args 0)) (\<lambda>address.
     let k = to_key h address in
     bindM getC (\<lambda>cache.
     bindM (if \<not> has_u h (PObj cache) k
            then bindM (func this args) (\<lambda>r. setC (\<lambda>cache. put k r cache)) else retM ()) (\<lambda>_.
     bindM getC (\<lambda>cache. retM (get h (PObj cache) k)))))"

section \<open>Timers\<close>

text \<open>
  The clock, the next timer identifier and the pending timers with the earliest time at
  which each may fire and what it will run.
\<close>

record 'j tenv =
  now :: int
  next_id :: nat
  timers :: "(nat \<times> int \<times> 'j) list"

definition setTimeout :: "'j \<Rightarrow> int \<Rightarrow> 'j tenv \<Rightarrow> nat \<times> 'j tenv" where
  "setTimeout job delay env = (next_id env,
     env\<lparr>next_id := Suc (next_id env), timers := timers env @ [(next_id env, now env + max 0 delay, job)]\<rparr>)"

definition clearTimeout :: "nat option \<Rightarrow> 'j tenv \<Rightarrow> 'j tenv" where
  "clearTimeout t env = (case t of None \<Rightarrow> env
     | Some i \<Rightarrow> env\<lparr>timers := filter (\<lambda>(j, _). j \<noteq> i) (timers env)\<rparr>)"

text \<open>\<open>delay\<close> and \<open>defer\<close> put a call of a function with arguments among the timers.\<close>

definition delay_u :: "'f \<Rightarrow> int \<Rightarrow> jsval list \<Rightarrow> ('f \<times> jsval list) tenv \<Rightarrow> nat \<times> ('f \<times> jsval list) tenv" where
  "delay_u func wait args = setTimeout (func, args) wait"

definition defer_u :: "'f \<Rightarrow> jsval list \<Rightarrow> ('f \<times> jsval list) tenv \<Rightarrow> nat \<times> ('f \<times> jsval list) tenv" where
  "defer_u func args = delay_u func 1 args"

section \<open>Throttling\<close>

record throttle =
  th_context :: jsval
  th_args :: "jsval list option"
  th_result :: jsval
  th_timeout :: "nat option"
  th_previous :: int

record throttle_opts =
  no_leading :: bool
  no_trailing :: bool

definition throttle_init :: throttle where
  "throttle_init = \<lparr>th_context = Undef, th_args = None, th_result = Undef, th_timeout = None,
     th_previous = 0\<rparr>"

type_synonym 's throttle_m = "(throttle \<times> unit tenv) \<times> 's"

text \<open>\<open>result = func.apply(context, args); if (!timeout) context = args = null;\<close>\<close>

definition throttle_apply :: "'s throttle_m fn \<Rightarrow> ('s throttle_m, unit) js" where
  "throttle_apply func = bindM getC (\<lambda>(st, env).
     bindM (func (th_context st) (case th_args st of None \<Rightarrow> [] | Some as \<Rightarrow> as)) (\<lambda>r.
     setC (\<lambda>(st, env). (let st1 = st\<lparr>th_result := r\<rparr> in
       (if th_timeout st1 = None then st1\<lparr>th_context := Null, th_args := None\<rparr> else st1, env)))))"

definition throttle_later :: "'s throttle_m fn \<Rightarrow> throttle_opts \<Rightarrow> ('s throttle_m, unit) js" where
  "throttle_later func opts =
     bindM (setC (\<lambda>(st, env). (st\<lparr>th_previous := (if no_leading opts then 0 else now env),
                                   th_timeout := None\<rparr>, env))) (\<lambda>_.
     throttle_apply func)"

definition throttle_call :: "'s throttle_m fn \<Rightarrow> int \<Rightarrow> throttle_opts \<Rightarrow> 's throttle_m fn" where
  "throttle_call func wait opts this args =
     bindM (setC (\<lambda>(st, env). (if th_previous st = 0 \<and> no_leading opts
        then st\<lparr>th_previous := now env\<rparr> else st, env))) (\<lambda>_.
     bindM (setC (\<lambda>(st, env). (st\<lparr>th_context := this, th_args := Some args\<rparr>, env))) (\<lambda>_.
     bindM getC (\<lambda>(st, env).
     let remaining = wait - (now env - th_previous st) in
     bindM (if remaining \<le> 0 \<or> remaining > wait then
         bindM (setC (\<lambda>(st, env). (st\<lparr>th_timeout := None, th_previous := now env\<rparr>,
                                       clearTimeout (th_timeout st) env))) (\<lambda>_.
         throttle_apply func)
       else if th_timeout st = None \<and> \<not> no_trailing opts then
         setC (\<lambda>(st, env). (let (i, env1) = setTimeout () remaining env in
           (st\<lparr>th_timeout := Some i\<rparr>, env1)))
       else retM ()) (\<lambda>_.
     bindM getC (\<lambda>(st, env). retM (th_result st))))))"

section \<open>Debouncing\<close>

record debounce =
  db_timeout :: "nat option"
  db_args :: "jsval list option"
  db_context :: jsval
  db_timestamp :: int
  db_result :: jsval

definition debounce_init :: debounce where
  "debounce_init = \<lparr>db_timeout = None, db_args = None, db_context = Undef, db_timestamp = 0,
     db_result = Undef\<rparr>"

type_synonym 's debounce_m = "(debounce \<times> unit tenv) \<times> 's"

definition debounce_apply :: "'s debounce_m fn \<Rightarrow> ('s debounce_m, unit) js" where
  "debounce_apply func = bindM getC (\<lambda>(st, env).
     bindM (func (db_context st) (case db_args st of None \<Rightarrow> [] | Some as \<Rightarrow> as)) (\<lambda>r.
     setC (\<lambda>(st, env). (st\<lparr>db_result := r\<rparr>, env))))"

definition debounce_forget :: "debounce \<Rightarrow> debounce" where
  "debounce_forget st = st\<lparr>db_context := Null, db_args := None\<rparr>"

definition debounce_later :: "'s debounce_m fn \<Rightarrow> int \<Rightarrow> bool \<Rightarrow> ('s debounce_m, unit) js" where
  "debounce_later func wait immediate =
     bindM getC (\<lambda>(st, env).
     let last = now env - db_timestamp st in
     if last < wait \<and> last > 0 then
       setC (\<lambda>(st, env). (let (i, env1) = setTimeout () (wait - last) env in
         (st\<lparr>db_timeout := Some i\<rparr>, env1)))
     else bindM (setC (\<lambda>(st, env). (st\<lparr>db_timeout := None\<rparr>, env))) (\<lambda>_.
       if \<not> immediate then
         bindM (debounce_apply func) (\<lambda>_.
         setC (\<lambda>(st, env). (if db_timeout st = None then debounce_forget st else st, env)))
       else retM ()))"

definition debounce_call :: "'s debounce_m fn \<Rightarrow> int \<Rightarrow> bool \<Rightarrow> 's debounce_m fn" where
  "debounce_call func wait immediate this args =
     bindM (setC (\<lambda>(st, env). (st\<lparr>db_context := this, db_args := Some args, db_timestamp := now env\<rparr>, env))) (\<lambda>_.
     bindM getC (\<lambda>(st, env).
     let callNow = (immediate \<and> db_timeout st = None) in
     bindM (if db_timeout st = None then
         setC (\<lambda>(st, env). (let (i, env1) = setTimeout () wait env in
           (st\<lparr>db_timeout := Some i\<rparr>, env1)))
       else retM ()) (\<lambda>_.
     bindM (if callNow then
         bindM (debounce_apply func) (\<lambda>_. setC (\<lambda>(st, env). (debounce_forget st, env)))
       else retM ()) (\<lambda>_.
     bindM getC (\<lambda>(st, env). retM (db_result st))))))"

section \<open>Composition and counting\<close>

definition compose_u :: "'s fn list \<Rightarrow> 's fn" where
  "compose_u fns this args =
     (if fns = [] then throwM (TypeErr ''Cannot read property 'apply' of undefined'')
      else bindM (last fns this args) (\<lambda>result.
        foldM (\<lambda>result f. f this [result]) result (rev (butlast fns))))"

text \<open>The captured variable of \<open>after\<close> is \<open>times\<close>; those of \<open>before\<close> are
  \<open>times\<close>, \<open>memo\<close> and whether \<open>func\<close> is still set.\<close>

definition after_call :: "(int \<times> 's) fn \<Rightarrow> (int \<times> 's) fn" where
  "after_call func this args =
     bindM (setC (\<lambda>times. times - 1)) (\<lambda>_.
     bindM getC (\<lambda>times. if times < 1 then func this args else retM Undef))"

type_synonym before_vars = "int \<times> jsval \<times> bool"

definition before_init :: "int \<Rightarrow> before_vars" where
  "before_init n = (n, Undef, True)"

definition before_call :: "(before_vars \<times> 's) fn \<Rightarrow> (before_vars \<times> 's) fn" where
  "before_call func this args =
     bindM (setC (\<lambda>(times, memo, alive). (times - 1, memo, alive))) (\<lambda>_.
     bindM getC (\<lambda>(times, memo, alive).
     bindM (if times > 0 then
         (if alive then bindM (func this args) (\<lambda>r. setC (\<lambda>(times, memo, alive). (times, r, alive)))
          else throwM (TypeErr ''Cannot read property 'apply' of null''))
       else setC (\<lambda>(times, memo, alive). (times, memo, False))) (\<lambda>_.
     bindM getC (\<lambda>(times, memo, alive). retM memo))))"

definition once_init :: before_vars where
  "once_init = before_init 2"

section \<open>Placeholders\<close>

fun fill :: "jsval \<Rightarrow> jsval list \<Rightarrow> jsval list \<Rightarrow> jsval list" where
  "fill us [] actual = actual"
| "fill us (b # bs) actual = (if strict_eq b us then arg actual 0 # fill us bs (tl actual) else b # fill us bs actual)"

lemma arg_drop: "arg actual p = arg (drop p actual) 0"
  by (simp add: arg_def)

lemma partial_fold_fill:
  "(case foldl (partial_step us actual) (args, p) bs of (args', q) \<Rightarrow> args' @ drop q actual)
   = args @ fill us bs (drop p actual)"
proof (induction bs arbitrary: args p)
  case (Cons b bs)
  show ?case
    using Cons.IH [of "args @ [arg actual p]" "Suc p"] Cons.IH [of "args @ [b]" p]
    by (simp add: partial_step_def arg_drop [of actual p] drop_Suc tl_drop)
qed simp

lemma partial_args_fill: "partial_args us bs actual = fill us bs actual"
  using partial_fold_fill [where args = "[]" and p = 0] by (simp add: partial_args_def)

text \<open>The positions of the placeholders among the bound arguments.\<close>

definition holes :: "jsval \<Rightarrow> jsval list \<Rightarrow> nat list" where
  "holes us bs = filter (\<lambda>i. strict_eq (bs ! i) us) [0..<length bs]"

lemma holes_Cons: "holes us (b # bs) = (if strict_eq b us then [0] else []) @ map Suc (holes us bs)"
  by (simp add: holes_def upt_conv_Cons map_Suc_upt [symmetric] filter_map comp_def del: upt_Suc map_Suc_upt)

lemma fill_split:
  "length bs \<le> length (fill us bs actual)
   \<and> (\<forall>i<length bs. \<not> strict_eq (bs ! i) us \<longrightarrow> fill us bs actual ! i = bs ! i)
   \<and> map (nth (fill us bs actual)) (holes us bs) @ drop (length bs) (fill us bs actual)
     = actual @ replicate (length (holes us bs) - length actual) Undef"
proof (induction bs arbitrary: actual)
  case Nil
  then show ?case by (simp add: holes_def)
next
  case (Cons b bs)
  show ?case
  proof (cases "strict_eq b us")
    case False
    with Cons.IH [of actual] show ?thesis by (auto simp: holes_Cons nth_Cons comp_def split: nat.split)
  next
    case True
    show ?thesis
    proof (cases actual)
      case Nil
      with True Cons.IH [of "[]"] show ?thesis by (auto simp: holes_Cons nth_Cons comp_def split: nat.split)
    next
      case (Cons a as)
      with True Cons.IH [of as] show ?thesis by (auto simp: holes_Cons nth_Cons comp_def split: nat.split)
    qed
  qed
qed

text \<open>
  A partially applied function receives its bound arguments unchanged except at the
  placeholders; the call's arguments, in order, fill the placeholders from left to right
  and what remains of them comes after the bound arguments. No argument of the call is
  lost or repeated, and placeholders without an argument receive undefined.
\<close>

theorem partial_placeholders:
  "\<exists>args. partial_u us func boundArgs this actual = func this args
    \<and> length boundArgs \<le> length args
    \<and> (\<forall>i<length boundArgs. \<not> strict_eq (boundArgs ! i) us \<longrightarrow> args ! i = boundArgs ! i)
    \<and> map (nth args) (holes us boundArgs) @ drop (length boundArgs) args
      = actual @ replicate (length (holes us boundArgs) - length actual) Undef"
  using fill_split [of boundArgs us actual]
  by (intro exI [of _ "fill us boundArgs actual"]) (simp add: partial_u_def partial_args_fill)

theorem partial_placeholders_witness:
  "\<exists>args. partial_u (Ref 6) (\<lambda>this args. retM (Arr args) :: (unit, jsval) js) [Ref 6, inum 2] Undef [inum 1, inum 3]
      = retM (Arr args)
    \<and> map (nth args) (holes (Ref 6) [Ref 6, inum 2]) @ drop 2 args = [inum 1, inum 3]"
  using partial_placeholders [of "Ref 6" "\<lambda>this args. retM (Arr args) :: (unit, jsval) js" "[Ref 6, inum 2]" Undef
      "[inum 1, inum 3]"]
  by (auto simp: holes_def upt_conv_Cons numeral_2_eq_2)

section \<open>Memoizing\<close>

text \<open>
  A function that appends its arguments to the outer state, a log, and returns \<open>f\<close> of
  them; and a series of calls of the memoized function.
\<close>

definition logged :: "(jsval list \<Rightarrow> jsval) \<Rightarrow> ('c \<times> jsval list list) fn" where
  "logged f this args = bindM (outerM (modS (\<lambda>calls. calls @ [args]))) (\<lambda>_. retM (f args))"

lemma logged_app [js_simps]: "logged f this args (c, calls) = (Inr (f args), (c, calls @ [args]))"
  by (simp add: logged_def js_simps outerM_def modS_def)

lemma setC_app [js_simps]: "setC f (c, s) = (Inr (), (f c, s))"
  by (simp add: setC_def)

lemma getC_app [js_simps]: "getC (c, s) = (Inr c, (c, s))"
  by (simp add: getC_def)

lemma memoize_call_step:
  "memoize_call h (logged f) None this args (cache, calls) =
   (let k = to_key h (arg args 0) in case map_of cache k of
      Some v \<Rightarrow> (Inr v, (cache, calls))
    | None \<Rightarrow> (Inr (f args), (put k (f args) cache, calls @ [args])))"
  by (simp add: memoize_call_def js_simps Let_def split: option.split)

definition memo_key :: "heap \<Rightarrow> jsval list \<Rightarrow> key" where
  "memo_key h args = to_key h (arg args 0)"

text \<open>The cache holds, for every argument list that was passed on, its result under its key.\<close>

definition memo_inv :: "heap \<Rightarrow> (jsval list \<Rightarrow> jsval) \<Rightarrow> props \<Rightarrow> jsval list list \<Rightarrow> bool" where
  "memo_inv h f cache calls \<longleftrightarrow> distinct (map (memo_key h) calls)
     \<and> map_of cache = map_of (map (\<lambda>args. (memo_key h args, f args)) calls)"

lemma memo_inv_step:
  assumes "memo_inv h f cache calls"
    and "memoize_call h (logged f) None this args (cache, calls) = (r, (cache', calls'))"
  shows "memo_inv h f cache' calls' \<and> (\<exists>as\<in>set calls'. memo_key h as = memo_key h args \<and> r = Inr (f as))"
proof -
  let ?ps = "map (\<lambda>args. (memo_key h args, f args)) calls"
  have fst: "map fst ?ps = map (memo_key h) calls" by (simp add: comp_def)
  show ?thesis
  proof (cases "map_of cache (memo_key h args)")
    case (Some v)
    then have "(memo_key h args, v) \<in> set ?ps" using assms(1) by (metis memo_inv_def map_of_SomeD)
    with Some assms show ?thesis by (auto simp: memoize_call_step memo_key_def)
  next
    case None
    then have miss: "memo_key h args \<notin> set (map (memo_key h) calls)"
      using assms(1) unfolding memo_inv_def map_of_eq_None_iff [symmetric] fst [symmetric] by (metis map_of_eq_None_iff set_map)
    from None assms(2) have eqs: "r = Inr (f args)" "cache' = put (memo_key h args) (f args) cache" "calls' = calls @ [args]"
      by (auto simp: memoize_call_step memo_key_def)
    have "map_of cache' k = map_of (map (\<lambda>args. (memo_key h args, f args)) calls') k" for k
      using assms(1) None miss by (auto simp: eqs memo_inv_def map_add_def split: option.split)
    with assms(1) miss show ?thesis by (auto simp: eqs memo_inv_def)
  qed
qed



section \<open>Throttling\<close>

text \<open>
  Executions of a throttled function whose \<open>func\<close> notes the time of every run in the
  outer state and then returns or throws: the clock advances, the function is called, and
  a pending timer that is due fires.
\<close>

definition timed :: "jsexn + jsval \<Rightarrow> (('c \<times> unit tenv) \<times> int list) fn" where
  "timed r this args = (\<lambda>((c, env), runs). (r, ((c, env), runs @ [now env])))"

definition fire_at :: "nat \<Rightarrow> unit tenv \<Rightarrow> unit tenv" where
  "fire_at i env = env\<lparr>timers := filter (\<lambda>(j, _). j \<noteq> i) (timers env)\<rparr>"

inductive throttle_reach :: "int \<Rightarrow> throttle_opts \<Rightarrow> throttle \<Rightarrow> unit tenv \<Rightarrow> int list \<Rightarrow> bool"
  for wait :: int and opts :: throttle_opts where
  start: "0 < t \<Longrightarrow> throttle_reach wait opts throttle_init \<lparr>now = t, next_id = 1, timers = []\<rparr> []"
| tick: "throttle_reach wait opts st env runs \<Longrightarrow> now env \<le> t \<Longrightarrow>
    throttle_reach wait opts st (env\<lparr>now := t\<rparr>) runs"
| call: "throttle_reach wait opts st env runs \<Longrightarrow>
    throttle_call (timed r) wait opts this args ((st, env), runs) = (v, ((st', env'), runs')) \<Longrightarrow>
    throttle_reach wait opts st' env' runs'"
| fire: "throttle_reach wait opts st env runs \<Longrightarrow> (i, due, ()) \<in> set (timers env) \<Longrightarrow> due \<le> now env \<Longrightarrow>
    throttle_later (timed r) opts ((st, fire_at i env), runs) = (v, ((st', env'), runs')) \<Longrightarrow>
    throttle_reach wait opts st' env' runs'"

definition spaced :: "int \<Rightarrow> int list \<Rightarrow> bool" where
  "spaced wait runs \<longleftrightarrow> sorted_wrt (\<lambda>a b. a + wait \<le> b) runs"

lemma spaced_snoc: "spaced w (runs @ [t]) \<longleftrightarrow> spaced w runs \<and> (\<forall>l\<in>set runs. l + w \<le> t)"
  by (simp add: spaced_def sorted_wrt_append)

definition throttle_inv :: "int \<Rightarrow> throttle_opts \<Rightarrow> throttle \<Rightarrow> unit tenv \<Rightarrow> int list \<Rightarrow> bool" where
  "throttle_inv wait opts st env runs \<longleftrightarrow>
     0 < now env \<and> 0 \<le> th_previous st \<and> th_previous st \<le> now env \<and> spaced wait runs
     \<and> (\<forall>l\<in>set runs. l \<le> now env)
     \<and> (case th_timeout st of None \<Rightarrow> timers env = []
        | Some i \<Rightarrow> (\<exists>due. timers env = [(i, due, ())] \<and> th_previous st + wait \<le> due)
                    \<and> (no_leading opts \<longrightarrow> 0 < th_previous st))
     \<and> (no_leading opts \<and> th_previous st = 0 \<and> th_timeout st = None \<or> (\<forall>l\<in>set runs. l \<le> th_previous st))"

lemma throttle_apply_app:
  "throttle_apply (timed r) ((st, env), runs) = (case r of
      Inl e \<Rightarrow> (Inl e, ((st, env), runs @ [now env]))
    | Inr v \<Rightarrow> (Inr (), ((if th_timeout st = None then st\<lparr>th_result := v, th_context := Null, th_args := None\<rparr>
        else st\<lparr>th_result := v\<rparr>, env), runs @ [now env])))"
  by (cases r) (auto simp: throttle_apply_def js_simps timed_def Let_def)

text \<open>What a call and a timer do to the variables the invariant speaks about.\<close>

lemma now_clearTimeout [simp]: "now (clearTimeout t env) = now env"
  by (simp add: clearTimeout_def split: option.split)

lemma throttle_call_effect:
  assumes "throttle_call (timed r) wait opts this args ((st, env), runs) = (v, ((st', env'), runs'))"
  defines "p \<equiv> if th_previous st = 0 \<and> no_leading opts then now env else th_previous st"
  defines "rem \<equiv> wait - (now env - p)"
  shows "(rem \<le> 0 \<or> rem > wait) \<and> th_previous st' = now env \<and> th_timeout st' = None
       \<and> env' = clearTimeout (th_timeout st) env \<and> runs' = runs @ [now env]
    \<or> \<not> (rem \<le> 0 \<or> rem > wait) \<and> th_previous st' = p \<and> runs' = runs
       \<and> (th_timeout st = None \<and> th_timeout st' = Some (next_id env) \<and> env' = snd (setTimeout () rem env)
          \<or> th_timeout st' = th_timeout st \<and> env' = env)"
proof -
  define st1 where "st1 = (if th_previous st = 0 \<and> no_leading opts then st\<lparr>th_previous := now env\<rparr> else st)
      \<lparr>th_context := this, th_args := Some args\<rparr>"
  have st1: "th_previous st1 = p" "th_timeout st1 = th_timeout st"
    by (simp_all add: st1_def p_def)
  from assms(1) show ?thesis
    unfolding throttle_call_def bindM_app setC_app getC_app prod.case sum.case st1_def [symmetric] Let_def st1
      rem_def [symmetric]
    by (insert st1, auto simp: js_simps throttle_apply_app setTimeout_def split: if_splits sum.splits)
qed

lemma throttle_later_effect:
  assumes "throttle_later (timed r) opts ((st, env), runs) = (v, ((st', env'), runs'))"
  shows "th_previous st' = (if no_leading opts then 0 else now env) \<and> th_timeout st' = None \<and> env' = env
    \<and> runs' = runs @ [now env]"
  using assms by (auto simp: throttle_later_def js_simps throttle_apply_app split: sum.splits)

lemma le_all_trans: "\<forall>l\<in>set runs. l \<le> p \<Longrightarrow> p + w \<le> (t::int) \<Longrightarrow> \<forall>l\<in>set runs. l + w \<le> t"
  by fastforce

lemma throttle_inv_call:
  assumes inv: "throttle_inv wait opts st env runs" and "0 \<le> wait"
    and call: "throttle_call (timed r) wait opts this args ((st, env), runs) = (v, ((st', env'), runs'))"
  shows "throttle_inv wait opts st' env' runs'"
proof -
  define p where "p = (if th_previous st = 0 \<and> no_leading opts then now env else th_previous st)"
  have p: "0 \<le> p" "p \<le> now env" "\<forall>l\<in>set runs. l \<le> p" "th_timeout st \<noteq> None \<Longrightarrow> p = th_previous st"
      "no_leading opts \<Longrightarrow> 0 < p"
    using inv by (auto simp: throttle_inv_def p_def split: option.splits)
  from throttle_call_effect [OF call, folded p_def] consider
      (run) "p + wait \<le> now env" "th_previous st' = now env" "th_timeout st' = None"
        "env' = clearTimeout (th_timeout st) env" "runs' = runs @ [now env]"
    | (arm) "th_previous st' = p" "runs' = runs" "th_timeout st = None" "th_timeout st' = Some (next_id env)"
        "env' = snd (setTimeout () (wait - (now env - p)) env)" "now env < p + wait"
    | (idle) "th_previous st' = p" "runs' = runs" "th_timeout st' = th_timeout st" "env' = env"
    using p by fastforce
  then show ?thesis
  proof cases
    case run
    then show ?thesis using inv p(1,2) le_all_trans [OF p(3) run(1)]
      by (auto simp: throttle_inv_def spaced_snoc clearTimeout_def split: option.splits)
  next
    case arm
    then show ?thesis using inv p by (auto simp: throttle_inv_def setTimeout_def)
  next
    case idle
    then show ?thesis using inv p by (auto simp: throttle_inv_def split: option.splits)
  qed
qed

lemma throttle_inv_fire:
  assumes inv: "throttle_inv wait opts st env runs" "0 \<le> wait" "(i, due, ()) \<in> set (timers env)" "due \<le> now env"
    and fire: "throttle_later (timed r) opts ((st, fire_at i env), runs) = (v, ((st', env'), runs'))"
  shows "throttle_inv wait opts st' env' runs'"
proof -
  have tm: "th_timeout st = Some i" "timers env = [(i, due, ())]" "th_previous st + wait \<le> due"
      "\<forall>l\<in>set runs. l \<le> th_previous st"
    using inv by (auto simp: throttle_inv_def split: option.splits)
  then have "th_previous st + wait \<le> now env" using inv(4) by simp
  from le_all_trans [OF tm(4) this] show ?thesis
    using inv(1) tm throttle_later_effect [OF fire] by (auto simp: throttle_inv_def spaced_snoc fire_at_def)
qed

lemma throttle_reach_inv: "throttle_reach wait opts st env runs \<Longrightarrow> 0 \<le> wait \<Longrightarrow> throttle_inv wait opts st env runs"
proof (induction rule: throttle_reach.induct)
  case (start t)
  then show ?case by (simp add: throttle_inv_def throttle_init_def spaced_def)
next
  case (tick st env runs t)
  then show ?case by (auto simp: throttle_inv_def split: option.splits)
next
  case (call st env runs r this args v st' env' runs')
  then show ?case using throttle_inv_call by blast
next
  case (fire st env runs i due r v st' env' runs')
  then show ?case using throttle_inv_fire by blast
qed

text \<open>
  C14. In every execution of a throttled function, with any combination of the options
  \<open>leading\<close> and \<open>trailing\<close>, whether the function returns or throws, two runs of
  it are at least \<open>wait\<close> apart, and there is never more than one timer pending.
\<close>

theorem throttle_at_most_once_per_window:
  assumes "throttle_reach wait opts st env runs" "0 \<le> wait"
  shows "sorted_wrt (\<lambda>earlier later. earlier + wait \<le> later) runs \<and> length (timers env) \<le> 1"
  using throttle_reach_inv [OF assms] by (auto simp: throttle_inv_def spaced_def split: option.splits)

theorem throttle_at_most_once_per_window_witness:
  "\<exists>st env runs. throttle_reach 10 \<lparr>no_leading = False, no_trailing = False\<rparr> st env runs \<and> length runs = 2
     \<and> sorted_wrt (\<lambda>earlier later. earlier + 10 \<le> later) runs \<and> length (timers env) \<le> 1"
proof -
  let ?o = "\<lparr>no_leading = False, no_trailing = False\<rparr>"
  have "\<exists>st env. throttle_reach 10 ?o st env [50] \<and> now env = 50 \<and> th_previous st = 50 \<and> th_timeout st = None"
    by (intro exI conjI, rule throttle_reach.call [OF throttle_reach.start [of 50], where r = "Inr Null"])
      (auto simp: throttle_call_def js_simps Let_def throttle_apply_app clearTimeout_def throttle_init_def)
  then obtain st env where s1: "throttle_reach 10 ?o st env [50]" "now env = 50" "th_previous st = 50"
    "th_timeout st = None" by blast
  have "\<exists>st' env'. throttle_reach 10 ?o st' env' [50, 60]"
    using s1(2-) by (intro exI, intro throttle_reach.call [OF throttle_reach.tick [OF s1(1), of 60], where r = "Inr Null"])
      (auto simp: throttle_call_def js_simps Let_def throttle_apply_app clearTimeout_def)
  then obtain st' env' where s2: "throttle_reach 10 ?o st' env' [50, 60]" by blast
  with throttle_at_most_once_per_window [OF s2] show ?thesis by (intro exI [of _ st'] exI [of _ env'] exI [of _ "[50, 60]"]) simp
qed

section \<open>Debouncing\<close>

text \<open>
  The same for a debounced function; a run is noted with the time of the last call.
\<close>

definition timed_db :: "jsexn + jsval \<Rightarrow> ((debounce \<times> unit tenv) \<times> (int \<times> int) list) fn" where
  "timed_db r this args = (\<lambda>((st, env), runs). (r, ((st, env), runs @ [(now env, db_timestamp st)])))"

inductive debounce_reach :: "int \<Rightarrow> bool \<Rightarrow> debounce \<Rightarrow> unit tenv \<Rightarrow> (int \<times> int) list \<Rightarrow> bool"
  for wait :: int and immediate :: bool where
  start: "0 < t \<Longrightarrow> debounce_reach wait immediate debounce_init \<lparr>now = t, next_id = 1, timers = []\<rparr> []"
| tick: "debounce_reach wait immediate st env runs \<Longrightarrow> now env \<le> t \<Longrightarrow>
    debounce_reach wait immediate st (env\<lparr>now := t\<rparr>) runs"
| call: "debounce_reach wait immediate st env runs \<Longrightarrow>
    debounce_call (timed_db r) wait immediate this args ((st, env), runs) = (v, ((st', env'), runs')) \<Longrightarrow>
    debounce_reach wait immediate st' env' runs'"
| fire: "debounce_reach wait immediate st env runs \<Longrightarrow> (i, due, ()) \<in> set (timers env) \<Longrightarrow> due \<le> now env \<Longrightarrow>
    debounce_later (timed_db r) wait immediate ((st, fire_at i env), runs) = (v, ((st', env'), runs')) \<Longrightarrow>
    debounce_reach wait immediate st' env' runs'"

lemma debounce_apply_app:
  "debounce_apply (timed_db r) ((st, env), runs) = (case r of
      Inl e \<Rightarrow> (Inl e, ((st, env), runs @ [(now env, db_timestamp st)]))
    | Inr v \<Rightarrow> (Inr (), ((st\<lparr>db_result := v\<rparr>, env), runs @ [(now env, db_timestamp st)])))"
  by (cases r) (auto simp: debounce_apply_def js_simps timed_db_def)

definition debounce_inv :: "int \<Rightarrow> bool \<Rightarrow> debounce \<Rightarrow> unit tenv \<Rightarrow> (int \<times> int) list \<Rightarrow> bool" where
  "debounce_inv wait immediate st env runs \<longleftrightarrow>
     db_timestamp st \<le> now env
     \<and> (case db_timeout st of None \<Rightarrow> timers env = [] | Some i \<Rightarrow> \<exists>due. timers env = [(i, due, ())]
          \<and> (immediate \<longrightarrow> (\<forall>(t, c)\<in>set runs. t + wait \<le> due)))
     \<and> (immediate \<longrightarrow> spaced wait (map fst runs) \<and> (\<forall>(t, c)\<in>set runs. t \<le> db_timestamp st)
          \<and> (db_timeout st = None \<longrightarrow> (\<forall>(t, c)\<in>set runs. t + wait \<le> now env)))
     \<and> (\<not> immediate \<longrightarrow> (\<forall>(t, c)\<in>set runs. c + wait \<le> t \<or> t = c))"

lemmas debounce_unfold = debounce_inv_def debounce_call_def debounce_later_def js_simps Let_def
  debounce_apply_app spaced_snoc setTimeout_def fire_at_def debounce_forget_def

lemma debounce_inv_call:
  assumes "debounce_inv wait immediate st env runs" "0 \<le> wait"
    and "debounce_call (timed_db r) wait immediate this args ((st, env), runs) = (v, ((st', env'), runs'))"
  shows "debounce_inv wait immediate st' env' runs'"
  using assms by (cases "db_timeout st")
    (auto simp: debounce_unfold split: if_splits sum.splits; drule (1) bspec, force)+

lemma debounce_inv_fire:
  assumes "debounce_inv wait immediate st env runs" "0 \<le> wait" "(i, due, ()) \<in> set (timers env)" "due \<le> now env"
    and "debounce_later (timed_db r) wait immediate ((st, fire_at i env), runs) = (v, ((st', env'), runs'))"
  shows "debounce_inv wait immediate st' env' runs'"
  using assms by (cases "db_timeout st")
    (auto simp: debounce_unfold split: if_splits sum.splits; drule (1) bspec, force)+

lemma debounce_reach_inv:
  "debounce_reach wait immediate st env runs \<Longrightarrow> 0 \<le> wait \<Longrightarrow> debounce_inv wait immediate st env runs"
proof (induction rule: debounce_reach.induct)
  case (start t)
  then show ?case by (simp add: debounce_inv_def debounce_init_def spaced_def)
next
  case (tick st env runs t)
  then show ?case by (auto simp: debounce_inv_def split: option.splits)
next
  case (call st env runs r this args v st' env' runs')
  then show ?case using debounce_inv_call by blast
next
  case (fire st env runs i due r v st' env' runs')
  then show ?case using debounce_inv_fire by blast
qed

text \<open>
  C15. A debounced function called on the trailing edge runs only when the last call is at
  least \<open>wait\<close> in the past or is in the very millisecond of the run; called with
  \<open>immediate\<close>, two runs of it are at least \<open>wait\<close> apart. At most one timer is
  pending at any time, and one is pending from the first call of a burst to its run.
\<close>

theorem debounce_quiet_period:
  assumes "debounce_reach wait immediate st env runs" "0 \<le> wait"
  shows "(\<not> immediate \<longrightarrow> (\<forall>(ran, last_call)\<in>set runs. last_call + wait \<le> ran \<or> ran = last_call))
    \<and> (immediate \<longrightarrow> sorted_wrt (\<lambda>earlier later. earlier + wait \<le> later) (map fst runs))
    \<and> length (timers env) = (if db_timeout st = None then 0 else 1)"
  using debounce_reach_inv [OF assms] by (auto simp: debounce_inv_def spaced_def split: option.splits)

theorem debounce_quiet_period_witness:
  "\<exists>st env. debounce_reach 100 False st env [] \<and> length (timers env) = 1"
proof -
  have "\<exists>st env. debounce_reach 100 False st env [] \<and> db_timeout st = Some 1"
    by (intro exI conjI, rule debounce_reach.call [OF debounce_reach.start [of 1], where r = "Inr Null"])
      (auto simp: debounce_unfold debounce_init_def)
  then obtain st env where s: "debounce_reach 100 False st env []" "db_timeout st = Some 1" by blast
  with debounce_quiet_period [OF s(1)] show ?thesis by auto
qed

text \<open>
  The second case of the first claim happens: a call in the millisecond in which the timer
  fires does not postpone the run, so the function runs in the middle of a burst of calls.
\<close>

lemma debounce_runs_during_burst:
  "\<exists>st env. debounce_reach 100 False st env [(101, 101)]"
proof -
  have "\<exists>st env. debounce_reach 100 False st env [] \<and> now env = 1 \<and> timers env = [(1, 101, ())] \<and> db_timeout st = Some 1"
    by (intro exI conjI, rule debounce_reach.call [OF debounce_reach.start [of 1], where r = "Inr Null"])
      (auto simp: debounce_unfold debounce_init_def)
  then obtain st env where s1: "debounce_reach 100 False st env []" "now env = 1" "timers env = [(1, 101, ())]"
    "db_timeout st = Some 1" by blast
  have "\<exists>st' env'. debounce_reach 100 False st' env' [] \<and> now env' = 101 \<and> timers env' = [(1, 101, ())]
      \<and> db_timestamp st' = 101"
    by (intro exI [of _ "st\<lparr>db_context := Null, db_args := Some [], db_timestamp := 101\<rparr>"]
        exI [of _ "env\<lparr>now := 101\<rparr>"] conjI,
        rule debounce_reach.call [OF debounce_reach.tick [OF s1(1), of 101], where r = "Inr Null"])
      (use s1(2-) in \<open>auto simp: debounce_unfold\<close>)
  then obtain st' env' where s2: "debounce_reach 100 False st' env' []" "now env' = 101"
    "timers env' = [(1, 101, ())]" "db_timestamp st' = 101" by blast
  show ?thesis
    by (intro exI, rule debounce_reach.fire [OF s2(1), of 1 101 "Inr Null"])
      (use s2(2-) in \<open>auto simp: debounce_unfold\<close>)
qed

section \<open>Counting calls\<close>

lemma after_run:
  "mapM (after_call (logged f) Undef) argss (n, calls)
   = (Inr (map (\<lambda>args. Undef) (take (nat (n - 1)) argss) @ map f (drop (nat (n - 1)) argss)),
      (n - int (length argss), calls @ drop (nat (n - 1)) argss))"
proof (induction argss arbitrary: n calls)
  case Nil
  then show ?case by (simp add: js_simps)
next
  case (Cons args argss)
  show ?case
  proof (cases "n - 1 < 1")
    case True
    then have "nat (n - 1) = 0" "nat (n - 1 - 1) = 0" by auto
    with True Cons.IH show ?thesis by (simp add: js_simps after_call_def)
  next
    case False
    then have "nat (n - 1) = Suc (nat (n - 1 - 1))" by simp
    with False Cons.IH show ?thesis by (simp add: js_simps after_call_def)
  qed
qed

lemma before_call_step:
  "before_call (logged f) this args ((n, memo, alive), calls) =
   (if 0 < n - 1 then if alive then (Inr (f args), ((n - 1, f args, alive), calls @ [args]))
      else (Inl (TypeErr ''Cannot read property 'apply' of null''), ((n - 1, memo, alive), calls))
    else (Inr memo, ((n - 1, memo, False), calls)))"
  by (simp add: js_simps before_call_def)

lemma before_run:
  "n \<le> 1 \<or> alive \<Longrightarrow>
   \<exists>alive'. mapM (before_call (logged f) Undef) argss ((n, memo, alive), calls)
   = (Inr (map f (take (nat (n - 1)) argss)
        @ replicate (length argss - nat (n - 1)) (last (memo # map f (take (nat (n - 1)) argss)))),
      ((n - int (length argss), last (memo # map f (take (nat (n - 1)) argss)), alive'),
       calls @ take (nat (n - 1)) argss))"
proof (induction argss arbitrary: n memo alive calls)
  case Nil
  then show ?case by (simp add: js_simps)
next
  case (Cons args argss)
  show ?case
  proof (cases "0 < n - 1")
    case True
    then have n: "nat (n - 1) = Suc (nat (n - 1 - 1))" by simp
    obtain alive' where IH: "mapM (before_call (logged f) Undef) argss ((n - 1, f args, True), calls @ [args])
      = (Inr (map f (take (nat (n - 1 - 1)) argss)
          @ replicate (length argss - nat (n - 1 - 1)) (last (f args # map f (take (nat (n - 1 - 1)) argss)))),
        ((n - 1 - int (length argss), last (f args # map f (take (nat (n - 1 - 1)) argss)), alive'),
         calls @ args # take (nat (n - 1 - 1)) argss))"
      using Cons.IH [of "n - 1" True "f args" "calls @ [args]"] by auto
    from True Cons.prems have "alive" by auto
    with True n IH show ?thesis by (simp add: js_simps before_call_step)
  next
    case False
    then have n: "nat (n - 1) = 0" "nat (n - 1 - 1) = 0" by auto
    obtain alive' where IH: "mapM (before_call (logged f) Undef) argss ((n - 1, memo, False), calls)
      = (Inr (replicate (length argss) memo), ((n - 1 - int (length argss), memo, alive'), calls))"
      using Cons.IH [of "n - 1" False memo calls] n False by auto
    with False n show ?thesis by (simp add: js_simps before_call_step)
  qed
qed

text \<open>
  \<open>_.after(n, f)\<close> does not run \<open>f\<close> on the first \<open>n - 1\<close> calls and
  runs it on every later one; \<open>_.before(n, f)\<close> runs it on the first \<open>n - 1\<close>
  calls only and later calls return the last result; \<open>_.once(f)\<close> runs it on the first
  call only and every call returns that result.
\<close>

theorem after_before_once:
  fixes f :: "jsval list \<Rightarrow> jsval" and n :: nat
  shows "(\<exists>c. mapM (after_call (logged f) Undef) argss (int (Suc n), [])
        = (Inr (replicate (min n (length argss)) Undef @ map f (drop n argss)), (c, drop n argss)))
    \<and> (\<exists>c. mapM (before_call (logged f) Undef) argss (before_init (int (Suc n)), [])
        = (Inr (map f (take n argss) @ replicate (length argss - n) (last (Undef # map f (take n argss)))),
           (c, take n argss)))
    \<and> (\<exists>c. mapM (before_call (logged f) Undef) (args # argss) (once_init, [])
        = (Inr (replicate (Suc (length argss)) (f args)), (c, [args])))"
proof -
  have "map (\<lambda>args. Undef) (take n argss) = replicate (min n (length argss)) Undef"
    by (simp add: map_replicate_const min.commute)
  then have "\<exists>c. mapM (after_call (logged f) Undef) argss (int (Suc n), [])
      = (Inr (replicate (min n (length argss)) Undef @ map f (drop n argss)), (c, drop n argss))"
    using after_run [of f argss "int (Suc n)" "[]"] by simp
  moreover have "\<exists>c. mapM (before_call (logged f) Undef) argss (before_init (int (Suc n)), [])
        = (Inr (map f (take n argss) @ replicate (length argss - n) (last (Undef # map f (take n argss)))),
           (c, take n argss))"
    using before_run [of "int (Suc n)" True f argss Undef "[]"] by (auto simp: before_init_def simp del: last.simps)
  moreover have "\<exists>c. mapM (before_call (logged f) Undef) (args # argss) (once_init, [])
        = (Inr (replicate (Suc (length argss)) (f args)), (c, [args]))"
    using before_run [of 2 True f "args # argss" Undef "[]"] by (auto simp: before_init_def once_init_def simp del: mapM.simps)
  ultimately show ?thesis by blast
qed

end
