(* ===== verification/Underscore_Objects.thy ===== *)
theory Underscore_Objects
  imports Underscore_Functions
begin

text \<open>
  The object functions of underscore.js. Functions that change an object (\<open>extend\<close>,
  \<open>defaults\<close>) take and return the store. \<open>eq\<close>, the recursion behind
  \<open>isEqual\<close>, follows references with its two stacks of traversed objects; its first
  argument is the depth of the call stack. It is shown to need no more than one frame per
  object of the store, cyclic or not, and to decide structural equality on trees.
\<close>

section \<open>Assignment in the store\<close>

definition set_prop :: "heap \<Rightarrow> nat \<Rightarrow> key \<Rightarrow> jsval \<Rightarrow> heap" where
  "set_prop h r k v = (let ob = obj_at h r in
     h[r := (case k of
        Idx i \<Rightarrow> if i < length (elems ob) then ob\<lparr>elems := (elems ob)[i := v]\<rparr>
                 else if cls ob = CArray \<and> i = length (elems ob) then ob\<lparr>elems := elems ob @ [v]\<rparr>
                 else ob\<lparr>props := put k v (props ob)\<rparr>
      | Name n \<Rightarrow> if map_of (props ob) k = None \<and> map_of (hidden ob) k \<noteq> None
                 then ob\<lparr>hidden := put k v (hidden ob)\<rparr>
                 else ob\<lparr>props := put k v (props ob)\<rparr>)])"

text \<open>The address of an object; a literal is given a new one.\<close>

definition intern :: "heap \<Rightarrow> jsval \<Rightarrow> heap \<times> nat" where
  "intern h v = (case v of
      Ref r \<Rightarrow> (h, r)
    | Arr xs \<Rightarrow> (h @ [plain_obj\<lparr>cls := CArray, elems := xs, proto := Some ArrayProto\<rparr>], length h)
    | PObj ps \<Rightarrow> (h @ [plain_obj\<lparr>props := ps\<rparr>], length h)
    | _ \<Rightarrow> (h @ [plain_obj], length h))"

section \<open>Copying properties\<close>

definition functions_u :: "heap \<Rightarrow> jsval \<Rightarrow> string list" where
  "functions_u h obj = sort (map key_str (filter (\<lambda>k. isFunction_u h (get h obj k)) (for_in h obj)))"

definition extend_from :: "nat \<Rightarrow> heap \<Rightarrow> jsval \<Rightarrow> heap" where
  "extend_from r h source = foldl (\<lambda>h1 prop.
     if has_own h1 source prop then set_prop h1 r prop (get h1 source prop) else h1) h (for_in h source)"

definition extend_u :: "heap \<Rightarrow> jsval \<Rightarrow> jsval list \<Rightarrow> heap \<times> jsval" where
  "extend_u h obj sources =
     (if \<not> isObject_u h obj then (h, obj)
      else (let (h1, r) = intern h obj in (foldl (extend_from r) h1 sources, Ref r)))"

definition defaults_from :: "nat \<Rightarrow> heap \<Rightarrow> jsval \<Rightarrow> heap" where
  "defaults_from r h source = foldl (\<lambda>h1 prop.
     if strict_eq (get h1 (Ref r) prop) Undef then set_prop h1 r prop (get h1 source prop) else h1)
     h (for_in h source)"

definition defaults_u :: "heap \<Rightarrow> jsval \<Rightarrow> jsval list \<Rightarrow> heap \<times> jsval" where
  "defaults_u h obj sources =
     (if \<not> isObject_u h obj then (h, obj)
      else (let (h1, r) = intern h obj in (foldl (defaults_from r) h1 sources, Ref r)))"

definition clone_u :: "heap \<Rightarrow> jsval \<Rightarrow> jsexn + heap \<times> jsval" where
  "clone_u h obj =
     (if \<not> isObject_u h obj then Inr (h, obj)
      else if isArray_u h obj then
        (case arr_items h obj of Inl e \<Rightarrow> Inl e
         | Inr xs \<Rightarrow> (let (h1, r) = intern h (Arr xs) in Inr (h1, Ref r)))
      else Inr (extend_u h (PObj []) [obj]))"

definition tap_u :: "jsval \<Rightarrow> 's fn \<Rightarrow> ('s, jsval) js" where
  "tap_u obj interceptor = bindM (interceptor Undef [obj]) (\<lambda>_. retM obj)"

text \<open>
  \<open>pick\<close> and \<open>omit\<close> take a function with its context (\<open>Inl\<close>), or a list of
  keys and lists of keys (\<open>Inr\<close>).
\<close>

definition pick_u ::
  "heap \<Rightarrow> jsval \<Rightarrow> 's fn \<times> jsval + jsval list \<Rightarrow> ('s, props) js" where
  "pick_u h obj sel =
     (if nullish obj then retM []
      else (case sel of
        Inl (it, context) \<Rightarrow> (let f = createCallback it context None in
          foldM (\<lambda>result k. bindM (f Undef [get h obj k, Str (key_str k), obj]) (\<lambda>keep.
            retM (if truthy keep then put k (get h obj k) result else result))) [] (for_in h obj))
      | Inr args \<Rightarrow> bindM (concat_args h [] args) (\<lambda>keys.
          foldM (\<lambda>result k. retM (if has_prop h obj (to_key h k)
            then put (to_key h k) (get h obj (to_key h k)) result else result)) [] keys)))"

definition omit_u ::
  "heap \<Rightarrow> jsval \<Rightarrow> 's fn \<times> jsval + jsval list \<Rightarrow> ('s, props) js" where
  "omit_u h obj sel = (case sel of
      Inl (it, context) \<Rightarrow> pick_u h obj (Inl (negate_u it, context))
    | Inr args \<Rightarrow> bindM (concat_args h [] args) (\<lambda>keys0.
        bindM (map_u h (Arr keys0) (Fn (\<lambda>this vs. retM (Str (to_str h (arg vs 0))))) Undef) (\<lambda>keys.
        pick_u h obj (Inl (\<lambda>this vs. bindM (contains_u h (Arr keys) (arg vs 1)) (\<lambda>c.
          retM (Bool (\<not> c))), arg args 1)))))"

section \<open>Deep equality\<close>

fun chain_has :: "heap \<Rightarrow> nat \<Rightarrow> nat \<Rightarrow> bool" where
  "chain_has h r p = (case proto (obj_at h r) of
      Some q \<Rightarrow> if q = p then True else if q < r then chain_has h q p else False
    | None \<Rightarrow> False)"

declare chain_has.simps [simp del]

text \<open>\<open>v instanceof _\<close> and \<open>f instanceof f\<close> for a function \<open>f\<close>\<close>

definition instanceof_us :: "heap \<Rightarrow> jsval \<Rightarrow> bool" where
  "instanceof_us h v = (case v of Ref r \<Rightarrow> chain_has h r UnderscoreProto | _ \<Rightarrow> False)"

definition self_instance :: "heap \<Rightarrow> jsval \<Rightarrow> bool" where
  "self_instance h f = (case f of
      Ref r \<Rightarrow> (case get h f (Name ''prototype'') of Ref p \<Rightarrow> chain_has h r p | _ \<Rightarrow> False)
    | _ \<Rightarrow> False)"

definition unwrap :: "heap \<Rightarrow> jsval \<Rightarrow> jsval" where
  "unwrap h a = (if instanceof_us h a then get h a (Name ''_wrapped'') else a)"

text \<open>\<open>a !== 0 || 1 / a === 1 / b\<close> for strictly equal values: zeros of the same sign.\<close>

definition same_zero :: "jsval \<Rightarrow> jsval \<Rightarrow> bool" where
  "same_zero a b \<longleftrightarrow> \<not> strict_eq a (inum 0) \<or> a = b"

text \<open>The comparison of two members: whether the second object has it, and the two values.\<close>

fun eq_all :: "(jsval \<Rightarrow> jsval \<Rightarrow> jsexn + bool) \<Rightarrow> (bool \<times> jsval \<times> jsval) list \<Rightarrow> jsexn + bool" where
  "eq_all f [] = Inr True"
| "eq_all f ((present, a, b) # rest) = (if \<not> present then Inr False
     else (case f a b of Inl e \<Rightarrow> Inl e | Inr r \<Rightarrow> if r then eq_all f rest else Inr False))"

fun stack_find :: "jsval list \<Rightarrow> jsval list \<Rightarrow> jsval \<Rightarrow> jsval \<Rightarrow> bool option" where
  "stack_find (x # xs) (y # ys) a b = (if strict_eq x a then Some (strict_eq y b) else stack_find xs ys a b)"
| "stack_find _ _ a b = None"

text \<open>The two constructors are different and not both the \<open>Object\<close> of some frame.\<close>

definition ctor_clash :: "heap \<Rightarrow> jsval \<Rightarrow> jsval \<Rightarrow> bool" where
  "ctor_clash h a b \<longleftrightarrow> (let aCtor = get h a (Name ''constructor''); bCtor = get h b (Name ''constructor'') in
     \<not> strict_eq aCtor bCtor
     \<and> has_prop h a (Name ''constructor'') \<and> has_prop h b (Name ''constructor'')
     \<and> \<not> (isFunction_u h aCtor \<and> self_instance h aCtor \<and> isFunction_u h bCtor \<and> self_instance h bCtor))"

text \<open>The members that are compared, from the last one to the first, when the sizes agree.\<close>

definition eq_members :: "heap \<Rightarrow> jsval \<Rightarrow> jsval \<Rightarrow> (bool \<times> jsval \<times> jsval) list option" where
  "eq_members h a b =
     (if toString_call h a = ''[object Array]'' then
        (if strict_eq (get h a LEN) (get h b LEN)
         then (case loop_count (to_number h (get h a LEN)) of
             Inr n \<Rightarrow> Some (map (\<lambda>i. (True, elem h a (nnum i), elem h b (nnum i))) (rev [0..<n]))
           | Inl e \<Rightarrow> None)
         else None)
      else (if length (keys_u h b) = length (keys_u h a)
        then Some (map (\<lambda>k. (has_u h b k, get h a k, get h b k)) (rev (keys_u h a))) else None))"

fun eq :: "nat \<Rightarrow> heap \<Rightarrow> jsval \<Rightarrow> jsval \<Rightarrow> jsval list \<Rightarrow> jsval list \<Rightarrow> jsexn + bool" where
  "eq 0 h a0 b0 aStack bStack = Inl (RangeErr ''Maximum call stack size exceeded'')"
| "eq (Suc depth) h a0 b0 aStack bStack =
     (if strict_eq a0 b0 then Inr (same_zero a0 b0)
      else if nullish a0 \<or> nullish b0 then Inr (strict_eq a0 b0)
      else (let a = unwrap h a0; b = unwrap h b0; className = toString_call h a in
        if className \<noteq> toString_call h b then Inr False
        else if className = ''[object RegExp]'' \<or> className = ''[object String]'' then
          Inr (to_str h (to_prim h a) = to_str h (to_prim h b))
        else if className = ''[object Number]'' then
          Inr (if to_number h a = NaN then to_number h b = NaN
               else if norm0 (to_number h a) = Fin 0 then to_number h a = to_number h b
               else num_eq (to_number h a) (to_number h b))
        else if className = ''[object Date]'' \<or> className = ''[object Boolean]'' then
          Inr (num_eq (to_number h a) (to_number h b))
        else if typeof h a \<noteq> ''object'' \<or> typeof h b \<noteq> ''object'' then Inr False
        else (case stack_find aStack bStack a b of
            Some r \<Rightarrow> Inr r
          | None \<Rightarrow>
              if nullish a \<or> nullish b then Inl (TypeErr ''cannot read property of null or undefined'')
              else if ctor_clash h a b then Inr False
              else (case eq_members h a b of
                  None \<Rightarrow> Inr False
                | Some ms \<Rightarrow> eq_all (\<lambda>x y. eq depth h x y (a # aStack) (b # bStack)) ms))))"

definition isEqual_u :: "nat \<Rightarrow> heap \<Rightarrow> jsval \<Rightarrow> jsval \<Rightarrow> jsexn + bool" where
  "isEqual_u depth h a b = eq depth h a b [] []"

section \<open>Emptiness\<close>

definition isEmpty_u :: "heap \<Rightarrow> jsval \<Rightarrow> bool" where
  "isEmpty_u h obj =
     (if nullish obj then True
      else if isArray_u h obj \<or> isString_u h obj \<or> isArguments_u h obj
        then strict_eq (get h obj LEN) (inum 0)
      else \<not> (\<exists>k\<in>set (for_in h obj). has_u h obj k))"

text \<open>\<open>isFinite(obj) && !isNaN(parseFloat(obj))\<close>: \<open>parseFloat\<close> is a number when the
  trimmed string starts with one.\<close>

definition starts_number :: "string \<Rightarrow> bool" where
  "starts_number s = (let t = dropWhile is_space s;
       u = (case t of c # cs \<Rightarrow> if c = CHR ''+'' \<or> c = CHR ''-'' then cs else t | [] \<Rightarrow> []) in
     (case u of c # cs \<Rightarrow> is_digit c \<or> (c = CHR ''.'' \<and> cs \<noteq> [] \<and> is_digit (hd cs)) | [] \<Rightarrow> False)
     \<or> take 8 u = ''Infinity'')"

definition isFinite_u :: "heap \<Rightarrow> jsval \<Rightarrow> bool" where
  "isFinite_u h obj \<longleftrightarrow> (case norm0 (to_number h obj) of Fin i \<Rightarrow> True | _ \<Rightarrow> False)
     \<and> starts_number (to_str h obj)"

section \<open>Deep equality ends\<close>

text \<open>A store without dangling references, whose values are primitive or references into it.\<close>

fun wf_val :: "heap \<Rightarrow> jsval \<Rightarrow> bool" where
  "wf_val h (Ref r) \<longleftrightarrow> r < length h"
| "wf_val h (Arr xs) \<longleftrightarrow> False"
| "wf_val h (PObj ps) \<longleftrightarrow> False"
| "wf_val h v \<longleftrightarrow> True"

definition wf_heap :: "heap \<Rightarrow> bool" where
  "wf_heap h \<longleftrightarrow> (\<forall>ob\<in>set h. (\<forall>v\<in>set (elems ob). wf_val h v)
     \<and> (\<forall>kv\<in>set (props ob). wf_val h (snd kv)) \<and> (\<forall>kv\<in>set (hidden ob). wf_val h (snd kv)))"

lemma obj_at_wf:
  assumes "wf_heap h"
  shows "(\<forall>v\<in>set (elems (obj_at h r)). wf_val h v) \<and> (\<forall>kv\<in>set (props (obj_at h r)). wf_val h (snd kv))
    \<and> (\<forall>kv\<in>set (hidden (obj_at h r)). wf_val h (snd kv))"
  using assms by (auto simp: wf_heap_def obj_at_def plain_obj_def dest: nth_mem)

lemma own_get_wf: "wf_heap h \<Longrightarrow> wf_val h v \<Longrightarrow> own_get h v k = Some x \<Longrightarrow> wf_val h x"
proof (cases v)
  case (Ref r)
  assume "wf_heap h" "own_get h v k = Some x"
  with Ref obj_at_wf [of h r] show ?thesis
    by (auto simp: Let_def dest!: map_of_SomeD split: option.splits key.splits if_splits)
qed (auto split: key.splits if_splits)

lemma own_get_Ref_wf: "wf_heap h \<Longrightarrow> own_get h (Ref r) k = Some x \<Longrightarrow> wf_val h x"
  using obj_at_wf [of h r]
  by (auto simp: Let_def dest!: map_of_SomeD split: option.splits key.splits if_splits)

lemma chain_get_wf: "wf_heap h \<Longrightarrow> chain_get h r k = Some x \<Longrightarrow> wf_val h x"
proof (induction h r k rule: chain_get.induct)
  case (1 h r k)
  show ?case
  proof (cases "own_get h (Ref r) k")
    case None
    with "1.prems" obtain p where p: "proto (obj_at h r) = Some p" "p < r" "chain_get h p k = Some x"
      by (subst (asm) chain_get.simps) (auto split: option.splits if_splits)
    from "1.IH" [OF None p(1,2) "1.prems"(1) p(3)] show ?thesis .
  next
    case (Some y)
    with "1.prems" have "own_get h (Ref r) k = Some x" by (subst (asm) chain_get.simps) simp
    with "1.prems"(1) own_get_Ref_wf show ?thesis by blast
  qed
qed

lemma get_wf: "wf_heap h \<Longrightarrow> wf_val h v \<Longrightarrow> wf_val h (get h v k)"
  unfolding get_def lookup_prop_def
  by (auto split: option.splits dest: own_get_wf chain_get_wf)

lemma unwrap_wf: "wf_heap h \<Longrightarrow> wf_val h v \<Longrightarrow> wf_val h (unwrap h v)"
  by (simp add: unwrap_def get_wf)

lemma eq_all_no_error:
  "(\<And>p x y. (p, x, y) \<in> set ms \<Longrightarrow> f x y \<noteq> Inl e) \<Longrightarrow> eq_all f ms \<noteq> Inl e"
  by (induction f ms rule: eq_all.induct) (auto split: sum.splits)

lemma stack_find_None:
  "stack_find as bs a b = None \<Longrightarrow> length as = length bs \<Longrightarrow> x \<in> set as \<Longrightarrow> \<not> strict_eq x a"
  by (induction as bs a b rule: stack_find.induct) (auto split: if_splits)

lemma eq_members_wf:
  assumes "wf_heap h" "wf_val h a" "wf_val h b" "eq_members h a b = Some ms" "(p, x, y) \<in> set ms"
  shows "wf_val h x \<and> wf_val h y"
  using assms by (auto simp: eq_members_def elem_def get_wf split: if_splits sum.splits)

text \<open>What is compared member by member is an object of the store.\<close>

lemma compared_is_ref:
  assumes "wf_val h a" "typeof h a = ''object''" "\<not> nullish a"
  shows "\<exists>r<length h. a = Ref r"
  using assms by (cases a) auto

lemma eq_depth:
  assumes "wf_heap h"
  shows "wf_val h a \<Longrightarrow> wf_val h b \<Longrightarrow> distinct as \<Longrightarrow> set as \<subseteq> Ref ` {..<length h} \<Longrightarrow>
    length as = length bs \<Longrightarrow> length h < depth + length as \<Longrightarrow> eq depth h a b as bs \<noteq> Inl (RangeErr m)"
proof (induction depth arbitrary: a b as bs)
  case 0
  then have "length as \<le> card (Ref ` {..<length h})"
    by (metis card_mono distinct_card finite_imageI finite_lessThan)
  with 0 show ?case by (simp add: card_image inj_on_def)
next
  case (Suc depth)
  let ?a = "unwrap h a" and ?b = "unwrap h b"
  have wf: "wf_val h ?a" "wf_val h ?b" using Suc.prems unwrap_wf [OF assms] by auto
  have rec: "eq_all (\<lambda>x y. eq depth h x y (?a # as) (?b # bs)) ms \<noteq> Inl (RangeErr m)"
    if t: "typeof h ?a = ''object''" "\<not> nullish ?a" and f: "stack_find as bs ?a ?b = None"
      and ms: "eq_members h ?a ?b = Some ms" for ms
  proof (rule eq_all_no_error)
    fix p x y assume "(p, x, y) \<in> set ms"
    with eq_members_wf [OF assms wf ms] have xy: "wf_val h x" "wf_val h y" by auto
    from compared_is_ref [OF wf(1) t] obtain r where r: "r < length h" "?a = Ref r" by blast
    with stack_find_None [OF f Suc.prems(5), of "Ref r"] have "?a \<notin> set as" by auto
    with Suc.prems r xy show "eq depth h x y (?a # as) (?b # bs) \<noteq> Inl (RangeErr m)"
      by (intro Suc.IH) auto
  qed
  then show ?case by (auto simp: Let_def split: option.split)
qed

text \<open>
  C3. \<open>_.isEqual\<close> ends on every store without dangling references, cyclic structures
  included, and its recursion is never deeper than the number of objects of the store: with
  that much call stack it does not overflow, whatever the two values.
\<close>

theorem isEqual_terminates:
  assumes "wf_heap h" "wf_val h a" "wf_val h b" "length h < depth"
  shows "isEqual_u depth h a b \<noteq> Inl (RangeErr m)"
  unfolding isEqual_u_def using assms by (intro eq_depth) auto

theorem isEqual_terminates_witness:
  "isEqual_u 3 [plain_obj\<lparr>cls := CArray, elems := [Ref 0]\<rparr>, plain_obj\<lparr>cls := CArray, elems := [Ref 1]\<rparr>]
     (Ref 0) (Ref 1) \<noteq> Inl (RangeErr ''Maximum call stack size exceeded'')"
  by (rule isEqual_terminates) (auto simp: wf_heap_def plain_obj_def)

section \<open>Deep equality of trees\<close>

text \<open>
  The abstract value of a tree of arrays and plain objects: an object is its map of
  members, without their order.
\<close>

datatype tree = TUndef | TNull | TBool bool | TNum jsnum | TStr string | TRef nat
  | TArr "tree list" | TObj "key \<Rightarrow> tree option"

fun tree_of :: "jsval \<Rightarrow> tree" where
  "tree_of Undef = TUndef"
| "tree_of Null = TNull"
| "tree_of (Bool b) = TBool b"
| "tree_of (Num n) = TNum n"
| "tree_of (Str s) = TStr s"
| "tree_of (Ref r) = TRef r"
| "tree_of (Arr xs) = TArr (map tree_of xs)"
| "tree_of (PObj ps) = TObj (map_of (map (\<lambda>(k, v). (k, tree_of v)) ps))"

fun tree_ok :: "jsval \<Rightarrow> bool" where
  "tree_ok (Ref r) = False"
| "tree_ok (Arr xs) = (arr_ok xs \<and> (\<forall>x\<in>set xs. tree_ok x))"
| "tree_ok (PObj ps) = (distinct (map fst ps) \<and> Name ''constructor'' \<notin> fst ` set ps
     \<and> (\<forall>(k, v)\<in>set ps. tree_ok v))"
| "tree_ok v = True"

fun tree_depth :: "jsval \<Rightarrow> nat" where
  "tree_depth (Arr xs) = Suc (Max (set (0 # map tree_depth xs)))"
| "tree_depth (PObj ps) = Suc (Max (set (0 # map (\<lambda>(k, v). tree_depth v) ps)))"
| "tree_depth v = 0"

text \<open>The \<open>constructor\<close> the prototypes give to arrays and plain objects is equal to itself.\<close>

definition protos_ok :: "heap \<Rightarrow> bool" where
  "protos_ok h \<longleftrightarrow> self_eq (get h (Arr []) (Name ''constructor'')) \<and> self_eq (get h (PObj []) (Name ''constructor''))"

lemma ctor_Arr: "get h (Arr xs) (Name ''constructor'') = get h (Arr []) (Name ''constructor'')"
  by (simp add: get_def lookup_prop_def)

lemma ctor_PObj:
  "Name ''constructor'' \<notin> fst ` set ps \<Longrightarrow> get h (PObj ps) (Name ''constructor'') = get h (PObj []) (Name ''constructor'')"
  by (simp add: get_def lookup_prop_def map_of_eq_None_iff [symmetric])

lemma no_ctor_clash:
  "protos_ok h \<Longrightarrow> \<not> ctor_clash h (Arr xs) (Arr ys)"
  "protos_ok h \<Longrightarrow> tree_ok (PObj ps) \<Longrightarrow> tree_ok (PObj qs) \<Longrightarrow> \<not> ctor_clash h (PObj ps) (PObj qs)"
proof -
  show "protos_ok h \<Longrightarrow> \<not> ctor_clash h (Arr xs) (Arr ys)"
    unfolding ctor_clash_def Let_def by (subst (1 2) ctor_Arr) (simp add: protos_ok_def strict_eq_refl)
  show "protos_ok h \<Longrightarrow> tree_ok (PObj ps) \<Longrightarrow> tree_ok (PObj qs) \<Longrightarrow> \<not> ctor_clash h (PObj ps) (PObj qs)"
    unfolding ctor_clash_def Let_def using ctor_PObj [of ps h] ctor_PObj [of qs h]
    by (simp add: protos_ok_def strict_eq_refl)
qed

lemma unwrap_literal [simp]: "unwrap h (Arr xs) = Arr xs" "unwrap h (PObj ps) = PObj ps" "unwrap h (Str s) = Str s"
    "unwrap h (Num n) = Num n" "unwrap h (Bool b) = Bool b"
  by (simp_all add: unwrap_def instanceof_us_def)

lemma stack_find_fresh: "(\<And>x. \<not> strict_eq x a) \<Longrightarrow> stack_find as bs a b = None"
  by (induction as bs a b rule: stack_find.induct) auto

lemma stack_find_literal [simp]: "stack_find as bs (Arr xs) b = None" "stack_find as bs (PObj ps) b = None"
proof -
  have "\<not> strict_eq x (Arr xs)" "\<not> strict_eq x (PObj ps)" for x by (cases x; simp)+
  then show "stack_find as bs (Arr xs) b = None" "stack_find as bs (PObj ps) b = None"
    by (auto intro: stack_find_fresh)
qed

lemma eq_all_pure:
  "(\<And>p x y. (p, x, y) \<in> set ms \<Longrightarrow> p \<Longrightarrow> f x y = Inr (g x y)) \<Longrightarrow>
   eq_all f ms = Inr (\<forall>(p, x, y)\<in>set ms. p \<and> g x y)"
  by (induction f ms rule: eq_all.induct) auto

lemma eq_members_Arr:
  assumes "arr_ok xs" "arr_ok ys"
  shows "eq_members h (Arr xs) (Arr ys) = (if length xs = length ys
    then Some (rev (map (\<lambda>(x, y). (True, x, y)) (zip xs ys))) else None)"
proof -
  have "map (\<lambda>i. (True, elem h (Arr xs) (nnum i), elem h (Arr ys) (nnum i))) (rev [0..<length xs])
      = rev (map (\<lambda>(x, y). (True, x, y)) (zip xs ys))" if "length xs = length ys"
    unfolding rev_map [symmetric] using assms that by (intro arg_cong [where f = rev] nth_equalityI) auto
  then show ?thesis by (simp add: eq_members_def toString_call_def)
qed

lemma eq_members_PObj:
  "eq_members h (PObj ps) (PObj qs) = (if length (order_keys (map fst qs)) = length (order_keys (map fst ps))
    then Some (map (\<lambda>k. (map_of qs k \<noteq> None, get h (PObj ps) k, get h (PObj qs) k)) (rev (order_keys (map fst ps))))
    else None)"
  by (simp add: eq_members_def toString_call_def)

lemma length_order_keys [simp]: "length (order_keys ks) = length ks"
  by (metis mset_order_keys size_mset)

lemma map_of_tree: "map_of (map (\<lambda>(k, v). (k, tree_of v)) ps) k = map_option tree_of (map_of ps k)"
  by (induction ps) auto

lemma card_keys: "distinct (map fst ps) \<Longrightarrow> card (fst ` set ps) = length ps"
  using distinct_card [of "map fst ps"] by simp

lemma same_members_iff:
  assumes "distinct (map fst ps)" "distinct (map fst qs)"
  shows "tree_of (PObj ps) = tree_of (PObj qs) \<longleftrightarrow> length qs = length ps \<and>
    (\<forall>k\<in>fst ` set ps. map_of qs k \<noteq> None \<and> tree_of (get h (PObj ps) k) = tree_of (get h (PObj qs) k))"
    (is "?l \<longleftrightarrow> ?r")
proof
  assume l: ?l
  then have eq: "map_option tree_of (map_of ps k) = map_option tree_of (map_of qs k)" for k
    by (simp add: fun_eq_iff map_of_tree)
  have "map_of ps k = None \<longleftrightarrow> map_of qs k = None" for k
    using eq [of k] by (cases "map_of ps k"; cases "map_of qs k") auto
  then have sets: "fst ` set ps = fst ` set qs" by (auto simp: map_of_eq_None_iff)
  with card_keys [OF assms(1)] card_keys [OF assms(2)] have "length qs = length ps" by simp
  moreover have "map_of qs k \<noteq> None \<and> tree_of (get h (PObj ps) k) = tree_of (get h (PObj qs) k)"
    if k: "k \<in> fst ` set ps" for k
  proof -
    obtain v where v: "map_of ps k = Some v" using k by (cases "map_of ps k") (auto simp: map_of_eq_None_iff)
    with eq [of k] obtain w where "map_of qs k = Some w" "tree_of v = tree_of w"
      by (cases "map_of qs k") auto
    with v show ?thesis by simp
  qed
  ultimately show ?r by blast
next
  assume r: ?r
  then have sub: "fst ` set ps \<subseteq> fst ` set qs" by (auto simp: map_of_eq_None_iff)
  have "card (fst ` set ps) = card (fst ` set qs)"
    using card_keys [OF assms(1)] card_keys [OF assms(2)] r by simp
  then have sets: "fst ` set ps = fst ` set qs" using sub by (simp add: card_subset_eq)
  have "map_option tree_of (map_of ps k) = map_option tree_of (map_of qs k)" for k
  proof (cases "map_of ps k")
    case None
    then have "map_of qs k = None" using sets by (simp add: map_of_eq_None_iff)
    with None show ?thesis by simp
  next
    case (Some v)
    then have "k \<in> fst ` set ps" by (force dest: map_of_SomeD)
    with r Some show ?thesis by auto
  qed
  then show ?l by (simp add: fun_eq_iff map_of_tree)
qed

lemma tree_member:
  assumes "tree_ok (PObj ps)" "map_of ps k = Some v"
  shows "tree_ok v" "tree_depth v < tree_depth (PObj ps)"
  using assms by (auto dest!: map_of_SomeD intro!: le_imp_less_Suc Max_ge)

lemma eq_tree:
  "protos_ok h \<Longrightarrow> tree_ok a \<Longrightarrow> tree_ok b \<Longrightarrow> tree_depth a < depth \<Longrightarrow>
   eq depth h a b as bs = Inr (tree_of a = tree_of b)"
proof (induction depth arbitrary: a b as bs)
  case (Suc depth)
  show ?case
  proof (cases a)
    case a: (Arr xs)
    show ?thesis
    proof (cases b)
      case b: (Arr ys)
      have "eq_all (\<lambda>x y. eq depth h x y (Arr xs # as) (Arr ys # bs)) (rev (map (\<lambda>(x, y). (True, x, y)) (zip xs ys)))
          = Inr (\<forall>(p, x, y)\<in>set (rev (map (\<lambda>(x, y). (True, x, y)) (zip xs ys))). p \<and> tree_of x = tree_of y)"
        using Suc.prems a b by (intro eq_all_pure Suc.IH) (auto dest: set_zip_leftD set_zip_rightD)
      moreover have "(\<forall>(x, y)\<in>set (zip xs ys). tree_of x = tree_of y) \<longleftrightarrow> map tree_of xs = map tree_of ys"
        if "length xs = length ys"
        using that by (induction xs ys rule: list_induct2) auto
      moreover have "map tree_of xs \<noteq> map tree_of ys" if "length xs \<noteq> length ys"
        using that map_eq_imp_length_eq by blast
      ultimately show ?thesis using Suc.prems no_ctor_clash(1) [of h xs ys] a b
        by (auto simp: toString_call_def eq_members_Arr Let_def)
    qed (use a Suc.prems in \<open>auto simp: toString_call_def Let_def\<close>)
  next
    case a: (PObj ps)
    show ?thesis
    proof (cases b)
      case b: (PObj qs)
      let ?ms = "map (\<lambda>k. (map_of qs k \<noteq> None, get h (PObj ps) k, get h (PObj qs) k)) (rev (order_keys (map fst ps)))"
      have d: "distinct (map fst ps)" "distinct (map fst qs)" using Suc.prems a b by auto
      have "eq_all (\<lambda>x y. eq depth h x y (PObj ps # as) (PObj qs # bs)) ?ms
          = Inr (\<forall>(p, x, y)\<in>set ?ms. p \<and> tree_of x = tree_of y)"
      proof (rule eq_all_pure)
        fix p x y assume "(p, x, y) \<in> set ?ms" p
        then obtain k where k0: "k \<in> fst ` set ps" "map_of qs k \<noteq> None"
            and xy: "x = get h (PObj ps) k" "y = get h (PObj qs) k" by auto
        then obtain v w where k: "map_of ps k = Some v" "map_of qs k = Some w"
          by (metis map_of_eq_None_iff not_None_eq)
        with xy have "x = v" "y = w" by simp_all
        with k tree_member [of ps k v] tree_member [of qs k w] Suc.prems a b
        show "eq depth h x y (PObj ps # as) (PObj qs # bs) = Inr (tree_of x = tree_of y)"
          by (intro Suc.IH) (auto simp del: tree_depth.simps)
      qed
      then show ?thesis
        using Suc.prems no_ctor_clash(2) [of h ps qs] same_members_iff [OF d, of h] a b
        by (auto simp: toString_call_def eq_members_PObj Let_def simp del: tree_of.simps tree_ok.simps)
    qed (use a Suc.prems in \<open>auto simp: toString_call_def Let_def\<close>)
  qed (use Suc.prems in \<open>cases b; auto simp: toString_call_def Let_def same_zero_def num_eq_def norm0_def
      to_prim_def to_number_def split: if_splits\<close>)+
qed simp

text \<open>
  C4. On trees of arrays and plain objects \<open>_.isEqual\<close> decides structural equality:
  it returns true exactly when both stand for the same abstract tree, in which objects are
  maps without an order of keys, NaN is equal to itself and the two zeros differ. Hence it is
  an equivalence relation there.
\<close>

theorem isEqual_structural:
  assumes "protos_ok h" "tree_ok a" "tree_ok b" "tree_depth a < depth"
  shows "isEqual_u depth h a b = Inr (tree_of a = tree_of b)"
  unfolding isEqual_u_def by (rule eq_tree [OF assms])

theorem isEqual_structural_witness:
  "isEqual_u 5 [] (PObj [(Name ''a'', Num NaN), (Name ''b'', Arr [inum 1])])
       (PObj [(Name ''b'', Arr [inum 1]), (Name ''a'', Num NaN)]) = Inr True
   \<and> isEqual_u 5 [] (Arr [Num NegZero]) (Arr [inum 0]) = Inr False"
  using isEqual_structural [of "[]" "PObj [(Name ''a'', Num NaN), (Name ''b'', Arr [inum 1])]"
      "PObj [(Name ''b'', Arr [inum 1]), (Name ''a'', Num NaN)]" 5]
    isEqual_structural [of "[]" "Arr [Num NegZero]" "Arr [inum 0]" 5]
  by (auto simp: protos_ok_def get_def lookup_prop_def chain_get.simps obj_at_def plain_obj_def fun_eq_iff)

section \<open>Extending an object\<close>

text \<open>An ordinary object of the store: no elements of its own.\<close>

definition ordinary :: "heap \<Rightarrow> nat \<Rightarrow> bool" where
  "ordinary h r \<longleftrightarrow> r < length h \<and> elems (h ! r) = [] \<and> \<not> has_length (h ! r)"

lemma own_get_ordinary:
  "ordinary h r \<Longrightarrow> own_get h (Ref r) k
   = (case map_of (props (h ! r)) k of Some v \<Rightarrow> Some v | None \<Rightarrow> map_of (hidden (h ! r)) k)"
  by (simp add: ordinary_def obj_at_def Let_def split: key.split)

lemma ordinary_set_prop [simp]: "ordinary h r \<Longrightarrow> ordinary (set_prop h r k v) r"
  by (auto simp: ordinary_def set_prop_def obj_at_def Let_def has_length_def split: key.split)

lemma own_get_set_prop:
  assumes "ordinary h r"
  shows "own_get (set_prop h r k v) (Ref r) j = (if j = k then Some v else own_get h (Ref r) j)"
proof -
  let ?ob = "set_prop h r k v ! r"
  have r: "r < length h" and e: "elems (h ! r) = []" and nl: "\<not> has_length (h ! r)"
    using assms by (simp_all add: ordinary_def)
  have "(case map_of (props ?ob) j of Some v \<Rightarrow> Some v | None \<Rightarrow> map_of (hidden ?ob) j)
      = (if j = k then Some v else (case map_of (props (h ! r)) j of Some v \<Rightarrow> Some v
           | None \<Rightarrow> map_of (hidden (h ! r)) j))"
    using r e nl by (auto simp: set_prop_def obj_at_def Let_def has_length_def split: key.split option.split)
  then show ?thesis
    by (simp only: own_get_ordinary [OF assms] own_get_ordinary [OF ordinary_set_prop [OF assms]])
qed

lemma extend_loop:
  assumes "ordinary h r"
  shows "ordinary (foldl (\<lambda>h1 prop. if has_own h1 (PObj ps) prop then set_prop h1 r prop (get h1 (PObj ps) prop) else h1) h ks) r
    \<and> own_get (foldl (\<lambda>h1 prop. if has_own h1 (PObj ps) prop then set_prop h1 r prop (get h1 (PObj ps) prop) else h1) h ks) (Ref r) k
      = (if k \<in> set ks \<and> map_of ps k \<noteq> None then map_of ps k else own_get h (Ref r) k)"
  using assms
proof (induction ks arbitrary: h)
  case (Cons j ks)
  show ?case
  proof (cases "map_of ps j")
    case None
    with Cons show ?thesis by (auto simp: has_own_def simp del: own_get.simps(4))
  next
    case (Some v)
    then have "has_own h (PObj ps) j" "get h (PObj ps) j = v" by (simp_all add: has_own_def)
    with Cons.IH [OF ordinary_set_prop [OF Cons.prems], of j v] Some own_get_set_prop [OF Cons.prems, of j v]
    show ?thesis by (auto simp del: own_get.simps(4))
  qed
qed simp

lemma for_in_own: "k \<in> fst ` set ps \<Longrightarrow> k \<in> set (for_in h (PObj ps))"
  by (simp add: for_in_def)

lemma extend_from_PObj:
  assumes "ordinary h r"
  shows "ordinary (extend_from r h (PObj ps)) r
    \<and> own_get (extend_from r h (PObj ps)) (Ref r) k
      = (case map_of ps k of Some v \<Rightarrow> Some v | None \<Rightarrow> own_get h (Ref r) k)"
proof -
  have "k \<in> set (for_in h (PObj ps))" if "map_of ps k \<noteq> None"
    using that for_in_own [of k ps h] by (simp add: map_of_eq_None_iff)
  then show ?thesis
    using extend_loop [OF assms, of ps "for_in h (PObj ps)" k]
    by (auto simp: extend_from_def simp del: own_get.simps(4) split: option.split)
qed

text \<open>
  \<open>_.extend\<close> of an ordinary object returns that object; afterwards it has, for
  every key, the value of the last source that has the key, and its old value where no
  source has it.
\<close>

theorem extend_last_source_wins:
  assumes "ordinary h r"
  shows "\<exists>h'. extend_u h (Ref r) (map PObj sources) = (h', Ref r)
    \<and> (\<forall>k. own_get h' (Ref r) k = (case map_of (concat (rev sources)) k of
          Some v \<Rightarrow> Some v | None \<Rightarrow> own_get h (Ref r) k))"
proof -
  have "own_get (foldl (extend_from r) h (map PObj sources)) (Ref r) k
      = (case map_of (concat (rev sources)) k of Some v \<Rightarrow> Some v | None \<Rightarrow> own_get h (Ref r) k)" for k
    using assms
  proof (induction sources arbitrary: h)
    case (Cons ps sources)
    then show ?case
      using extend_from_PObj [OF Cons.prems, of ps]
      by (auto simp: map_add_def simp del: own_get.simps(4) split: option.split)
  qed simp
  then show ?thesis by (simp add: extend_u_def intern_def del: own_get.simps(4))
qed

theorem extend_last_source_wins_witness:
  "\<exists>h'. extend_u [plain_obj\<lparr>props := [(Name ''a'', inum 1), (Name ''b'', inum 2)]\<rparr>] (Ref 0)
      [PObj [(Name ''a'', inum 3)], PObj [(Name ''a'', inum 4)]] = (h', Ref 0)
    \<and> own_get h' (Ref 0) (Name ''a'') = Some (inum 4) \<and> own_get h' (Ref 0) (Name ''b'') = Some (inum 2)"
proof -
  let ?h = "[plain_obj\<lparr>props := [(Name ''a'', inum 1), (Name ''b'', inum 2)]\<rparr>]"
  have ord: "ordinary ?h 0" by (simp add: ordinary_def plain_obj_def has_length_def)
  have "own_get ?h (Ref 0) (Name ''b'') = Some (inum 2)"
    by (subst own_get_ordinary [OF ord]) simp
  with extend_last_source_wins [OF ord, of "[[(Name ''a'', inum 3)], [(Name ''a'', inum 4)]]"]
  show ?thesis by (auto simp del: own_get.simps(4))
qed

end
