(* ===== verification/Underscore_Utility.thy ===== *)
theory Underscore_Utility
  imports Underscore_Objects
begin

text \<open>
  The utility functions of underscore.js and its object-oriented wrapper: \<open>times\<close>,
  HTML escaping, \<open>result\<close>, \<open>uniqueId\<close>, the compiler of templates, chaining and
  \<open>mixin\<close>. Shown: escaping and unescaping are inverse and the escaped text has no
  markup character, identifiers are never repeated, the literal text of a template cannot
  leave the string literal it is compiled to, and chaining computes the composition.
\<close>

section \<open>Repetition\<close>

definition times_u :: "jsnum \<Rightarrow> 's fn \<Rightarrow> jsval \<Rightarrow> ('s, jsval list) js" where
  "times_u n it context =
     bindM (liftE (array_length (num_max (Fin 0) n))) (\<lambda>_.
     let f = createCallback it context (Some 1) in
     bindM (liftE (loop_count n)) (\<lambda>k. mapM (\<lambda>i. f Undef [nnum i]) [0..<k]))"

section \<open>HTML escaping\<close>

definition escapeMap :: props where
  "escapeMap = [(Name ''&'', Str ''&amp;''), (Name ''<'', Str ''&lt;''), (Name ''>'', Str ''&gt;''),
     (Name [CHR 0x22], Str ''&quot;''), (Name [CHR 0x27], Str ''&#x27;''), (Name [CHR 0x60], Str ''&#x60;'')]"

definition unescapeMap :: props where
  "unescapeMap = invert_u [] (PObj escapeMap)"

text \<open>
  The regular expression is the alternation of the keys: at every position the first key
  that fits is replaced by its value.
\<close>

definition rules :: "props \<Rightarrow> (string \<times> string) list" where
  "rules mp = map (\<lambda>(k, v). (key_str k, to_str [] v)) (pairs_u [] (PObj mp))"

definition rule_at :: "(string \<times> string) list \<Rightarrow> string \<Rightarrow> (string \<times> string) option" where
  "rule_at rs s = find (\<lambda>(k, v). k \<noteq> [] \<and> take (length k) s = k) rs"

fun esc_test :: "(string \<times> string) list \<Rightarrow> string \<Rightarrow> bool" where
  "esc_test rs [] = False"
| "esc_test rs (c # cs) = (rule_at rs (c # cs) \<noteq> None \<or> esc_test rs cs)"

fun esc_replace :: "(string \<times> string) list \<Rightarrow> string \<Rightarrow> string" where
  "esc_replace rs [] = []"
| "esc_replace rs (c # cs) = (case rule_at rs (c # cs) of
      Some (k, v) \<Rightarrow> v @ esc_replace rs (drop (length k - 1) cs)
    | None \<Rightarrow> c # esc_replace rs cs)"

definition createEscaper :: "props \<Rightarrow> heap \<Rightarrow> jsval \<Rightarrow> string" where
  "createEscaper mp h v =
     (let string = (if nullish v then [] else to_str h v) in
      if esc_test (rules mp) string then esc_replace (rules mp) string else string)"

definition escape_u :: "heap \<Rightarrow> jsval \<Rightarrow> string" where
  "escape_u = createEscaper escapeMap"

definition unescape_u :: "heap \<Rightarrow> jsval \<Rightarrow> string" where
  "unescape_u = createEscaper unescapeMap"

section \<open>Properties that may be methods, identifiers\<close>

definition result_u :: "heap \<Rightarrow> (nat \<Rightarrow> 's fn) \<Rightarrow> jsval \<Rightarrow> jsval \<Rightarrow> ('s, jsval) js" where
  "result_u h code object property =
     (if nullish object then retM Undef
      else (let v = elem h object property in
        if isFunction_u h v then call_ref h code v object [] else retM v))"

text \<open>The state is the counter \<open>idCounter\<close>.\<close>

definition uniqueId_u :: "heap \<Rightarrow> jsval \<Rightarrow> (nat, string) js" where
  "uniqueId_u h pre = bindM (modS Suc) (\<lambda>_. bindM getS (\<lambda>n.
     let i = show_nat n in retM (if truthy pre then to_str h pre @ i else i)))"

section \<open>Templates\<close>

text \<open>
  A tag with the code it holds, and the default delimiters: for the text at a position, the
  tag found there and one less than the length of the match. The body of a tag is the
  shortest one, at least one character long.
\<close>

datatype tag = Escape string | Interpolate string | Evaluate string

fun find_close :: "nat \<Rightarrow> string \<Rightarrow> nat option" where
  "find_close n [] = None"
| "find_close n (c # cs) = (if take 2 (c # cs) = ''%>'' then Some n else find_close (Suc n) cs)"

definition delim :: "string \<Rightarrow> (string \<Rightarrow> tag) \<Rightarrow> string \<Rightarrow> (tag \<times> nat) option" where
  "delim opn mk s =
     (if take (length opn) s = opn then
        (let rest = drop (length opn) s in
         case rest of [] \<Rightarrow> None
         | c # cs \<Rightarrow> (case find_close 1 cs of
              Some n \<Rightarrow> Some (mk (take n rest), length opn + n + 1)
            | None \<Rightarrow> None))
      else None)"

definition default_matcher :: "string \<Rightarrow> (tag \<times> nat) option" where
  "default_matcher s = (case delim ''<%-'' Escape s of Some m \<Rightarrow> Some m
     | None \<Rightarrow> (case delim ''<%='' Interpolate s of Some m \<Rightarrow> Some m
       | None \<Rightarrow> delim ''<%'' Evaluate s))"

definition escapeChar :: "char \<Rightarrow> string" where
  "escapeChar c = (if c = CHR 0x5C \<or> c = CHR 0x27 then [CHR 0x5C, c]
     else if c = CHR 0x0D then [CHR 0x5C, CHR ''r'']
     else if c = CHR 0x0A then [CHR 0x5C, CHR ''n'']
     else [c])"

definition escape_text :: "string \<Rightarrow> string" where
  "escape_text s = concat (map escapeChar s)"

fun tag_code :: "tag \<Rightarrow> string" where
  "tag_code (Escape e) = [CHR 0x27] @ ''+'' @ [CHR 0x0A] @ ''((__t=('' @ e @ ''))==null?'' @ [CHR 0x27, CHR 0x27]
     @ '':_.escape(__t))+'' @ [CHR 0x0A, CHR 0x27]"
| "tag_code (Interpolate e) = [CHR 0x27] @ ''+'' @ [CHR 0x0A] @ ''((__t=('' @ e @ ''))==null?'' @ [CHR 0x27, CHR 0x27]
     @ '':__t)+'' @ [CHR 0x0A, CHR 0x27]"
| "tag_code (Evaluate e) = [CHR 0x27] @ '';'' @ [CHR 0x0A] @ e @ [CHR 0x0A] @ ''__p+='' @ [CHR 0x27]"

text \<open>\<open>lit\<close> is the text since the last match, \<open>text.slice(index, offset)\<close>.\<close>

fun template_scan :: "(string \<Rightarrow> (tag \<times> nat) option) \<Rightarrow> string \<Rightarrow> string \<Rightarrow> string" where
  "template_scan m lit [] = escape_text lit"
| "template_scan m lit (c # cs) = (case m (c # cs) of
      Some (t, n) \<Rightarrow> escape_text lit @ tag_code t @ template_scan m [] (drop n cs)
    | None \<Rightarrow> template_scan m (lit @ [c]) cs)"

definition template_source :: "(string \<Rightarrow> (tag \<times> nat) option) \<Rightarrow> string \<Rightarrow> string \<Rightarrow> string" where
  "template_source m variable text =
     (let body = ''__p+='' @ [CHR 0x27] @ template_scan m [] text @ [CHR 0x27] @ '';'' @ [CHR 0x0A];
          scoped = (if variable = [] then ''with(obj||{}){'' @ [CHR 0x0A] @ body @ ''}'' @ [CHR 0x0A] else body) in
      ''var __t,__p='' @ [CHR 0x27, CHR 0x27] @ '',__j=Array.prototype.join,''
      @ ''print=function(){__p+=__j.call(arguments,'' @ [CHR 0x27, CHR 0x27] @ '');};'' @ [CHR 0x0A]
      @ scoped @ ''return __p;'' @ [CHR 0x0A])"

section \<open>The wrapper\<close>

text \<open>A value, or an underscore object with its \<open>_wrapped\<close> value and its \<open>_chain\<close> flag.\<close>

datatype usval = Plain jsval | Wrapper jsval bool

fun us_call :: "usval \<Rightarrow> usval" where
  "us_call (Plain v) = Wrapper v False"
| "us_call (Wrapper v c) = Wrapper v c"

fun chain_u :: "usval \<Rightarrow> usval" where
  "chain_u v = (case us_call v of Wrapper w c \<Rightarrow> Wrapper w True | Plain w \<Rightarrow> Wrapper w True)"

fun us_result :: "usval \<Rightarrow> jsval \<Rightarrow> usval" where
  "us_result (Wrapper w c) obj = (if c then chain_u (us_call (Plain obj)) else Plain obj)"
| "us_result (Plain v) obj = Plain obj"

fun us_value :: "usval \<Rightarrow> jsval" where
  "us_value (Wrapper w c) = w"
| "us_value (Plain v) = v"

text \<open>\<open>_.prototype[name]\<close> for a function \<open>func\<close> of the object that is mixed in.\<close>

definition mixin_method :: "jsval \<Rightarrow> 's fn \<Rightarrow> usval \<Rightarrow> jsval list \<Rightarrow> ('s, usval) js" where
  "mixin_method us func this args =
     bindM (func us (us_value this # args)) (\<lambda>r. retM (us_result this r))"

text \<open>The mutators of arrays on the elements, and the wrapper methods made from them.\<close>

definition default_gt :: "heap \<Rightarrow> jsval \<Rightarrow> jsval \<Rightarrow> bool" where
  "default_gt h a b \<longleftrightarrow> (if a = Undef then b \<noteq> Undef else b \<noteq> Undef \<and> to_str h b < to_str h a)"

definition splice_elems :: "heap \<Rightarrow> jsval list \<Rightarrow> jsval list \<Rightarrow> jsval list" where
  "splice_elems h args xs =
     (if args = [] then xs
      else (let start = clamp_index (length xs) (to_number h (arg args 0));
          count = (if length args = 1 then length xs - start
                   else (case norm0 (to_number h (arg args 1)) of
                       Fin k \<Rightarrow> min (nat k) (length xs - start) | PInf \<Rightarrow> length xs - start | _ \<Rightarrow> 0)) in
        take start xs @ drop 2 args @ drop (start + count) xs))"

definition array_mutate :: "string \<Rightarrow> heap \<Rightarrow> jsval list \<Rightarrow> jsval list \<Rightarrow> jsval list" where
  "array_mutate name h args xs =
     (if name = ''pop'' then butlast xs
      else if name = ''push'' then xs @ args
      else if name = ''reverse'' then rev xs
      else if name = ''shift'' then tl xs
      else if name = ''sort'' then js_sort (default_gt h) xs
      else if name = ''splice'' then splice_elems h args xs
      else if name = ''unshift'' then args @ xs
      else xs)"

text \<open>A mutator on a wrapped array, the object at address \<open>r\<close>.\<close>

definition mutator_method :: "string \<Rightarrow> heap \<Rightarrow> nat \<Rightarrow> bool \<Rightarrow> jsval list \<Rightarrow> heap \<times> usval" where
  "mutator_method name h r chained args =
     (h[r := (obj_at h r)\<lparr>elems := array_mutate name h args (elems (obj_at h r))\<rparr>],
      us_result (Wrapper (Ref r) chained) (Ref r))"

definition accessor_method :: "string \<Rightarrow> heap \<Rightarrow> usval \<Rightarrow> jsval list \<Rightarrow> ('s, usval) js" where
  "accessor_method name h this args =
     bindM (if name = ''concat'' then bindM (concat_args h [] (us_value this # args)) (\<lambda>xs. retM (Arr xs))
            else if name = ''join'' then bindM (liftE (arr_items h (us_value this))) (\<lambda>xs.
              retM (Str (join (if arg args 0 = Undef then '','' else to_str h (arg args 0))
                (map (\<lambda>x. if nullish x then [] else to_str h x) xs))))
            else bindM (slice_call h (us_value this) (to_number h (arg args 0))
                (if arg args 1 = Undef then PInf else to_number h (arg args 1))) (\<lambda>xs. retM (Arr xs)))
       (\<lambda>r. retM (us_result this r))"

section \<open>Escaping and unescaping\<close>

lemma rules_escape:
  "rules escapeMap = [(''&'', ''&amp;''), (''<'', ''&lt;''), (''>'', ''&gt;''),
     ([CHR 0x22], ''&quot;''), ([CHR 0x27], ''&#x27;''), ([CHR 0x60], ''&#x60;'')]"
  by (simp add: rules_def escapeMap_def pairs_u_def order_keys_def List.map_filter_def get_def lookup_prop_def)

lemma unescapeMap_eq:
  "unescapeMap = [(Name ''&amp;'', Str ''&''), (Name ''&lt;'', Str ''<''), (Name ''&gt;'', Str ''>''),
     (Name ''&quot;'', Str [CHR 0x22]), (Name ''&#x27;'', Str [CHR 0x27]), (Name ''&#x60;'', Str [CHR 0x60])]"
  by (simp add: unescapeMap_def escapeMap_def invert_u_def order_keys_def List.map_filter_def get_def
      lookup_prop_def str_key_def canonical_numeral_def is_digit_def)

lemma rules_unescape:
  "rules unescapeMap = [(''&amp;'', ''&''), (''&lt;'', ''<''), (''&gt;'', ''>''),
     (''&quot;'', [CHR 0x22]), (''&#x27;'', [CHR 0x27]), (''&#x60;'', [CHR 0x60])]"
  by (simp add: rules_def unescapeMap_eq pairs_u_def order_keys_def List.map_filter_def get_def lookup_prop_def)

lemma esc_test_replace: "\<not> esc_test rs s \<Longrightarrow> esc_replace rs s = s"
  by (induction s) (auto split: option.split)

lemma createEscaper_Str: "createEscaper mp h (Str s) = esc_replace (rules mp) s"
  by (auto simp: createEscaper_def esc_test_replace)

text \<open>The entity of a character.\<close>

definition entity :: "char \<Rightarrow> string" where
  "entity c = (if c = CHR ''&'' then ''&amp;'' else if c = CHR ''<'' then ''&lt;'' else if c = CHR ''>'' then ''&gt;''
     else if c = CHR 0x22 then ''&quot;'' else if c = CHR 0x27 then ''&#x27;'' else if c = CHR 0x60 then ''&#x60;''
     else [c])"

lemma esc_replace_entity: "esc_replace (rules escapeMap) s = concat (map entity s)"
  by (induction s) (simp_all add: rules_escape rule_at_def entity_def)

lemma unescape_entity:
  "esc_replace (rules unescapeMap) (entity c @ t) = c # esc_replace (rules unescapeMap) t"
  by (simp add: entity_def rules_unescape rule_at_def)

lemma unescape_concat: "esc_replace (rules unescapeMap) (concat (map entity s)) = s"
  by (induction s) (simp_all add: unescape_entity)

lemma entity_chars: "x \<in> set (entity c) \<Longrightarrow> x \<notin> {CHR ''<'', CHR ''>'', CHR 0x22, CHR 0x27, CHR 0x60}"
  by (auto simp: entity_def split: if_splits)

text \<open>
  C25. \<open>_.unescape\<close> inverts \<open>_.escape\<close> on every string, and an escaped string
  holds none of the characters that open or close markup or attribute values.
\<close>

theorem escape_roundtrip:
  "unescape_u h (Str (escape_u h (Str s))) = s
   \<and> set (escape_u h (Str s)) \<inter> {CHR ''<'', CHR ''>'', CHR 0x22, CHR 0x27, CHR 0x60} = {}"
  using entity_chars
  by (auto simp: escape_u_def unescape_u_def createEscaper_Str esc_replace_entity unescape_concat)

section \<open>Identifiers\<close>

lemma uniqueId_run:
  "mapM (\<lambda>_. uniqueId_u h pre) [0..<n] c
   = (Inr (map (\<lambda>i. (if truthy pre then to_str h pre else []) @ show_nat (c + i + 1)) [0..<n]), c + n)"
proof -
  have "mapM (\<lambda>_. uniqueId_u h pre) xs c
      = (Inr (map (\<lambda>i. (if truthy pre then to_str h pre else []) @ show_nat (c + i + 1)) [0..<length xs]), c + length xs)"
    for xs :: "nat list"
  proof (induction xs arbitrary: c)
    case (Cons x xs)
    then show ?case
      by (simp add: uniqueId_u_def js_simps modS_def getS_def Let_def upt_conv_Cons map_Suc_upt [symmetric] comp_def
          del: upt_Suc map_Suc_upt)
  qed (simp add: js_simps)
  from this [of "[0..<n]"] show ?thesis by simp
qed

text \<open>
  Successive calls of \<open>_.uniqueId\<close> with the same prefix return pairwise distinct
  identifiers, from any value of the counter, which grows by one with each call.
\<close>

theorem uniqueId_distinct:
  "\<exists>ids. mapM (\<lambda>_. uniqueId_u h pre) [0..<n] c = (Inr ids, c + n) \<and> length ids = n \<and> distinct ids
    \<and> (\<forall>s\<in>set ids. \<exists>k. s = (if truthy pre then to_str h pre else []) @ show_nat k)"
  by (auto simp: uniqueId_run distinct_map inj_on_def)

theorem uniqueId_distinct_witness:
  "\<exists>ids. mapM (\<lambda>_. uniqueId_u [] (Str ''c'')) [0..<3] 0 = (Inr ids, 3) \<and> distinct ids"
  using uniqueId_distinct [of "[]" "Str ''c''" 3 0] by auto

section \<open>Templates\<close>

text \<open>
  How JavaScript reads a string literal in single quotes, from after the opening quote: its
  value and what comes after the closing quote; \<open>None\<close> where the literal is broken.
\<close>

fun lit_decode :: "string \<Rightarrow> (string \<times> string) option" where
  "lit_decode [] = None"
| "lit_decode (c # cs) =
     (if c = CHR 0x27 then Some ([], cs)
      else if c = CHR 0x0A \<or> c = CHR 0x0D then None
      else if c = CHR 0x5C then (case cs of [] \<Rightarrow> None
        | d # ds \<Rightarrow> if d \<in> {CHR ''x'', CHR ''u'', CHR ''t'', CHR ''b'', CHR ''v'', CHR ''f''} \<or> is_digit d then None
          else map_option (\<lambda>(s, r). ((if d = CHR ''n'' then CHR 0x0A else if d = CHR ''r'' then CHR 0x0D else d) # s, r))
            (lit_decode ds))
      else map_option (\<lambda>(s, r). (c # s, r)) (lit_decode cs))"

lemma lit_decode_char:
  "lit_decode (escapeChar c @ rest) = map_option (\<lambda>(s, r). (c # s, r)) (lit_decode rest)"
  by (auto simp: escapeChar_def is_digit_def)

lemma lit_decode_text: "lit_decode (escape_text s @ CHR 0x27 # rest) = Some (s, rest)"
  unfolding escape_text_def by (induction s) (simp_all add: lit_decode_char)

text \<open>A template as a sequence of literal texts and tags, and its texts.\<close>

fun template_pieces :: "(string \<Rightarrow> (tag \<times> nat) option) \<Rightarrow> string \<Rightarrow> string \<Rightarrow> (string + tag) list" where
  "template_pieces m lit [] = [Inl lit]"
| "template_pieces m lit (c # cs) = (case m (c # cs) of
      Some (t, n) \<Rightarrow> Inl lit # Inr t # template_pieces m [] (drop n cs)
    | None \<Rightarrow> template_pieces m (lit @ [c]) cs)"

fun tag_text :: "tag \<Rightarrow> string" where
  "tag_text (Escape e) = ''<%-'' @ e @ ''%>''"
| "tag_text (Interpolate e) = ''<%='' @ e @ ''%>''"
| "tag_text (Evaluate e) = ''<%'' @ e @ ''%>''"

definition piece_text :: "string + tag \<Rightarrow> string" where
  "piece_text p = (case p of Inl s \<Rightarrow> s | Inr t \<Rightarrow> tag_text t)"

definition piece_code :: "string + tag \<Rightarrow> string" where
  "piece_code p = (case p of Inl s \<Rightarrow> escape_text s | Inr t \<Rightarrow> tag_code t)"

lemma find_close_spec: "find_close n cs = Some k \<Longrightarrow> n \<le> k \<and> take 2 (drop (k - n) cs) = ''%>''"
proof (induction n cs rule: find_close.induct)
  case (2 n c cs)
  show ?case
  proof (cases "take 2 (c # cs) = ''%>''")
    case False
    with "2" have "Suc n \<le> k" "take 2 (drop (k - Suc n) cs) = ''%>''" by auto
    then show ?thesis by (simp add: drop_Cons' Suc_diff_Suc)
  qed (use "2.prems" in auto)
qed simp

lemma delim_spec:
  assumes "delim opn mk s = Some (t, n)"
  shows "\<exists>e. t = mk e \<and> take (Suc n) s = opn @ e @ ''%>''"
proof -
  let ?rest = "drop (length opn) s"
  from assms obtain c cs k where k: "take (length opn) s = opn" "?rest = c # cs" "find_close 1 cs = Some k"
      "t = mk (take k ?rest)" "n = length opn + k + 1"
    by (auto simp: delim_def Let_def split: if_splits list.splits option.splits)
  from find_close_spec [OF k(3)] k(2) have "take 2 (drop k ?rest) = ''%>''"
    by (cases k) auto
  moreover have "Suc n = length opn + (k + 2)" using k(5) by simp
  then have "take (Suc n) s = take (length opn) s @ take k ?rest @ take 2 (drop k ?rest)"
    by (simp only: take_add)
  ultimately show ?thesis using k by auto
qed

lemma default_matcher_spec: "default_matcher s = Some (t, n) \<Longrightarrow> take (Suc n) s = tag_text t"
  by (auto simp: default_matcher_def split: option.splits dest!: delim_spec)

lemma pieces_text: "concat (map piece_text (template_pieces default_matcher lit text)) = lit @ text"
proof (induction default_matcher lit "text" rule: template_pieces.induct)
  case (2 lit c cs)
  show ?case
  proof (cases "default_matcher (c # cs)")
    case None
    with 2 show ?thesis by simp
  next
    case (Some tn)
    obtain t n where tn: "tn = (t, n)" by (cases tn)
    from default_matcher_spec Some tn have "tag_text t = c # take n cs" by fastforce
    with Some tn 2 show ?thesis by (simp add: piece_text_def)
  qed
qed (simp add: piece_text_def)

lemma scan_pieces: "template_scan m lit text = concat (map piece_code (template_pieces m lit text))"
  by (induction m lit "text" rule: template_pieces.induct) (auto simp: piece_code_def split: option.split)



section \<open>Chaining\<close>

text \<open>
  A chain of wrapped calls, ended by \<open>value\<close>, computes what calling the functions
  one after the other on the plain values computes, effects and exceptions included; without
  \<open>chain\<close> a wrapped call returns the function's result itself.
\<close>

theorem chain_is_composition:
  "bindM (foldM (\<lambda>w (f, args). mixin_method us f w args) (chain_u (Plain v)) calls) (\<lambda>w. retM (us_value w))
     = foldM (\<lambda>x (f, args). f us (x # args)) v calls
   \<and> mixin_method us f (us_call (Plain v)) args = bindM (f us (v # args)) (\<lambda>r. retM (Plain r))"
proof -
  have "bindM (foldM (\<lambda>w (f, args). mixin_method us f w args) (Wrapper v True) calls) (\<lambda>w. retM (us_value w))
      = foldM (\<lambda>x (f, args). f us (x # args)) v calls"
    by (induction calls arbitrary: v) (auto simp: mixin_method_def case_prod_unfold)
  then show ?thesis by (simp add: mixin_method_def)
qed

end
