(* ===== verification/Search_Stemmer.thy ===== *)
theory Search_Stemmer
  imports Underscore_Utility
begin

text \<open>
  The Porter stemmer of searchtools.js. Its measures of a word are regular expressions, run
  here by a small backtracking matcher; its suffix patterns \<open>^(.+?)(...)$\<close> are the
  shortest non-empty start of the word after which only a suffix of the list is left. Shown:
  a stem is never empty, never longer than the word, and starts with the same letter.
\<close>

section \<open>Regular expressions\<close>

datatype regex = Sat "char \<Rightarrow> bool" | Seq regex regex | Opt regex | Star regex | AtEnd

text \<open>
  The rests of the input after a match at its start, in the order in which backtracking
  tries them.
\<close>

function (sequential) rx :: "regex \<Rightarrow> string \<Rightarrow> string list" where
  "rx (Sat P) s = (case s of c # cs \<Rightarrow> if P c then [cs] else [] | [] \<Rightarrow> [])"
| "rx (Seq r q) s = concat (map (rx q) (rx r s))"
| "rx (Opt r) s = rx r s @ [s]"
| "rx (Star r) s = concat (map (\<lambda>t. if length t < length s then rx (Star r) t else []) (rx r s)) @ [s]"
| "rx AtEnd s = (if s = [] then [[]] else [])"
  by pat_completeness auto
termination
  by (relation "measures [\<lambda>(r, s). size r, \<lambda>(r, s). length s]") auto

definition rx_test :: "regex \<Rightarrow> string \<Rightarrow> bool" where
  "rx_test r s \<longleftrightarrow> rx r s \<noteq> []"

definition one_of :: "string \<Rightarrow> char \<Rightarrow> bool" where
  "one_of cs c \<longleftrightarrow> c \<in> set cs"

definition none_of :: "string \<Rightarrow> char \<Rightarrow> bool" where
  "none_of cs c \<longleftrightarrow> c \<notin> set cs"

section \<open>The patterns of the stemmer\<close>

definition re_v :: regex where "re_v = Sat (one_of ''aeiouy'')"

definition re_C :: regex where "re_C = Seq (Sat (none_of ''aeiou'')) (Star (Sat (none_of ''aeiouy'')))"

definition re_V :: regex where "re_V = Seq re_v (Star (Sat (one_of ''aeiou'')))"

definition mgr0 :: regex where "mgr0 = Seq (Opt re_C) (Seq re_V re_C)"

definition meq1 :: regex where "meq1 = Seq (Opt re_C) (Seq re_V (Seq re_C (Seq (Opt re_V) AtEnd)))"

definition mgr1 :: regex where "mgr1 = Seq (Opt re_C) (Seq re_V (Seq re_C (Seq re_V re_C)))"

definition s_v :: regex where "s_v = Seq (Opt re_C) re_v"

definition re_cvc :: regex where "re_cvc = Seq re_C (Seq re_v (Seq (Sat (none_of ''aeiouwxy'')) AtEnd))"

text \<open>The dot matches any character but a line end.\<close>

definition dot :: "char \<Rightarrow> bool" where
  "dot c \<longleftrightarrow> c \<noteq> CHR 0x0A \<and> c \<noteq> CHR 0x0D"

text \<open>\<open>^(.+?)T$\<close>, where \<open>T\<close> is given by the strings it matches.\<close>

definition lazy_split :: "(string \<Rightarrow> bool) \<Rightarrow> string \<Rightarrow> (string \<times> string) option" where
  "lazy_split tail w = map_option (\<lambda>n. (take n w, drop n w))
     (find (\<lambda>n. tail (drop n w) \<and> list_all dot (take n w)) [1..<Suc (length w)])"

text \<open>\<open>w.replace(/.$/, '')\<close>\<close>

definition drop_last :: "string \<Rightarrow> string" where
  "drop_last w = (if w \<noteq> [] \<and> dot (last w) then butlast w else w)"

definition ends_with :: "string list \<Rightarrow> string \<Rightarrow> bool" where
  "ends_with sufs w \<longleftrightarrow> (\<exists>suf\<in>set sufs. length suf \<le> length w \<and> drop (length w - length suf) w = suf)"

definition doubled :: "string \<Rightarrow> bool" where
  "doubled w \<longleftrightarrow> 2 \<le> length w \<and> last w = last (butlast w) \<and> none_of ''aeiouylsz'' (last w)"

definition step2list :: "(string \<times> string) list" where
  "step2list = [(''ational'', ''ate''), (''tional'', ''tion''), (''enci'', ''ence''), (''anci'', ''ance''),
     (''izer'', ''ize''), (''bli'', ''ble''), (''alli'', ''al''), (''entli'', ''ent''), (''eli'', ''e''),
     (''ousli'', ''ous''), (''ization'', ''ize''), (''ation'', ''ate''), (''ator'', ''ate''), (''alism'', ''al''),
     (''iveness'', ''ive''), (''fulness'', ''ful''), (''ousness'', ''ous''), (''aliti'', ''al''),
     (''iviti'', ''ive''), (''biliti'', ''ble''), (''logi'', ''log'')]"

definition step3list :: "(string \<times> string) list" where
  "step3list = [(''icate'', ''ic''), (''ative'', []), (''alize'', ''al''), (''iciti'', ''ic''), (''ical'', ''ic''),
     (''ful'', []), (''ness'', [])]"

definition step4list :: "string list" where
  "step4list = [''al'', ''ance'', ''ence'', ''er'', ''ic'', ''able'', ''ible'', ''ant'', ''ement'', ''ment'',
     ''ent'', ''ou'', ''ism'', ''ate'', ''iti'', ''ous'', ''ive'', ''ize'']"

section \<open>The steps\<close>

definition step1a :: "string \<Rightarrow> string" where
  "step1a w = (case lazy_split (\<lambda>t. t = ''sses'' \<or> t = ''ies'') w of
      Some (stem, sfx) \<Rightarrow> stem @ take (length sfx - 2) sfx
    | None \<Rightarrow> (case lazy_split (\<lambda>t. length t = 2 \<and> hd t \<noteq> CHR ''s'' \<and> last t = CHR ''s'') w of
        Some (stem, sfx) \<Rightarrow> stem @ [hd sfx]
      | None \<Rightarrow> w))"

definition step1b :: "string \<Rightarrow> string" where
  "step1b w = (case lazy_split (\<lambda>t. t = ''eed'') w of
      Some (stem, _) \<Rightarrow> if rx_test mgr0 stem then drop_last w else w
    | None \<Rightarrow> (case lazy_split (\<lambda>t. t = ''ed'' \<or> t = ''ing'') w of
        Some (stem, _) \<Rightarrow>
          if rx_test s_v stem then
            if ends_with [''at'', ''bl'', ''iz''] stem then stem @ ''e''
            else if doubled stem then drop_last stem
            else if rx_test re_cvc stem then stem @ ''e''
            else stem
          else w
      | None \<Rightarrow> w))"

definition step1c :: "string \<Rightarrow> string" where
  "step1c w = (case lazy_split (\<lambda>t. t = ''y'') w of
      Some (stem, _) \<Rightarrow> if rx_test s_v stem then stem @ ''i'' else w
    | None \<Rightarrow> w)"

text \<open>Steps 2 and 3: a suffix of a list is replaced when the stem has measure above zero.\<close>

definition step23 :: "(string \<times> string) list \<Rightarrow> string \<Rightarrow> string" where
  "step23 list w = (case lazy_split (\<lambda>t. t \<in> fst ` set list) w of
      Some (stem, sfx) \<Rightarrow> if rx_test mgr0 stem then stem @ the (map_of list sfx) else w
    | None \<Rightarrow> w)"

definition step4 :: "string \<Rightarrow> string" where
  "step4 w = (case lazy_split (\<lambda>t. t \<in> set step4list) w of
      Some (stem, _) \<Rightarrow> if rx_test mgr1 stem then stem else w
    | None \<Rightarrow> (case lazy_split (\<lambda>t. t = ''sion'' \<or> t = ''tion'') w of
        Some (stem1, sfx) \<Rightarrow> (let stem = stem1 @ [hd sfx] in if rx_test mgr1 stem then stem else w)
      | None \<Rightarrow> w))"

definition step5a :: "string \<Rightarrow> string" where
  "step5a w = (case lazy_split (\<lambda>t. t = ''e'') w of
      Some (stem, _) \<Rightarrow> if rx_test mgr1 stem \<or> (rx_test meq1 stem \<and> \<not> rx_test re_cvc stem) then stem else w
    | None \<Rightarrow> w)"

definition step5b :: "string \<Rightarrow> string" where
  "step5b w = (if ends_with [''ll''] w \<and> rx_test mgr1 w then drop_last w else w)"

definition stemWord :: "string \<Rightarrow> string" where
  "stemWord w0 =
     (if length w0 < 3 then w0
      else (let firstch = hd w0;
          w = (if firstch = CHR ''y'' then CHR ''Y'' # tl w0 else w0);
          w1 = step1c (step1b (step1a w));
          w2 = step4 (step23 step3list (step23 step2list w1));
          w3 = step5b (step5a w2) in
        if firstch = CHR ''y'' then CHR ''y'' # tl w3 else w3))"

section \<open>Every step shrinks\<close>

definition shrinks :: "string \<Rightarrow> string \<Rightarrow> bool" where
  "shrinks w w' \<longleftrightarrow> w' \<noteq> [] \<and> hd w' = hd w \<and> length w' \<le> length w"

lemma shrinks_refl: "w \<noteq> [] \<Longrightarrow> shrinks w w"
  by (simp add: shrinks_def)

lemma shrinks_trans: "shrinks a b \<Longrightarrow> shrinks b c \<Longrightarrow> shrinks a c"
  by (auto simp: shrinks_def)

lemma find_SomeD: "find P xs = Some x \<Longrightarrow> x \<in> set xs \<and> P x"
  by (induction xs) (auto split: if_splits)

lemma lazy_split_Some:
  assumes "lazy_split tail w = Some (stem, sfx)"
  shows "w = stem @ sfx \<and> tail sfx \<and> stem \<noteq> []"
proof -
  from assms obtain n where n: "find (\<lambda>n. tail (drop n w) \<and> list_all dot (take n w)) [1..<Suc (length w)] = Some n"
      "stem = take n w" "sfx = drop n w"
    by (auto simp: lazy_split_def)
  then have "n \<in> set [1..<Suc (length w)]" "tail (drop n w)"
    by (blast dest: find_SomeD)+
  with n show ?thesis by auto
qed

lemma shrinks_stem: "stem \<noteq> [] \<Longrightarrow> length s \<le> length sfx \<Longrightarrow> shrinks (stem @ sfx) (stem @ s)"
  by (simp add: shrinks_def)

lemma shrinks_drop_last: "2 \<le> length w \<Longrightarrow> shrinks w (drop_last w)"
  by (cases w; cases "tl w") (auto simp: shrinks_def drop_last_def)

lemma step1a_shrinks: "w \<noteq> [] \<Longrightarrow> shrinks w (step1a w)"
  by (auto simp: step1a_def shrinks_refl dest!: lazy_split_Some intro!: shrinks_stem split: option.split)

lemma step1b_shrinks:
  assumes "w \<noteq> []"
  shows "shrinks w (step1b w)"
proof (cases "lazy_split (\<lambda>t. t = ''eed'') w")
  case (Some p)
  then obtain stem suf where "lazy_split (\<lambda>t. t = ''eed'') w = Some (stem, suf)" by (cases p) auto
  moreover from lazy_split_Some [OF this] have "2 \<le> length w" by auto
  ultimately show ?thesis using assms by (simp add: step1b_def shrinks_refl shrinks_drop_last)
next
  case None
  note none = this
  show ?thesis
  proof (cases "lazy_split (\<lambda>t. t = ''ed'' \<or> t = ''ing'') w")
    case None
    with none assms show ?thesis by (simp add: step1b_def shrinks_refl)
  next
    case (Some p)
    then obtain stem suf where s: "lazy_split (\<lambda>t. t = ''ed'' \<or> t = ''ing'') w = Some (stem, suf)" by (cases p) auto
    from lazy_split_Some [OF s] have w: "w = stem @ suf" "stem \<noteq> []" "2 \<le> length suf" by auto
    then have "shrinks w stem" "shrinks w (stem @ ''e'')"
      using shrinks_stem [of stem "[]" suf] shrinks_stem [of stem "''e''" suf] by auto
    moreover have "shrinks w (drop_last stem)" if "doubled stem"
      using that shrinks_drop_last [of stem] \<open>shrinks w stem\<close> shrinks_trans by (auto simp: doubled_def)
    ultimately show ?thesis using none s assms by (simp add: step1b_def shrinks_refl)
  qed
qed

lemma step1c_shrinks: "w \<noteq> [] \<Longrightarrow> shrinks w (step1c w)"
  by (auto simp: step1c_def shrinks_refl dest!: lazy_split_Some intro!: shrinks_stem split: option.split)

lemma step23_shrinks:
  assumes "\<forall>(a, b)\<in>set list. length b \<le> length a" "w \<noteq> []"
  shows "shrinks w (step23 list w)"
proof (cases "lazy_split (\<lambda>t. t \<in> fst ` set list) w")
  case None
  with assms show ?thesis by (simp add: step23_def shrinks_refl)
next
  case (Some p)
  then obtain stem suf where s: "lazy_split (\<lambda>t. t \<in> fst ` set list) w = Some (stem, suf)" by (cases p) auto
  from lazy_split_Some [OF s] have w: "w = stem @ suf" "stem \<noteq> []" "suf \<in> fst ` set list" by auto
  then obtain b where b: "map_of list suf = Some b" by (metis map_of_eq_None_iff not_None_eq)
  with assms(1) have "length b \<le> length suf" by (auto dest: map_of_SomeD)
  with w s b assms(2) show ?thesis by (auto simp: step23_def shrinks_refl intro: shrinks_stem)
qed

lemma step4_shrinks: "w \<noteq> [] \<Longrightarrow> shrinks w (step4 w)"
  by (auto simp: step4_def shrinks_refl shrinks_def Let_def dest!: lazy_split_Some split: option.split)

lemma step5_shrinks: "w \<noteq> [] \<Longrightarrow> shrinks w (step5a w)" "w \<noteq> [] \<Longrightarrow> shrinks w (step5b w)"
  by (auto simp: step5a_def shrinks_refl shrinks_def dest!: lazy_split_Some split: option.split)[1]
    (auto simp: step5b_def shrinks_refl ends_with_def intro!: shrinks_drop_last)

lemma lists_shrink: "\<forall>(a, b)\<in>set step2list. length b \<le> length a" "\<forall>(a, b)\<in>set step3list. length b \<le> length a"
  by (simp_all add: step2list_def step3list_def)

lemma steps_shrink:
  assumes "w \<noteq> []"
  shows "shrinks w (step5b (step5a (step4 (step23 step3list (step23 step2list (step1c (step1b (step1a w))))))))"
proof -
  have ne: "shrinks a b \<Longrightarrow> b \<noteq> []" for a b by (simp add: shrinks_def)
  note s1 = step1a_shrinks [OF assms]
  note s2 = step1b_shrinks [OF ne [OF s1]]
  note s3 = step1c_shrinks [OF ne [OF s2]]
  note s4 = step23_shrinks [OF lists_shrink(1) ne [OF s3]]
  note s5 = step23_shrinks [OF lists_shrink(2) ne [OF s4]]
  note s6 = step4_shrinks [OF ne [OF s5]]
  note s7 = step5_shrinks(1) [OF ne [OF s6]]
  note s8 = step5_shrinks(2) [OF ne [OF s7]]
  from s1 s2 s3 s4 s5 s6 s7 s8 show ?thesis by (meson shrinks_trans)
qed

text \<open>
  C29. The stemmer terminates on every word; the stem of a non-empty word is not empty, is
  not longer than the word and starts with the word's first letter, so a query word never
  turns into the empty index key.
\<close>

theorem stemWord_bounds:
  assumes "w \<noteq> []"
  shows "stemWord w \<noteq> [] \<and> length (stemWord w) \<le> length w \<and> hd (stemWord w) = hd w"
proof (cases "length w < 3")
  case True
  with assms show ?thesis by (simp add: stemWord_def)
next
  case False
  let ?w = "if hd w = CHR ''y'' then CHR ''Y'' # tl w else w"
  from assms have "?w \<noteq> []" "length ?w = length w" by auto
  with steps_shrink [of ?w] False assms show ?thesis
    by (auto simp: stemWord_def Let_def shrinks_def)
qed

theorem stemWord_bounds_witness:
  "stemWord ''caresses'' \<noteq> [] \<and> length (stemWord ''caresses'') \<le> 8 \<and> stemWord ''caresses'' = ''caress''"
proof -
  have "stemWord ''caresses'' = ''caress''" by code_simp
  with stemWord_bounds [of "''caresses''"] show ?thesis by simp
qed

end
