(* ===== verification/Search_Query.thy ===== *)
theory Search_Query
  imports Search_Stemmer
begin

text \<open>
  The splitting of a query into words (searchtools.js). The table of separators is the
  source's, over all 16-bit character codes; a query is a list of characters of any type
  with a code, so that the theorems hold for full JavaScript strings.
\<close>

section \<open>The table of separators\<close>

definition singles :: "nat list" where
  "singles = [
     96, 180, 187, 191, 215, 247, 749, 885, 903, 907, 909, 930, 1014, 1648, 1748, 1809,
     2416, 2473, 2481, 2526, 2601, 2609, 2612, 2615, 2653, 2702, 2706, 2729, 2737, 2740, 2857, 2865,
     2868, 2910, 2928, 2948, 2961, 2971, 2973, 3085, 3089, 3113, 3124, 3213, 3217, 3241, 3252, 3295,
     3341, 3345, 3369, 3506, 3516, 3633, 3715, 3721, 3736, 3744, 3748, 3750, 3756, 3761, 3781, 3912,
     4239, 4347, 4681, 4695, 4697, 4745, 4785, 4799, 4801, 4823, 4881, 5760, 5901, 5997, 6313, 7405,
     8024, 8026, 8028, 8030, 8117, 8125, 8133, 8181, 8468, 8485, 8487, 8489, 8494, 8527, 11311, 11359,
     11687, 11695, 11703, 11711, 11719, 11727, 11735, 12448, 12539, 43010, 43014, 43019, 43587, 43696, 43713, 64286,
     64297, 64311, 64317, 64319, 64322, 64325, 65141]"

definition ranges :: "(nat \<times> nat) list" where
  "ranges = [
     (0, 47), (58, 64), (91, 94), (123, 169), (171, 177), (182, 184), (706, 709), (722, 735), (741, 747),
     (751, 879), (888, 889), (894, 901), (1154, 1161), (1318, 1328), (1367, 1368), (1370, 1376), (1416, 1487), (1515, 1519),
     (1523, 1568), (1611, 1631), (1642, 1645), (1750, 1764), (1767, 1773), (1789, 1790), (1792, 1807), (1840, 1868), (1958, 1968),
     (1970, 1983), (2027, 2035), (2038, 2041), (2043, 2047), (2070, 2073), (2075, 2083), (2085, 2087), (2089, 2307), (2362, 2364),
     (2366, 2383), (2385, 2391), (2402, 2405), (2419, 2424), (2432, 2436), (2445, 2446), (2449, 2450), (2483, 2485), (2490, 2492),
     (2494, 2509), (2511, 2523), (2530, 2533), (2546, 2547), (2554, 2564), (2571, 2574), (2577, 2578), (2618, 2648), (2655, 2661),
     (2672, 2673), (2677, 2692), (2746, 2748), (2750, 2767), (2769, 2783), (2786, 2789), (2800, 2820), (2829, 2830), (2833, 2834),
     (2874, 2876), (2878, 2907), (2914, 2917), (2930, 2946), (2955, 2957), (2966, 2968), (2976, 2978), (2981, 2983), (2987, 2989),
     (3002, 3023), (3025, 3045), (3059, 3076), (3130, 3132), (3134, 3159), (3162, 3167), (3170, 3173), (3184, 3191), (3199, 3204),
     (3258, 3260), (3262, 3293), (3298, 3301), (3312, 3332), (3386, 3388), (3390, 3423), (3426, 3429), (3446, 3449), (3456, 3460),
     (3479, 3481), (3518, 3519), (3527, 3584), (3636, 3647), (3655, 3663), (3674, 3712), (3717, 3718), (3723, 3724), (3726, 3731),
     (3752, 3753), (3764, 3772), (3774, 3775), (3783, 3791), (3802, 3803), (3806, 3839), (3841, 3871), (3892, 3903), (3949, 3975),
     (3980, 4095), (4139, 4158), (4170, 4175), (4182, 4185), (4190, 4192), (4194, 4196), (4199, 4205), (4209, 4212), (4226, 4237),
     (4250, 4255), (4294, 4303), (4349, 4351), (4686, 4687), (4702, 4703), (4750, 4751), (4790, 4791), (4806, 4807), (4886, 4887),
     (4955, 4968), (4989, 4991), (5008, 5023), (5109, 5120), (5741, 5742), (5787, 5791), (5867, 5869), (5873, 5887), (5906, 5919),
     (5938, 5951), (5970, 5983), (6001, 6015), (6068, 6102), (6104, 6107), (6109, 6111), (6122, 6127), (6138, 6159), (6170, 6175),
     (6264, 6271), (6315, 6319), (6390, 6399), (6429, 6469), (6510, 6511), (6517, 6527), (6572, 6592), (6600, 6607), (6619, 6655),
     (6679, 6687), (6741, 6783), (6794, 6799), (6810, 6822), (6824, 6916), (6964, 6980), (6988, 6991), (7002, 7042), (7073, 7085),
     (7098, 7167), (7204, 7231), (7242, 7244), (7294, 7400), (7410, 7423), (7616, 7679), (7958, 7959), (7966, 7967), (8006, 8007),
     (8014, 8015), (8062, 8063), (8127, 8129), (8141, 8143), (8148, 8149), (8156, 8159), (8173, 8177), (8189, 8303), (8306, 8307),
     (8314, 8318), (8330, 8335), (8341, 8449), (8451, 8454), (8456, 8457), (8470, 8472), (8478, 8483), (8506, 8507), (8512, 8516),
     (8522, 8525), (8586, 9311), (9372, 9449), (9472, 10101), (10132, 11263), (11493, 11498), (11503, 11516), (11518, 11519), (11558, 11567),
     (11622, 11630), (11632, 11647), (11671, 11679), (11743, 11822), (11824, 12292), (12296, 12320), (12330, 12336), (12342, 12343), (12349, 12352),
     (12439, 12444), (12544, 12548), (12590, 12592), (12687, 12689), (12694, 12703), (12728, 12783), (12800, 12831), (12842, 12880), (12896, 12927),
     (12938, 12976), (12992, 13311), (19894, 19967), (40908, 40959), (42125, 42191), (42238, 42239), (42509, 42511), (42540, 42559), (42592, 42593),
     (42607, 42622), (42648, 42655), (42736, 42774), (42784, 42785), (42889, 42890), (42893, 43002), (43043, 43055), (43062, 43071), (43124, 43137),
     (43188, 43215), (43226, 43249), (43256, 43258), (43260, 43263), (43302, 43311), (43335, 43359), (43389, 43395), (43443, 43470), (43482, 43519),
     (43561, 43583), (43596, 43599), (43610, 43615), (43639, 43641), (43643, 43647), (43698, 43700), (43703, 43704), (43710, 43711), (43715, 43738),
     (43742, 43967), (44003, 44015), (44026, 44031), (55204, 55215), (55239, 55242), (55292, 55295), (57344, 63743), (64046, 64047), (64110, 64111),
     (64218, 64255), (64263, 64274), (64280, 64284), (64434, 64466), (64830, 64847), (64912, 64913), (64968, 65007), (65020, 65135), (65277, 65295),
     (65306, 65312), (65339, 65344), (65371, 65381), (65471, 65473), (65480, 65481), (65488, 65489), (65496, 65497)]"

definition splitChars :: "nat \<Rightarrow> bool" where
  "splitChars n \<longleftrightarrow> n \<in> set singles \<or> (\<exists>(start, stop)\<in>set ranges. start \<le> n \<and> n \<le> stop)"

section \<open>Splitting\<close>

text \<open>One pass of the loop: the words so far, and where the current word starts.\<close>

definition split_step ::
  "('c \<Rightarrow> nat) \<Rightarrow> 'c list \<Rightarrow> 'c list list \<times> nat option \<Rightarrow> nat \<Rightarrow> 'c list list \<times> nat option" where
  "split_step code query = (\<lambda>(result, start) i.
     if splitChars (code (query ! i)) then
       (case start of Some s \<Rightarrow> (result @ [take (i - s) (drop s query)], None) | None \<Rightarrow> (result, None))
     else (case start of None \<Rightarrow> (result, Some i) | Some s \<Rightarrow> (result, Some s)))"

definition splitQuery :: "('c \<Rightarrow> nat) \<Rightarrow> 'c list \<Rightarrow> 'c list list" where
  "splitQuery code query =
     (case foldl (split_step code query) ([], None) [0..<length query] of
        (result, None) \<Rightarrow> result
      | (result, Some s) \<Rightarrow> result @ [drop s query])"

section \<open>What splitting computes\<close>

text \<open>The maximal runs of characters that are not separators.\<close>

function (sequential) tokens :: "('c \<Rightarrow> bool) \<Rightarrow> 'c list \<Rightarrow> 'c list list" where
  "tokens sep [] = []"
| "tokens sep (c # cs) = (if sep c then tokens sep cs
     else (c # takeWhile (\<lambda>x. \<not> sep x) cs) # tokens sep (dropWhile (\<lambda>x. \<not> sep x) cs))"
  by pat_completeness auto
termination
  by (relation "measure (\<lambda>(sep, cs). length cs)") (auto simp: le_imp_less_Suc length_dropWhile_le)

lemma split_loop:
  fixes code :: "'c \<Rightarrow> nat"
  defines "sep \<equiv> \<lambda>c. splitChars (code c)"
  shows "i \<le> length query \<Longrightarrow> (\<forall>s. start = Some s \<longrightarrow> s \<le> i) \<Longrightarrow>
    (case foldl (split_step code query) (result, start) [i..<length query] of
        (result, None) \<Rightarrow> result | (result, Some s) \<Rightarrow> result @ [drop s query])
    = result @ (case start of None \<Rightarrow> tokens sep (drop i query)
        | Some s \<Rightarrow> (take (i - s) (drop s query) @ takeWhile (\<lambda>c. \<not> sep c) (drop i query))
            # tokens sep (dropWhile (\<lambda>c. \<not> sep c) (drop i query)))"
proof (induction "length query - i" arbitrary: i result start)
  case 0
  then show ?case by (auto split: option.split)
next
  case (Suc k)
  then have i: "i < length query" and k: "k = length query - Suc i" by auto
  from i have d: "drop i query = query ! i # drop (Suc i) query" by (simp add: Cons_nth_drop_Suc)
  from i have u: "[i..<length query] = i # [Suc i..<length query]" by (simp add: upt_conv_Cons)
  note IH = Suc.hyps(1) [OF k]
  show ?case
  proof (cases start)
    case None
    then show ?thesis
      using IH [of None result] IH [of "Some i" result] i d u
      by (simp add: split_step_def sep_def)
  next
    case (Some s)
    with Suc.prems have s: "s \<le> i" by simp
    with i have t: "take (Suc i - s) (drop s query) = take (i - s) (drop s query) @ [query ! i]"
      by (simp add: Suc_diff_le take_Suc_conv_app_nth)
    show ?thesis
      using IH [of None "result @ [take (i - s) (drop s query)]"] IH [of "Some s" result] i d u t s Some
      by (simp add: split_step_def sep_def)
  qed
qed

lemma splitQuery_tokens: "splitQuery code query = tokens (\<lambda>c. splitChars (code c)) query"
  using split_loop [of 0 query None code "[]"] by (simp add: splitQuery_def)

lemma tokens_words: "w \<in> set (tokens sep s) \<Longrightarrow> w \<noteq> [] \<and> (\<forall>c\<in>set w. \<not> sep c)"
proof (induction sep s rule: tokens.induct)
  case (2 sep c cs)
  show ?case
  proof (cases "sep c")
    case True
    with 2 show ?thesis by simp
  next
    case False
    with "2.prems" consider "w = c # takeWhile (\<lambda>x. \<not> sep x) cs"
      | "w \<in> set (tokens sep (dropWhile (\<lambda>x. \<not> sep x) cs))" by auto
    then show ?thesis
    proof cases
      case 1
      have "\<not> sep x" if "x \<in> set (takeWhile (\<lambda>x. \<not> sep x) cs)" for x using that set_takeWhileD by metis
      with 1 False show ?thesis by simp
    next
      case 2
      then show ?thesis by (rule "2.IH"(2) [OF False])
    qed
  qed
qed simp

lemma tokens_concat: "concat (tokens sep s) = filter (\<lambda>c. \<not> sep c) s"
proof (induction sep s rule: tokens.induct)
  case (2 sep c cs)
  have "filter (\<lambda>c. \<not> sep c) cs = takeWhile (\<lambda>c. \<not> sep c) cs @ filter (\<lambda>c. \<not> sep c) (dropWhile (\<lambda>c. \<not> sep c) cs)"
  proof -
    have "filter (\<lambda>c. \<not> sep c) (takeWhile (\<lambda>c. \<not> sep c) cs) = takeWhile (\<lambda>c. \<not> sep c) cs"
      by (rule filter_True) (blast dest: set_takeWhileD)
    then show ?thesis by (subst takeWhile_dropWhile_id [where P = "\<lambda>c. \<not> sep c" and xs = cs, symmetric]) (simp only: filter_append)
  qed
  with 2 show ?case by simp
qed simp

text \<open>
  C30. The loop of \<open>splitQuery\<close>, which tracks where a word starts, computes the maximal
  runs of non-separators of the query, for any query over 16-bit characters: no word is empty
  or holds a separator, and no other character is lost. In particular a word never starts with
  a hyphen, which is a separator.
\<close>

theorem splitQuery_maximal_runs:
  "splitQuery code query = tokens (\<lambda>c. splitChars (code c)) query
   \<and> concat (splitQuery code query) = filter (\<lambda>c. \<not> splitChars (code c)) query
   \<and> (\<forall>w\<in>set (splitQuery code query). w \<noteq> [] \<and> (\<forall>c\<in>set w. \<not> splitChars (code c)) \<and> code (hd w) \<noteq> 45)"
proof -
  have "(0, 47) \<in> set ranges" by (simp add: ranges_def)
  then have "splitChars 45" unfolding splitChars_def by force
  then show ?thesis
    unfolding splitQuery_tokens tokens_concat using tokens_words by (fastforce dest: list.set_sel(1))
qed

theorem splitQuery_maximal_runs_witness:
  "\<not> splitChars (of_char (CHR ''m'')) \<and> splitChars (of_char (CHR ''-''))
   \<and> concat (splitQuery of_char ''m-'') = ''m''"
proof -
  have "(0, 47) \<in> set ranges" by (simp add: ranges_def)
  then have "splitChars 45" unfolding splitChars_def by force
  moreover have "\<not> splitChars 109" by (simp add: splitChars_def singles_def ranges_def)
  ultimately show ?thesis
    using splitQuery_maximal_runs [of of_char "''m-''"] by simp
qed

end
