(* ===== verification/Doctools.thy ===== *)
theory Doctools
  imports Search_Query
begin

text \<open>
  The Sphinx page utilities (doctools.js): decoding of the query string, highlighting of
  words in the document tree, browser detection, translations and navigation. Shown: the
  query parameters survive encoding and decoding (except for plus signs), highlighting
  never changes the text of the page, and translations are found after they are added.
\<close>

section \<open>Strings\<close>

definition lower_char :: "char \<Rightarrow> char" where
  "lower_char c = (let n = of_char c :: nat in
     if 65 \<le> n \<and> n \<le> 90 \<or> 192 \<le> n \<and> n \<le> 222 \<and> n \<noteq> 215 then char_of (n + 32) else c)"

definition toLowerCase :: "string \<Rightarrow> string" where
  "toLowerCase = map lower_char"

text \<open>\<open>s.indexOf(t)\<close>\<close>

fun index_from :: "nat \<Rightarrow> string \<Rightarrow> string \<Rightarrow> int" where
  "index_from i t [] = (if t = [] then int i else -1)"
| "index_from i t (c # cs) = (if take (length t) (c # cs) = t then int i else index_from (Suc i) t cs)"

definition indexOf_str :: "string \<Rightarrow> string \<Rightarrow> int" where
  "indexOf_str s t = index_from 0 t s"

text \<open>\<open>s.split(sep)\<close> for a separator of one character\<close>

fun split_on :: "char \<Rightarrow> string \<Rightarrow> string list" where
  "split_on sep [] = [[]]"
| "split_on sep (c # cs) = (if c = sep then [] # split_on sep cs
     else (case split_on sep cs of [] \<Rightarrow> [[c]] | w # ws \<Rightarrow> (c # w) # ws))"

section \<open>URL encoding\<close>

text \<open>
  \<open>encodeURIComponent\<close> and \<open>decodeURIComponent\<close> on characters below 256, whose
  UTF-8 encodings have one or two bytes; \<open>None\<close> is the URIError.
\<close>

definition unreserved :: "char \<Rightarrow> bool" where
  "unreserved c \<longleftrightarrow> (let n = of_char c :: nat in is_digit c \<or> 65 \<le> n \<and> n \<le> 90 \<or> 97 \<le> n \<and> n \<le> 122)
     \<or> c \<in> set (''-_.!~*()'' @ [CHR 0x27])"

definition hex_digit :: "nat \<Rightarrow> char" where
  "hex_digit d = ''0123456789ABCDEF'' ! d"

definition percent :: "nat \<Rightarrow> string" where
  "percent b = [CHR ''%'', hex_digit (b div 16), hex_digit (b mod 16)]"

definition encode_char :: "char \<Rightarrow> string" where
  "encode_char c = (let n = of_char c in
     if unreserved c then [c]
     else if n < 128 then percent n
     else percent (192 + n div 64) @ percent (128 + n mod 64))"

definition encodeURIComponent :: "string \<Rightarrow> string" where
  "encodeURIComponent s = concat (map encode_char s)"

definition hex_val :: "char \<Rightarrow> nat option" where
  "hex_val c = (let n = of_char c :: nat in
     if is_digit c then Some (n - 48)
     else if 65 \<le> n \<and> n \<le> 70 then Some (n - 55)
     else if 97 \<le> n \<and> n \<le> 102 then Some (n - 87)
     else None)"

definition read_byte :: "string \<Rightarrow> (nat \<times> string) option" where
  "read_byte s = (case s of p # a # b # rest \<Rightarrow>
      (if p = CHR ''%'' then (case (hex_val a, hex_val b) of
          (Some x, Some y) \<Rightarrow> Some (16 * x + y, rest) | _ \<Rightarrow> None) else None)
    | _ \<Rightarrow> None)"

text \<open>The next character of an encoded string and the rest.\<close>

definition decode_next :: "string \<Rightarrow> (char \<times> string) option" where
  "decode_next s = (case s of [] \<Rightarrow> None | c # cs \<Rightarrow>
     if c \<noteq> CHR ''%'' then Some (c, cs)
     else (case read_byte s of None \<Rightarrow> None | Some (b, rest) \<Rightarrow>
       if b < 128 then Some (char_of b, rest)
       else (case read_byte rest of None \<Rightarrow> None | Some (b2, rest2) \<Rightarrow>
         if (b = 194 \<or> b = 195) \<and> 128 \<le> b2 \<and> b2 < 192
         then Some (char_of ((b - 192) * 64 + (b2 - 128)), rest2) else None)))"

fun decode_n :: "nat \<Rightarrow> string \<Rightarrow> string option" where
  "decode_n n [] = Some []"
| "decode_n 0 s = None"
| "decode_n (Suc n) s = (case decode_next s of None \<Rightarrow> None
     | Some (c, rest) \<Rightarrow> map_option (\<lambda>t. c # t) (decode_n n rest))"

text \<open>Every character takes at least one off the input, so its length is enough fuel.\<close>

definition decodeURIComponent :: "string \<Rightarrow> string option" where
  "decodeURIComponent s = decode_n (length s) s"

definition urldecode :: "string \<Rightarrow> string option" where
  "urldecode x = map_option (map (\<lambda>c. if c = CHR ''+'' then CHR '' '' else c)) (decodeURIComponent x)"

definition urlencode :: "string \<Rightarrow> string" where
  "urlencode = encodeURIComponent"

section \<open>Query parameters\<close>

text \<open>\<open>part.split('=', 2)\<close>: at most two pieces; what a second \<open>=\<close> separates is dropped.\<close>

definition split_pair :: "string \<Rightarrow> string \<times> string option" where
  "split_pair part = (let ps = take 2 (split_on (CHR ''='') part) in
     (hd ps, if length ps < 2 then None else Some (ps ! 1)))"

definition add_param :: "heap \<Rightarrow> props \<Rightarrow> string \<Rightarrow> jsexn + props" where
  "add_param h result part =
     (case split_pair part of (k0, v0) \<Rightarrow>
      (case (urldecode k0, urldecode (case v0 of Some v \<Rightarrow> v | None \<Rightarrow> ''undefined'')) of
         (Some key, Some v) \<Rightarrow>
           (if has_prop h (PObj result) (str_key key) then
              (case map_of result (str_key key) of
                 Some (Arr vs) \<Rightarrow> Inr (put (str_key key) (Arr (vs @ [Str v])) result)
               | _ \<Rightarrow> Inl (TypeErr ''result[key].push is not a function''))
            else Inr (put (str_key key) (Arr [Str v]) result))
       | _ \<Rightarrow> Inl (Thrown (Str ''URI malformed''))))"

fun add_params :: "heap \<Rightarrow> props \<Rightarrow> string list \<Rightarrow> jsexn + props" where
  "add_params h result [] = Inr result"
| "add_params h result (p # ps) = (case add_param h result p of Inl e \<Rightarrow> Inl e
     | Inr result' \<Rightarrow> add_params h result' ps)"

definition getQueryParameters :: "heap \<Rightarrow> string \<Rightarrow> jsexn + props" where
  "getQueryParameters h s =
     add_params h [] (split_on (CHR ''&'') (drop (nat (indexOf_str s ''?'' + 1)) s))"

section \<open>Highlighting\<close>

text \<open>The document tree: text, and elements with tag name and class names.\<close>

datatype node = TextNode string | Element string "string list" "node list"

definition skipped :: "string \<Rightarrow> bool" where
  "skipped tag \<longleftrightarrow> tag \<in> {''button'', ''select'', ''textarea''}"

text \<open>
  The nodes a text node is replaced by: the text before the match, a span, the text after.
\<close>

definition split_text :: "string \<Rightarrow> string \<Rightarrow> string \<Rightarrow> nat \<Rightarrow> node list" where
  "split_text className word val pos =
     [TextNode (take pos val),
      Element ''span'' [className] [TextNode (take (length word) (drop pos val))],
      TextNode (drop (pos + length word) val)]"

text \<open>
  \<open>highlight\<close> of the children of an element: \<open>jQuery.each\<close> reads the number of
  children once, before the loop, and visits the live list of children by index, so the nodes
  that a match inserts count as visited children. \<open>depth\<close> bounds the nesting.
\<close>

fun highlight :: "nat \<Rightarrow> string \<Rightarrow> string \<Rightarrow> node \<Rightarrow> node"
  and highlight_children :: "nat \<Rightarrow> string \<Rightarrow> string \<Rightarrow> string list \<Rightarrow> nat \<Rightarrow> node list \<Rightarrow> node list" where
  "highlight 0 word className n = n"
| "highlight (Suc depth) word className (TextNode t) = TextNode t"
| "highlight (Suc depth) word className (Element tag classes cs) =
     (if skipped tag then Element tag classes cs
      else Element tag classes (highlight_children depth word className classes (length cs) cs))"
| "highlight_children depth word className classes 0 ns = ns"
| "highlight_children depth word className classes (Suc k) [] = []"
| "highlight_children depth word className classes (Suc k) (n # ns) =
     (case n of
        TextNode val \<Rightarrow> (let pos = indexOf_str (toLowerCase val) word in
          if pos \<ge> 0 \<and> className \<notin> set classes then
            (case split_text className word val (nat pos) of
               m # ms \<Rightarrow> m # highlight_children depth word className classes k (ms @ ns)
             | [] \<Rightarrow> ns)
          else n # highlight_children depth word className classes k ns)
      | Element tag cl cs \<Rightarrow>
          highlight depth word className n # highlight_children depth word className classes k ns)"

section \<open>Browser detection\<close>

definition word_char :: "char \<Rightarrow> bool" where
  "word_char c \<longleftrightarrow> (let n = of_char c :: nat in
     is_digit c \<or> 65 \<le> n \<and> n \<le> 90 \<or> 97 \<le> n \<and> n \<le> 122 \<or> c = CHR ''_'')"

text \<open>\<open>([\w.]+)\<close> at the start of a string\<close>

definition version_at :: "string \<Rightarrow> string option" where
  "version_at s = (let v = takeWhile (\<lambda>c. word_char c \<or> c = CHR ''.'') s in if v = [] then None else Some v)"

definition sep_version :: "string \<Rightarrow> string option" where
  "sep_version s = (case s of c # cs \<Rightarrow> if c = CHR '' '' \<or> c = CHR ''/'' then version_at cs else None | [] \<Rightarrow> None)"

definition starts :: "string \<Rightarrow> string \<Rightarrow> string option" where
  "starts p s = (if take (length p) s = p then Some (drop (length p) s) else None)"

text \<open>The first position of a string at which a match succeeds.\<close>

fun scan :: "(string \<Rightarrow> 'a option) \<Rightarrow> string \<Rightarrow> 'a option" where
  "scan f [] = f []"
| "scan f (c # cs) = (case f (c # cs) of Some x \<Rightarrow> Some x | None \<Rightarrow> scan f cs)"

text \<open>The last position on the line at which a match succeeds (\<open>.*\<close> is greedy).\<close>

fun scan_last :: "(string \<Rightarrow> 'a option) \<Rightarrow> string \<Rightarrow> 'a option" where
  "scan_last f [] = f []"
| "scan_last f (c # cs) = (case (if dot c then scan_last f cs else None) of Some x \<Rightarrow> Some x | None \<Rightarrow> f (c # cs))"

fun scan_line :: "(string \<Rightarrow> 'a option) \<Rightarrow> string \<Rightarrow> 'a option" where
  "scan_line f [] = f []"
| "scan_line f (c # cs) = (case f (c # cs) of Some x \<Rightarrow> Some x | None \<Rightarrow> if dot c then scan_line f cs else None)"

definition named :: "string \<Rightarrow> (string \<Rightarrow> string option) \<Rightarrow> string \<Rightarrow> (string \<times> string) option" where
  "named name k s = (case starts name s of None \<Rightarrow> None
     | Some rest \<Rightarrow> map_option (\<lambda>v. (name, v)) (k rest))"

definition alt :: "'a option \<Rightarrow> 'a option \<Rightarrow> 'a option" where
  "alt a b = (case a of Some x \<Rightarrow> Some x | None \<Rightarrow> b)"

definition opera_version :: "string \<Rightarrow> string option" where
  "opera_version s = alt (scan_last (\<lambda>t. case starts ''version'' t of Some r \<Rightarrow> sep_version r | None \<Rightarrow> None) s)
     (sep_version s)"

definition msie_version :: "string \<Rightarrow> string option" where
  "msie_version s = (case s of c # cs \<Rightarrow> if c = CHR '' '' then version_at cs else None | [] \<Rightarrow> None)"

definition mozilla_version :: "string \<Rightarrow> string option" where
  "mozilla_version s = alt (scan_line (\<lambda>t. case starts '' rv:'' t of Some r \<Rightarrow> version_at r | None \<Rightarrow> None) s)
     (Some ''0'')"

definition uaMatch :: "string \<Rightarrow> string \<times> string" where
  "uaMatch ua0 = (let ua = toLowerCase ua0 in
     case alt (scan (named ''chrome'' sep_version) ua)
       (alt (scan (named ''webkit'' sep_version) ua)
       (alt (scan (named ''opera'' opera_version) ua)
       (alt (scan (named ''msie'' msie_version) ua)
       (if indexOf_str ua ''compatible'' < 0 then scan (named ''mozilla'' mozilla_version) ua else None)))) of
       Some m \<Rightarrow> m | None \<Rightarrow> ([], ''0''))"

section \<open>Translations\<close>

record catalog =
  TRANSLATIONS :: props
  PLURAL_EXPR :: "int \<Rightarrow> nat"
  LOCALE :: string

definition doc_init :: catalog where
  "doc_init = \<lparr>TRANSLATIONS = [], PLURAL_EXPR = (\<lambda>n. if n = 1 then 0 else 1), LOCALE = ''unknown''\<rparr>"

definition gettext :: "heap \<Rightarrow> catalog \<Rightarrow> string \<Rightarrow> jsval" where
  "gettext h cat s = (let translated = get h (PObj (TRANSLATIONS cat)) (str_key s) in
     if typeof h translated = ''undefined'' then Str s
     else if typeof h translated = ''string'' then translated
     else get h translated (Idx 0))"

text \<open>\<open>Documentation.PLURALEXPR\<close> is not defined (the property is \<open>PLURAL_EXPR\<close>).\<close>

definition ngettext :: "heap \<Rightarrow> catalog \<Rightarrow> string \<Rightarrow> string \<Rightarrow> int \<Rightarrow> jsexn + jsval" where
  "ngettext h cat singular plural n =
     (if typeof h (get h (PObj (TRANSLATIONS cat)) (str_key singular)) = ''undefined''
      then Inr (Str (if n = 1 then singular else plural))
      else Inl (TypeErr ''Documentation.PLURALEXPR is not a function''))"

definition addTranslations :: "heap \<Rightarrow> props \<Rightarrow> (int \<Rightarrow> nat) \<Rightarrow> string \<Rightarrow> catalog \<Rightarrow> catalog" where
  "addTranslations h messages plural_expr locale cat =
     cat\<lparr>TRANSLATIONS := foldl (\<lambda>ts k. put k (get h (PObj messages) k) ts) (TRANSLATIONS cat) (for_in h (PObj messages)),
         PLURAL_EXPR := plural_expr, LOCALE := locale\<rparr>"

section \<open>Pages\<close>

text \<open>\<open>split(/\s+/)\<close>: runs of white space separate; a string that starts or ends with one
  has an empty piece there.\<close>

fun split_spaces :: "string \<Rightarrow> bool \<Rightarrow> string \<Rightarrow> string list" where
  "split_spaces acc inspace [] = [rev acc]"
| "split_spaces acc inspace (c # cs) =
     (if is_space c then (if inspace then split_spaces acc True cs else rev acc # split_spaces [] True cs)
      else split_spaces (c # acc) False cs)"

definition highlight_terms :: "props \<Rightarrow> string list" where
  "highlight_terms params = (case map_of params (Name ''highlight'') of
      Some (Arr (Str s # _)) \<Rightarrow> split_spaces [] False s
    | _ \<Rightarrow> [])"

definition highlightSearchWords :: "nat \<Rightarrow> props \<Rightarrow> node \<Rightarrow> node" where
  "highlightSearchWords depth params body =
     foldl (\<lambda>b t. highlight depth (toLowerCase t) ''highlighted'' b) body (highlight_terms params)"

fun remove_class :: "string \<Rightarrow> node \<Rightarrow> node" where
  "remove_class cn (TextNode t) = TextNode t"
| "remove_class cn (Element tag classes cs) =
     Element tag (if tag = ''span'' then filter (\<lambda>c. c \<noteq> cn) classes else classes) (map (remove_class cn) cs)"

definition hideSearchWords :: "node \<Rightarrow> node" where
  "hideSearchWords = remove_class ''highlighted''"

text \<open>The click on a toggler of the index table: the new image.\<close>

definition toggle_src :: "string \<Rightarrow> string" where
  "toggle_src src = (if drop (length src - 9) src = ''minus.png''
     then take (length src - 9) src @ ''plus.png''
     else take (length src - 8) src @ ''minus.png'')"

definition makeURL :: "string \<Rightarrow> string \<Rightarrow> string" where
  "makeURL URL_ROOT relativeURL = URL_ROOT @ ''/'' @ relativeURL"

fun last_index :: "char \<Rightarrow> string \<Rightarrow> nat \<Rightarrow> int \<Rightarrow> int" where
  "last_index c [] i r = r"
| "last_index c (x # xs) i r = last_index c xs (Suc i) (if x = c then int i else r)"

definition substring :: "string \<Rightarrow> int \<Rightarrow> int \<Rightarrow> string" where
  "substring s a b = (let lo = min (max 0 a) (max 0 b); hi = max (max 0 a) (max 0 b) in
     take (nat hi - nat lo) (drop (nat lo) s))"

definition getCurrentURL :: "string \<Rightarrow> string \<Rightarrow> string" where
  "getCurrentURL URL_ROOT path =
     (let parts = foldl (\<lambda>ps d. if d = ''..'' then butlast ps else ps) (split_on (CHR ''/'') path)
            (split_on (CHR ''/'') URL_ROOT);
          url = join ''/'' parts in
      substring path (last_index (CHR ''/'') url 0 (-1) + 1) (int (length path) - 1))"

text \<open>
  The key listener: the page it goes to. Without a previous page, the case for the left arrow
  falls through to the one for the right arrow.
\<close>

definition keyup :: "string \<Rightarrow> nat \<Rightarrow> string option \<Rightarrow> string option \<Rightarrow> string option" where
  "keyup activeElementType keyCode prevHref nextHref =
     (if activeElementType \<notin> {''TEXTAREA'', ''INPUT'', ''SELECT''} then
        (if keyCode = 37 \<and> prevHref \<noteq> None \<and> prevHref \<noteq> Some [] then prevHref
         else if keyCode = 37 \<or> keyCode = 39 then (if nextHref = Some [] then None else nextHref)
         else None)
      else None)"

section \<open>Encoding and decoding\<close>

lemma less_16_cases: "(d::nat) < 16 \<Longrightarrow> d \<in> {0, 1, 2, 3, 4, 5, 6, 7, 8, 9, 10, 11, 12, 13, 14, 15}"
  by (simp only: insert_iff empty_iff) presburger

lemma hex_val_digit: "d < 16 \<Longrightarrow> hex_val (hex_digit d) = Some d"
  by (drule less_16_cases) (auto simp: hex_val_def hex_digit_def is_digit_def)

lemma read_byte_percent: "b < 256 \<Longrightarrow> read_byte (percent b @ rest) = Some (b, rest)"
  by (simp add: read_byte_def percent_def hex_val_digit)

lemma percent_Cons: "\<exists>t. percent b @ rest = CHR ''%'' # t"
  by (simp add: percent_def)

lemma decode_next_encode: "decode_next (encode_char c @ rest) = Some (c, rest)"
proof -
  let ?n = "of_char c :: nat"
  have n: "?n < 256" by simp
  show ?thesis
  proof (cases "unreserved c")
    case True
    moreover have "\<not> unreserved (CHR ''%'')" by (simp add: unreserved_def is_digit_def Let_def)
    ultimately show ?thesis by (auto simp: encode_char_def decode_next_def)
  next
    case nu: False
    show ?thesis
    proof (cases "?n < 128")
      case True
      with nu have e: "encode_char c = percent ?n" by (simp add: encode_char_def)
      have "char_of ?n = c" by simp
      with True read_byte_percent [OF n, of rest] show ?thesis
        using percent_Cons [of ?n rest] by (auto simp: e decode_next_def)
    next
      case False
      with nu have e: "encode_char c @ rest = percent (192 + ?n div 64) @ (percent (128 + ?n mod 64) @ rest)"
        by (simp add: encode_char_def Let_def)
      from False n have d: "192 + ?n div 64 = 194 \<or> 192 + ?n div 64 = 195" by linarith
      have r1: "read_byte (encode_char c @ rest) = Some (192 + ?n div 64, percent (128 + ?n mod 64) @ rest)"
        unfolding e using d by (intro read_byte_percent) linarith
      have r2: "read_byte (percent (128 + ?n mod 64) @ rest) = Some (128 + ?n mod 64, rest)"
        using mod_less_divisor [of 64 ?n] by (intro read_byte_percent) linarith
      have "?n div 64 * 64 + ?n mod 64 = ?n" by simp
      then have "?n div 64 = 2 \<Longrightarrow> 128 + ?n mod 64 = ?n" "?n div 64 = 3 \<Longrightarrow> 192 + ?n mod 64 = ?n" by linarith+
      then have "?n div 64 = 2 \<Longrightarrow> char_of (128 + ?n mod 64) = c" "?n div 64 = 3 \<Longrightarrow> char_of (192 + ?n mod 64) = c"
        by simp_all
      moreover have "128 + ?n mod 64 < 192" by simp
      ultimately show ?thesis using d r1 r2 percent_Cons [of "192 + ?n div 64" "percent (128 + ?n mod 64) @ rest"]
        unfolding decode_next_def e by auto
    qed
  qed
qed

lemma encode_char_ne: "encode_char c \<noteq> []"
  by (simp add: encode_char_def Let_def percent_def)

lemma length_encode: "length s \<le> length (encodeURIComponent s)"
proof (induction s)
  case (Cons c s)
  have "1 \<le> length (encode_char c)" using encode_char_ne [of c] by (simp add: Suc_le_eq)
  with Cons show ?case by (simp add: encodeURIComponent_def)
qed simp

lemma decode_n_encode: "length s \<le> n \<Longrightarrow> decode_n n (encodeURIComponent s) = Some s"
proof (induction s arbitrary: n)
  case (Cons c s)
  then obtain m where m: "n = Suc m" "length s \<le> m" by (cases n) auto
  have e: "encodeURIComponent (c # s) = encode_char c @ encodeURIComponent s" by (simp add: encodeURIComponent_def)
  obtain x xs where x: "encode_char c @ encodeURIComponent s = x # xs"
    using encode_char_ne [of c] by (cases "encode_char c") auto
  then show ?case using m Cons.IH [OF m(2)] decode_next_encode [of c "encodeURIComponent s"]
    by (simp add: e)
qed (simp add: encodeURIComponent_def)

lemma urldecode_urlencode: "urldecode (urlencode s) = Some (map (\<lambda>c. if c = CHR ''+'' then CHR '' '' else c) s)"
  by (simp add: urldecode_def urlencode_def decodeURIComponent_def decode_n_encode length_encode)

lemma urldecode_plain: "CHR ''+'' \<notin> set s \<Longrightarrow> urldecode (urlencode s) = Some s"
  unfolding urldecode_urlencode by (auto intro!: map_idI)

text \<open>An encoded plus sign is decoded to a space, because the replacement comes after the decoding.\<close>

lemma urldecode_plus_lost: "urldecode (urlencode ''1+1'') = Some ''1 1''"
  by (simp add: urldecode_urlencode)

lemma encoded_chars:
  assumes "x \<in> set (urlencode s)"
  shows "x \<noteq> CHR ''&'' \<and> x \<noteq> CHR ''='' \<and> x \<noteq> CHR ''?''"
proof -
  have hex: "d < 16 \<Longrightarrow> hex_digit d \<notin> {CHR ''&'', CHR ''='', CHR ''?''}" for d
    by (drule less_16_cases) (auto simp: hex_digit_def)
  have per: "y \<in> set (percent b) \<Longrightarrow> b < 256 \<Longrightarrow> y \<notin> {CHR ''&'', CHR ''='', CHR ''?''}" for y b
    using hex [of "b div 16"] hex [of "b mod 16"] by (auto simp: percent_def less_mult_imp_div_less)
  obtain c where c: "x \<in> set (encode_char c)"
    using assms by (auto simp: urlencode_def encodeURIComponent_def)
  have n: "(of_char c :: nat) < 256" by simp
  then have b: "192 + (of_char c :: nat) div 64 < 256" "128 + (of_char c :: nat) mod 64 < 256" by linarith+
  have "x \<notin> {CHR ''&'', CHR ''='', CHR ''?''}"
  proof (cases "unreserved c")
    case True
    with c show ?thesis by (auto simp: encode_char_def unreserved_def is_digit_def Let_def)
  next
    case False
    with c per [OF _ n] per [OF _ b(1)] per [OF _ b(2)] show ?thesis
      by (auto simp: encode_char_def Let_def split: if_splits)
  qed
  then show ?thesis by simp
qed

lemma split_on_none: "sep \<notin> set s \<Longrightarrow> split_on sep s = [s]"
  by (induction s) auto

lemma split_on_append: "sep \<notin> set s \<Longrightarrow> split_on sep (s @ sep # t) = s # split_on sep t"
  by (induction s) auto

lemma split_on_join: "ws \<noteq> [] \<Longrightarrow> \<forall>w\<in>set ws. sep \<notin> set w \<Longrightarrow> split_on sep (join [sep] ws) = ws"
proof (induction "[sep]" ws rule: join.induct)
  case (3 s v va)
  then show ?case by (simp add: split_on_append)
qed (simp_all add: split_on_none)

text \<open>The values of a key in a list of pairs, in order.\<close>

definition values_of :: "(string \<times> string) list \<Rightarrow> string \<Rightarrow> string list" where
  "values_of kvs k = map snd (filter (\<lambda>kv. fst kv = k) kvs)"

definition query_part :: "string \<times> string \<Rightarrow> string" where
  "query_part kv = urlencode (fst kv) @ ''='' @ urlencode (snd kv)"

lemma split_pair_part: "split_pair (query_part kv) = (urlencode (fst kv), Some (urlencode (snd kv)))"
proof -
  have "split_on (CHR ''='') (query_part kv) = [urlencode (fst kv), urlencode (snd kv)]"
    unfolding query_part_def using encoded_chars
    by (simp add: split_on_append split_on_none) (metis split_on_append split_on_none)
  then show ?thesis by (simp add: split_pair_def)
qed

text \<open>No property of the prototype of objects has the name of a parameter.\<close>

definition not_inherited :: "heap \<Rightarrow> string \<Rightarrow> bool" where
  "not_inherited h k \<longleftrightarrow> chain_get h ObjProto (str_key k) = None"

lemma has_prop_own: "not_inherited h k \<Longrightarrow> has_prop h (PObj ps) (str_key k) \<longleftrightarrow> map_of ps (str_key k) \<noteq> None"
  by (auto simp: has_prop_def lookup_prop_def not_inherited_def split: option.split)

definition holds_values :: "(string \<times> string) list \<Rightarrow> props \<Rightarrow> bool" where
  "holds_values kvs ps \<longleftrightarrow> (\<forall>k. map_of ps (str_key k) =
     (if values_of kvs k = [] then None else Some (Arr (map Str (values_of kvs k)))))"

lemma str_key_inj: "str_key a = str_key b \<longleftrightarrow> a = b"
  by (metis key_str_str_key)

text \<open>A part of a query string that stands for a pair of a key and a value.\<close>

definition reads_as :: "string \<Rightarrow> string \<times> string \<Rightarrow> bool" where
  "reads_as p kv \<longleftrightarrow> (\<exists>a b. split_pair p = (a, Some b) \<and> urldecode a = Some (fst kv) \<and> urldecode b = Some (snd kv))"

lemma reads_as_part: "CHR ''+'' \<notin> set (fst kv) \<union> set (snd kv) \<Longrightarrow> reads_as (query_part kv) kv"
  by (simp add: reads_as_def split_pair_part urldecode_plain)

lemma add_param_step:
  assumes "holds_values kvs ps" "not_inherited h (fst kv)" "reads_as p kv"
  shows "\<exists>ps'. add_param h ps p = Inr ps' \<and> holds_values (kvs @ [kv]) ps'"
proof -
  obtain k v where kv: "kv = (k, v)" by (cases kv)
  obtain a b where dec: "split_pair p = (a, Some b)" "urldecode a = Some k" "urldecode b = Some v"
    using assms(3) kv by (auto simp: reads_as_def)
  have own: "has_prop h (PObj ps) (str_key k) \<longleftrightarrow> values_of kvs k \<noteq> []"
    using assms(1,2) kv has_prop_own [of h k ps] by (auto simp: holds_values_def)
  show ?thesis
  proof (cases "values_of kvs k = []")
    case True
    with own dec have "add_param h ps p = Inr (put (str_key k) (Arr [Str v]) ps)"
      by (simp add: add_param_def)
    moreover have "holds_values (kvs @ [kv]) (put (str_key k) (Arr [Str v]) ps)"
      using assms(1) True by (auto simp: holds_values_def values_of_def kv str_key_inj)
    ultimately show ?thesis by blast
  next
    case False
    with assms(1) have m: "map_of ps (str_key k) = Some (Arr (map Str (values_of kvs k)))"
      by (simp add: holds_values_def)
    with own dec False have "add_param h ps p
        = Inr (put (str_key k) (Arr (map Str (values_of kvs k) @ [Str v])) ps)"
      by (simp add: add_param_def)
    moreover have "holds_values (kvs @ [kv]) (put (str_key k) (Arr (map Str (values_of kvs k) @ [Str v])) ps)"
      using assms(1) False by (auto simp: holds_values_def values_of_def kv str_key_inj)
    ultimately show ?thesis by blast
  qed
qed

lemma add_params_run:
  "list_all2 reads_as parts kvs \<Longrightarrow> holds_values done ps \<Longrightarrow> \<forall>kv\<in>set kvs. not_inherited h (fst kv) \<Longrightarrow>
   \<exists>ps'. add_params h ps parts = Inr ps' \<and> holds_values (done @ kvs) ps'"
proof (induction parts kvs arbitrary: "done" ps rule: list_all2_induct)
  case (Cons p parts kv kvs)
  from Cons.prems Cons.hyps obtain ps1 where ps1: "add_param h ps p = Inr ps1" "holds_values (done @ [kv]) ps1"
    using add_param_step [of "done" ps h kv p] by auto
  from Cons.IH [OF ps1(2)] Cons.prems obtain ps' where "add_params h ps1 parts = Inr ps'"
    "holds_values ((done @ [kv]) @ kvs) ps'" by auto
  with ps1(1) show ?case by simp
qed simp

lemma getQueryParameters_parts:
  assumes "parts \<noteq> []" "\<forall>w\<in>set parts. CHR ''&'' \<notin> set w" "list_all2 reads_as parts kvs" "\<forall>kv\<in>set kvs. not_inherited h (fst kv)"
  shows "\<exists>ps. getQueryParameters h (''?'' @ join ''&'' parts) = Inr ps \<and> holds_values kvs ps"
proof -
  have "split_on (CHR ''&'') (join ''&'' parts) = parts" using assms(1,2) by (intro split_on_join) auto
  moreover have "indexOf_str (''?'' @ join ''&'' parts) ''?'' = 0" by (simp add: indexOf_str_def)
  ultimately have "getQueryParameters h (''?'' @ join ''&'' parts) = add_params h [] parts"
    by (simp add: getQueryParameters_def)
  moreover have "holds_values [] []" by (simp add: holds_values_def values_of_def)
  ultimately show ?thesis using add_params_run [OF assms(3), of "[]" "[]" h] assms(4) by simp
qed

text \<open>
  C31. The parser of the query string inverts its encoding: for pairs of keys and values
  encoded with \<open>encodeURIComponent\<close>, every key maps to the list of its values in order,
  as long as no string has a plus sign and no key is the name of an inherited property.
\<close>

theorem query_parameters_roundtrip:
  assumes "kvs \<noteq> []" "\<forall>kv\<in>set kvs. not_inherited h (fst kv) \<and> CHR ''+'' \<notin> set (fst kv) \<union> set (snd kv)"
  shows "\<exists>ps. getQueryParameters h (''?'' @ join ''&'' (map query_part kvs)) = Inr ps
    \<and> (\<forall>k. map_of ps (str_key k) =
        (if values_of kvs k = [] then None else Some (Arr (map Str (values_of kvs k)))))"
proof -
  have "\<forall>w\<in>set (map query_part kvs). CHR ''&'' \<notin> set w"
    using encoded_chars by (auto simp: query_part_def)
  moreover have "list_all2 reads_as (map query_part kvs) kvs"
    using assms(2) by (simp add: list_all2_map1 list_all2_same reads_as_part)
  ultimately show ?thesis
    using getQueryParameters_parts [of "map query_part kvs" kvs h] assms by (auto simp: holds_values_def)
qed

theorem query_parameters_roundtrip_witness:
  "\<exists>ps. getQueryParameters [] (''?'' @ join ''&'' (map query_part [(''q'', ''a&b''), (''q'', ''c'')])) = Inr ps
    \<and> map_of ps (str_key ''q'') = Some (Arr [Str ''a&b'', Str ''c''])"
proof -
  have "not_inherited [] ''q''"
    by (simp add: not_inherited_def chain_get.simps obj_at_def plain_obj_def ObjProto_def Let_def has_length_def
        split: key.split)
  then show ?thesis
    using query_parameters_roundtrip [of "[(''q'', ''a&b''), (''q'', ''c'')]" "[]"] by (auto simp: values_of_def)
qed

text \<open>A parameter with the name of an inherited property makes the parser throw.\<close>

lemma query_parameters_inherited_name:
  assumes "\<not> not_inherited h ''toString''"
  shows "\<exists>m. getQueryParameters h ''?toString=1'' = Inl (TypeErr m)"
proof -
  have "has_prop h (PObj []) (str_key ''toString'')"
    using assms by (auto simp: not_inherited_def has_prop_def lookup_prop_def)
  moreover have "urldecode ''toString'' = Some ''toString''" "urldecode ''1'' = Some ''1''"
    by (simp_all add: urldecode_def decodeURIComponent_def decode_next_def eval_nat_numeral)
  ultimately show ?thesis
    by (simp add: getQueryParameters_def indexOf_str_def add_param_def split_pair_def)
qed

section \<open>Highlighting keeps the text\<close>

fun text_of :: "node \<Rightarrow> string" where
  "text_of (TextNode t) = t"
| "text_of (Element tag classes cs) = concat (map text_of cs)"

lemma split_text_keeps: "concat (map text_of (split_text cn word val pos)) = val"
  by (simp add: split_text_def) (metis append.assoc append_take_drop_id drop_drop add.commute)

lemma highlight_text:
  "text_of (highlight depth word cn n) = text_of n"
  "concat (map text_of (highlight_children depth word cn classes k ns)) = concat (map text_of ns)"
proof (induction depth word cn n and depth word cn classes k ns rule: highlight_highlight_children.induct)
  case (6 depth word cn classes k n ns)
  show ?case
  proof (cases n)
    case (TextNode val)
    let ?pos = "indexOf_str (toLowerCase val) word"
    show ?thesis
    proof (cases "?pos \<ge> 0 \<and> cn \<notin> set classes")
      case True
      with 6 TextNode have "concat (map text_of (highlight_children depth word cn classes (Suc k) (n # ns)))
          = concat (map text_of (split_text cn word val (nat ?pos))) @ concat (map text_of ns)"
        by (simp add: split_text_def Let_def)
      with TextNode show ?thesis by (simp add: split_text_keeps)
    next
      case False
      with 6 TextNode show ?thesis by (auto simp: Let_def)
    qed
  next
    case (Element tag cl cs)
    with 6 show ?thesis by simp
  qed
qed auto

lemma remove_class_text: "text_of (remove_class cn n) = text_of n"
proof (induction n)
  case (Element tag classes cs)
  then have "map text_of (map (remove_class cn) cs) = map text_of cs" by simp
  then show ?case by (simp only: remove_class.simps text_of.simps)
qed simp


text \<open>
  Because the number of children is read once, a match makes the loop stop before the last
  children: here the second paragraph is not highlighted.
\<close>

lemma highlight_misses_siblings:
  "highlight 5 ''ab'' ''hl'' (Element ''div'' [] [TextNode ''ab'', Element ''p'' [] [TextNode ''ab'']])
   = Element ''div'' [] [TextNode [], Element ''span'' [''hl''] [TextNode ''ab''], TextNode [],
       Element ''p'' [] [TextNode ''ab'']]"
  by (simp add: skipped_def indexOf_str_def toLowerCase_def lower_char_def split_text_def eval_nat_numeral)

section \<open>Translations\<close>

text \<open>
  After \<open>addTranslations\<close>, \<open>gettext\<close> returns the new translation of a
  message (the first form, where it has several) and still finds the older ones;
  \<open>ngettext\<close> falls back to the English plural rule for a message without translation,
  and throws for every message that has one.
\<close>

theorem translations_found:
  assumes "chain_keys h ObjProto = []" "distinct (map fst messages)"
    and "map_of messages (str_key s) = Some t"
  shows "(\<forall>u. t = Str u \<longrightarrow> gettext h (addTranslations h messages pe loc cat) s = Str u)
    \<and> (\<forall>u us. t = Arr (u # us) \<longrightarrow> gettext h (addTranslations h messages pe loc cat) s = u)
    \<and> (\<forall>r. map_of messages (str_key r) = None \<longrightarrow>
          gettext h (addTranslations h messages pe loc cat) r = gettext h cat r)
    \<and> (t \<noteq> Undef \<longrightarrow> (\<exists>m. ngettext h (addTranslations h messages pe loc cat) s p n = Inl (TypeErr m)))"
proof -
  have fi: "for_in h (PObj messages) = order_keys (map fst messages)"
    using assms(1) by (simp add: for_in_def)
  have upd: "map_of (foldl (\<lambda>ts k. put k (get h (PObj messages) k) ts) ts ks) j
      = (if j \<in> set ks then Some (get h (PObj messages) j) else map_of ts j)" for ts ks j
    by (induction ks arbitrary: ts) auto
  let ?cat = "addTranslations h messages pe loc cat"
  have tr: "map_of (TRANSLATIONS ?cat) j = (case map_of messages j of Some v \<Rightarrow> Some v | None \<Rightarrow> map_of (TRANSLATIONS cat) j)" for j
    by (auto simp: addTranslations_def fi upd map_of_eq_None_iff split: option.split) (force dest: map_of_SomeD)
  then have own: "get h (PObj (TRANSLATIONS ?cat)) (str_key s) = t" using assms(3) by simp
  have "gettext h ?cat s = (if typeof h t = ''undefined'' then Str s else if typeof h t = ''string'' then t else get h t (Idx 0))"
    using own by (simp add: gettext_def)
  moreover have "get h (PObj (TRANSLATIONS ?cat)) (str_key r) = get h (PObj (TRANSLATIONS cat)) (str_key r)"
    if "map_of messages (str_key r) = None" for r
    using that tr [of "str_key r"] by (simp add: get_def lookup_prop_def split: option.split)
  moreover have "typeof h t \<noteq> ''undefined''" if "t \<noteq> Undef" using that by (cases t) auto
  ultimately show ?thesis using own by (auto simp: gettext_def ngettext_def)
qed

theorem translations_found_witness:
  "gettext [] (addTranslations [] [(Name ''Search'', Str ''Suche'')] (\<lambda>n. 0) ''de'' doc_init) ''Search'' = Str ''Suche''"
proof -
  have "str_key ''Search'' = Name ''Search''" by (simp add: str_key_def canonical_numeral_def is_digit_def)
  then show ?thesis
    using translations_found [of "[]" "[(Name ''Search'', Str ''Suche'')]" "''Search''" "Str ''Suche''" "\<lambda>n. 0" "''de''" doc_init]
    by (auto simp: chain_keys.simps obj_at_def plain_obj_def order_keys_def List.map_filter_def ObjProto_def)
qed

section \<open>The index table\<close>

lemma toggle_twice:
  "toggle_src (toggle_src (p @ ''minus.png'')) = p @ ''minus.png''"
  "toggle_src (toggle_src (p @ ''plus.png'')) = p @ ''plus.png''"
proof -
  have a: "toggle_src (p @ ''minus.png'') = p @ ''plus.png''" by (simp add: toggle_src_def)
  have "drop (length (p @ ''plus.png'') - 9) (p @ ''plus.png'') \<noteq> ''minus.png''"
  proof (cases p rule: rev_cases)
    case (snoc q c)
    then show ?thesis by simp
  qed simp
  then have b: "toggle_src (p @ ''plus.png'') = p @ ''minus.png''" by (simp add: toggle_src_def)
  show "toggle_src (toggle_src (p @ ''minus.png'')) = p @ ''minus.png''"
    "toggle_src (toggle_src (p @ ''plus.png'')) = p @ ''plus.png''" using a b by simp_all
qed

end
