(* ===== verification/Search_Module.thy ===== *)
theory Search_Module
  imports Doctools
begin

text \<open>
  The search of searchtools.js: the search for object names, the full-text search, the
  ranking, the display of the results, the summary of a page, and the state machine that
  waits for the index. The tables of the index that map words to documents, and the maps the
  search builds, are JavaScript objects, looked up along the prototype chain as in the source.
\<close>

section \<open>The index and the results\<close>

record search_index =
  filenames :: "string list"
  titles :: "string list"
  objnames :: "nat \<Rightarrow> string list"
  objects :: "(string \<times> (string \<times> nat \<times> nat \<times> int \<times> string) list) list"
  terms :: props
  titleterms :: props

text \<open>\<open>xs[i]\<close> as it is used here, in string concatenations.\<close>

definition str_at :: "string list \<Rightarrow> nat \<Rightarrow> string" where
  "str_at xs i = (if i < length xs then xs ! i else ''undefined'')"

record result =
  r_file :: string
  r_title :: string
  r_anchor :: string
  r_descr :: "string option"
  r_score :: jsval

record scorer =
  objNameMatch :: int
  objPartialMatch :: int
  objPrio :: "(int \<times> int) list"
  objPrioDefault :: int
  score_title :: int
  score_term :: int

definition Scorer :: scorer where
  "Scorer = \<lparr>objNameMatch = 11, objPartialMatch = 6, objPrio = [(0, 15), (1, 5), (2, -5)],
     objPrioDefault = 0, score_title = 15, score_term = 5\<rparr>"

section \<open>Object names\<close>

definition obj_score :: "string \<Rightarrow> string \<Rightarrow> int \<Rightarrow> int" where
  "obj_score fullname object prio =
     (let parts = split_on (CHR ''.'') fullname;
          nameScore = (if fullname = object \<or> last parts = object then objNameMatch Scorer
            else if indexOf_str (last parts) object > -1 then objPartialMatch Scorer else 0) in
      nameScore + (case map_of (objPrio Scorer) prio of Some s \<Rightarrow> s | None \<Rightarrow> objPrioDefault Scorer))"

text \<open>\<open>tr\<close> is the translation of interface strings, \<open>Documentation.gettext\<close>.\<close>

definition obj_result ::
  "(string \<Rightarrow> string) \<Rightarrow> search_index \<Rightarrow> string \<Rightarrow> string list \<Rightarrow> string
   \<Rightarrow> string \<times> nat \<times> nat \<times> int \<times> string \<Rightarrow> result list" where
  "obj_result tr idx object otherterms pfx = (\<lambda>(name, doc, objtype, prio, anchor0).
     let fullname = (if pfx \<noteq> [] then pfx @ ''.'' else []) @ name in
     if indexOf_str (toLowerCase fullname) object > -1 then
       (let objname = str_at (objnames idx objtype) 2;
            title = str_at (titles idx) doc;
            haystack = toLowerCase (pfx @ '' '' @ name @ '' '' @ objname @ '' '' @ title) in
        if otherterms \<noteq> [] \<and> \<not> (\<forall>t\<in>set otherterms. indexOf_str haystack t \<noteq> -1) then []
        else (let descr = objname @ tr '', in '' @ title;
                  anchor = (if anchor0 = [] then fullname
                    else if anchor0 = ''-'' then str_at (objnames idx objtype) 1 @ ''-'' @ fullname
                    else anchor0) in
          [\<lparr>r_file = str_at (filenames idx) doc, r_title = fullname, r_anchor = ''#'' @ anchor,
            r_descr = Some descr, r_score = inum (obj_score fullname object prio)\<rparr>]))
     else [])"

definition performObjectSearch ::
  "(string \<Rightarrow> string) \<Rightarrow> search_index \<Rightarrow> string \<Rightarrow> string list \<Rightarrow> result list" where
  "performObjectSearch tr idx object otherterms =
     concat (map (\<lambda>(pfx, names). concat (map (obj_result tr idx object otherterms pfx) names)) (objects idx))"

section \<open>Full text\<close>

text \<open>\<open>a == b\<close> for the values compared here: a posting and a string.\<close>

definition loose_eq_str :: "heap \<Rightarrow> jsval \<Rightarrow> string \<Rightarrow> bool" where
  "loose_eq_str h a s = (case a of
      Undef \<Rightarrow> False
    | Null \<Rightarrow> False
    | _ \<Rightarrow> (case to_prim h a of
          Str t \<Rightarrow> t = s
        | p \<Rightarrow> num_eq (prim_number p) (str_number s)))"

text \<open>\<open>[word].files\<close>: a number stands for a list of one, whatever has a length is taken as a list.\<close>

definition as_list :: "heap \<Rightarrow> jsval \<Rightarrow> jsval" where
  "as_list h files = (if strict_eq (get h files LEN) Undef then Arr [files] else files)"

text \<open>\<open>if (!(file in scoreMap)) scoreMap[file] = {}; scoreMap[file][word] = score\<close>\<close>

definition set_score :: "heap \<Rightarrow> string \<Rightarrow> jsval \<Rightarrow> props \<Rightarrow> jsval \<Rightarrow> props" where
  "set_score h word score scoreMap file = (let k = to_key h file in
     case map_of scoreMap k of
       Some (PObj ps) \<Rightarrow> put k (PObj (put (str_key word) score ps)) scoreMap
     | _ \<Rightarrow> if has_prop h (PObj scoreMap) k then scoreMap
            else put k (PObj [(str_key word, score)]) scoreMap)"

text \<open>\<open>if (file in fileMap) fileMap[file].push(word) else fileMap[file] = [word]\<close>\<close>

definition add_word :: "heap \<Rightarrow> string \<Rightarrow> props \<Rightarrow> jsval \<Rightarrow> jsexn + props" where
  "add_word h word fileMap file = (let k = to_key h file in
     case map_of fileMap k of
       Some v \<Rightarrow> Inr (put k (push_onto v (Str word)) fileMap)
     | None \<Rightarrow> if has_prop h (PObj fileMap) k then Inl (TypeErr ''fileMap[file].push is not a function'')
              else Inr (put k (Arr [Str word]) fileMap))"

type_synonym maps = "props \<times> props"

definition collect_files ::
  "heap \<Rightarrow> string \<Rightarrow> jsval list \<times> props \<Rightarrow> jsval \<times> jsval \<Rightarrow> ('s, jsval list \<times> props) js" where
  "collect_files h word = (\<lambda>(files, scoreMap) (fs0, score).
     if strict_eq fs0 Undef then retM (files, scoreMap)
     else (let fs = as_list h fs0 in
       bindM (concat_args h files [fs]) (\<lambda>files'.
       bindM (liftE (arr_items h fs)) (\<lambda>xs.
       retM (files', foldl (set_score h word score) scoreMap xs)))))"

text \<open>One required word: \<open>None\<close> when it is not in the index (the loop ends).\<close>

definition search_word ::
  "heap \<Rightarrow> search_index \<Rightarrow> maps \<Rightarrow> string \<Rightarrow> ('s, maps option) js" where
  "search_word h idx = (\<lambda>(fileMap, scoreMap) word.
     let o1 = get h (PObj (terms idx)) (str_key word); o2 = get h (PObj (titleterms idx)) (str_key word) in
     if strict_eq o1 Undef \<and> strict_eq o2 Undef then retM None
     else bindM (foldM (collect_files h word) ([], scoreMap)
            [(o1, inum (score_term Scorer)), (o2, inum (score_title Scorer))]) (\<lambda>(files, scoreMap').
          bindM (foldM (\<lambda>m file. liftE (add_word h word m file)) fileMap files) (\<lambda>fileMap'.
          retM (Some (fileMap', scoreMap')))))"

fun search_words :: "heap \<Rightarrow> search_index \<Rightarrow> maps \<Rightarrow> string list \<Rightarrow> ('s, maps) js" where
  "search_words h idx m [] = retM m"
| "search_words h idx m (w # ws) = bindM (search_word h idx m w) (\<lambda>r.
     case r of None \<Rightarrow> retM m | Some m' \<Rightarrow> search_words h idx m' ws)"

definition is_excluded :: "heap \<Rightarrow> search_index \<Rightarrow> string \<Rightarrow> string \<Rightarrow> ('s, bool) js" where
  "is_excluded h idx file word =
     (let o1 = get h (PObj (terms idx)) (str_key word); o2 = get h (PObj (titleterms idx)) (str_key word) in
      if loose_eq_str h o1 file \<or> loose_eq_str h o2 file then retM True
      else bindM (contains_u h (if truthy o1 then o1 else Arr []) (Str file)) (\<lambda>c1.
        if c1 then retM True
        else contains_u h (if truthy o2 then o2 else Arr []) (Str file)))"

definition file_score :: "heap \<Rightarrow> props \<Rightarrow> key \<Rightarrow> jsval \<Rightarrow> ('s, jsval) js" where
  "file_score h scoreMap file words =
     bindM (map_u h words (Fn (\<lambda>this vs.
         getM h (get h (PObj scoreMap) file) (to_key h (arg vs 0)))) Undef) (\<lambda>scores.
     max_u h (Arr scores) (Val Undef) Undef)"

definition key_at :: "string list \<Rightarrow> key \<Rightarrow> string" where
  "key_at xs k = (case k of Idx i \<Rightarrow> str_at xs i | Name n \<Rightarrow> ''undefined'')"

definition file_result ::
  "heap \<Rightarrow> search_index \<Rightarrow> string list \<Rightarrow> string list \<Rightarrow> maps \<Rightarrow> key \<Rightarrow> ('s, result list) js" where
  "file_result h idx searchterms excluded = (\<lambda>(fileMap, scoreMap) file.
     let words = get h (PObj fileMap) file in
     if \<not> num_eq (to_number h (get h words LEN)) (Fin (int (length searchterms))) then retM []
     else bindM (anyM (is_excluded h idx (key_str file)) excluded) (\<lambda>found.
       if found then retM []
       else bindM (file_score h scoreMap file words) (\<lambda>score.
         retM [\<lparr>r_file = key_at (filenames idx) file, r_title = key_at (titles idx) file, r_anchor = [],
                r_descr = None, r_score = score\<rparr>])))"

definition performTermsSearch ::
  "heap \<Rightarrow> search_index \<Rightarrow> string list \<Rightarrow> string list \<Rightarrow> ('s, result list) js" where
  "performTermsSearch h idx searchterms excluded =
     bindM (search_words h idx ([], []) searchterms) (\<lambda>(fileMap, scoreMap).
     bindM (mapM (file_result h idx searchterms excluded (fileMap, scoreMap)) (for_in h (PObj fileMap))) (\<lambda>rs.
     retM (concat rs)))"

section \<open>Queries\<close>

definition stopwords :: "string list" where
  "stopwords = [''a'', ''and'', ''are'', ''as'', ''at'', ''be'', ''but'', ''by'', ''for'', ''if'', ''in'', ''into'',
     ''is'', ''it'', ''near'', ''no'', ''not'', ''of'', ''on'', ''or'', ''such'', ''that'', ''the'', ''their'',
     ''then'', ''there'', ''these'', ''they'', ''this'', ''to'', ''was'', ''will'', ''with'']"

record query_terms =
  searchterms :: "string list"
  excluded :: "string list"
  hlterms :: "string list"
  objectterms :: "string list"

definition add_new :: "string \<Rightarrow> string list \<Rightarrow> string list" where
  "add_new w ws = (if w \<in> set ws then ws else ws @ [w])"

definition query_word :: "query_terms \<Rightarrow> string \<Rightarrow> query_terms" where
  "query_word q w =
     (let lw = toLowerCase w;
          q1 = (if w \<noteq> [] then q\<lparr>objectterms := objectterms q @ [lw]\<rparr> else q) in
      if lw \<in> set stopwords \<or> (w \<noteq> [] \<and> list_all is_digit w) \<or> w = [] then q1
      else (let word = stemWord lw in
        if hd word = CHR ''-'' then q1\<lparr>excluded := add_new (tl word) (excluded q1)\<rparr>
        else q1\<lparr>searchterms := add_new word (searchterms q1), hlterms := hlterms q1 @ [lw]\<rparr>))"

definition parse_query :: "string \<Rightarrow> query_terms" where
  "parse_query query = foldl query_word
     \<lparr>searchterms = [], excluded = [], hlterms = [], objectterms = []\<rparr> (splitQuery of_char query)"

text \<open>\<open>results.sort\<close>: \<open>result_gt a b\<close> when the comparison function returns 1.\<close>

definition result_gt :: "heap \<Rightarrow> result \<Rightarrow> result \<Rightarrow> bool" where
  "result_gt h a b \<longleftrightarrow> (if js_less h (r_score b) (r_score a) then True
     else if js_less h (r_score a) (r_score b) then False
     else toLowerCase (r_title a) < toLowerCase (r_title b))"

definition rank :: "heap \<Rightarrow> (result \<Rightarrow> jsval) option \<Rightarrow> result list \<Rightarrow> result list" where
  "rank h score results = js_sort (result_gt h) (case score of None \<Rightarrow> results
     | Some f \<Rightarrow> map (\<lambda>r. r\<lparr>r_score := f r\<rparr>) results)"

definition query_results ::
  "heap \<Rightarrow> (string \<Rightarrow> string) \<Rightarrow> (result \<Rightarrow> jsval) option \<Rightarrow> search_index \<Rightarrow> string \<Rightarrow> ('s, result list) js" where
  "query_results h tr score idx query =
     (let q = parse_query query; ots = objectterms q;
          objs = concat (map (\<lambda>i. performObjectSearch tr idx (ots ! i) (take i ots @ drop (i + 1) ots)) [0..<length ots]) in
      bindM (performTermsSearch h idx (searchterms q) (excluded q)) (\<lambda>texts.
      retM (rank h score (objs @ texts))))"

section \<open>Display\<close>

record options =
  FILE_SUFFIX :: string
  URL_ROOT :: string
  HAS_SOURCE :: bool

definition highlightstring :: "string list \<Rightarrow> string" where
  "highlightstring words = ''?highlight='' @ urlencode (join '' '' words)"

definition result_href :: "options \<Rightarrow> string \<Rightarrow> result \<Rightarrow> string" where
  "result_href opts hl item =
     (if FILE_SUFFIX opts = [] then
        (let dirname = r_file item @ ''/'';
             dir = (if 7 \<le> length dirname \<and> drop (length dirname - 7) dirname = ''/index/''
                    then take (length dirname - 6) dirname
                    else if dirname = ''index/'' then [] else dirname) in
         URL_ROOT opts @ dir @ hl @ r_anchor item)
      else r_file item @ FILE_SUFFIX opts @ hl @ r_anchor item)"

definition makeExcerpt :: "string \<Rightarrow> string list \<Rightarrow> string" where
  "makeExcerpt t keywords =
     (let textLower = toLowerCase t;
          hit = foldl (\<lambda>start k. let i = indexOf_str textLower (toLowerCase k) in if i > -1 then i else start) 0 keywords;
          start = nat (max (hit - 120) 0) in
      (if start > 0 then ''...'' else []) @ trim (take 240 (drop start t))
      @ (if int start + 240 - int (length t) \<noteq> 0 then ''...'' else []))"

text \<open>\<open>rv.highlightText(word, 'highlighted')\<close> for every word, on the element with the excerpt.\<close>

definition makeSearchSummary :: "string \<Rightarrow> string list \<Rightarrow> string list \<Rightarrow> node" where
  "makeSearchSummary t keywords hlwords =
     foldl (\<lambda>rv w. highlight 3 w ''highlighted'' rv)
       (Element ''div'' [''context''] [TextNode (makeExcerpt t keywords)]) hlwords"

text \<open>
  One item of the output: the link, and its description or summary. \<open>fetch\<close> is the text
  of the page's source that the request returns (\<open>None\<close> when it has none).
\<close>

record list_item =
  li_href :: string
  li_title :: string
  li_descr :: "string option"
  li_summary :: "node option"

definition display_item ::
  "options \<Rightarrow> (string \<Rightarrow> string option) \<Rightarrow> query_terms \<Rightarrow> result \<Rightarrow> list_item" where
  "display_item opts fetch q item =
     \<lparr>li_href = result_href opts (highlightstring (hlterms q)) item, li_title = r_title item,
      li_descr = (if r_descr item = Some [] then None else r_descr item),
      li_summary = (if r_descr item \<noteq> None \<and> r_descr item \<noteq> Some [] \<or> \<not> HAS_SOURCE opts then None
        else (case fetch (URL_ROOT opts @ ''_sources/'' @ r_file item @ ''.txt'') of
            Some d \<Rightarrow> if d = [] then None else Some (makeSearchSummary d (searchterms q) (hlterms q))
          | None \<Rightarrow> None))\<rparr>"

section \<open>The state of the module\<close>

record search_state =
  sx_index :: "search_index option"
  sx_queued :: "string option"
  sx_pulse :: int
  sx_timers :: nat
  sx_chains :: "(query_terms \<times> result list \<times> nat) list"
  sx_output :: "list_item list"
  sx_title :: string
  sx_status :: string
  sx_queries :: "string list"

definition search_init :: search_state where
  "search_init = \<lparr>sx_index = None, sx_queued = None, sx_pulse = -1, sx_timers = 0, sx_chains = [],
     sx_output = [], sx_title = [], sx_status = [], sx_queries = []\<rparr>"

definition stopPulse :: "search_state \<Rightarrow> search_state" where
  "stopPulse st = st\<lparr>sx_pulse := 0\<rparr>"

text \<open>\<open>pulse\<close>: the next number of dots, and the timer for the next call.\<close>

definition pulse :: "search_state \<Rightarrow> search_state" where
  "pulse st = (let p = (sx_pulse st + 1) mod 4 in
     st\<lparr>sx_pulse := p, sx_timers := (if p > -1 then sx_timers st + 1 else sx_timers st)\<rparr>)"

definition startPulse :: "search_state \<Rightarrow> search_state" where
  "startPulse st = (if sx_pulse st \<ge> 0 then st else pulse st)"

text \<open>\<open>s.replace(t, u)\<close> for strings: the first occurrence.\<close>

definition replace_first :: "string \<Rightarrow> string \<Rightarrow> string \<Rightarrow> string" where
  "replace_first s t u = (let i = indexOf_str s t in
     if i < 0 then s else take (nat i) s @ u @ drop (nat i + length t) s)"

text \<open>
  Every query leaves a chain of \<open>displayNextItem\<close> calls behind, with its own list of
  results; the calls of one chain follow each other, those of two chains may interleave.
  \<open>displayNextItem i\<close> is the next call of the \<open>i\<close>-th chain.
\<close>

definition search_finished :: "(string \<Rightarrow> string) \<Rightarrow> nat \<Rightarrow> search_state \<Rightarrow> search_state" where
  "search_finished tr resultCount st = (stopPulse st)\<lparr>sx_title := tr ''Search Results'',
     sx_status := (if resultCount = 0 then tr (''Your search did not match any documents. Please make sure that all words''
         @ '' are spelled correctly and that you've selected enough categories.'')
       else replace_first (tr ''Search finished, found %s page(s) matching the search query.'') ''%s'' (show_nat resultCount))\<rparr>"

definition displayNextItem ::
  "(string \<Rightarrow> string) \<Rightarrow> options \<Rightarrow> (string \<Rightarrow> string option) \<Rightarrow> nat \<Rightarrow> search_state \<Rightarrow> search_state" where
  "displayNextItem tr opts fetch i st =
     (if i < length (sx_chains st) then
        (case sx_chains st ! i of (q, results, resultCount) \<Rightarrow>
           if results \<noteq> [] then
             st\<lparr>sx_output := sx_output st @ [display_item opts fetch q (last results)],
                sx_chains := (sx_chains st)[i := (q, butlast results, resultCount)]\<rparr>
           else search_finished tr resultCount
             (st\<lparr>sx_chains := take i (sx_chains st) @ drop (Suc i) (sx_chains st)\<rparr>))
      else st)"

text \<open>\<open>Search.query\<close>; an exception leaves the page as it is.\<close>

definition run_query ::
  "heap \<Rightarrow> (string \<Rightarrow> string) \<Rightarrow> (result \<Rightarrow> jsval) option \<Rightarrow> string \<Rightarrow> search_state \<Rightarrow> search_state" where
  "run_query h tr score query st = (case sx_index st of
      None \<Rightarrow> st
    | Some idx \<Rightarrow> (case fst (query_results h tr score idx query ()) of
          Inl e \<Rightarrow> st\<lparr>sx_queries := sx_queries st @ [query]\<rparr>
        | Inr results \<Rightarrow> st\<lparr>sx_chains := sx_chains st @ [(parse_query query, results, length results)],
                             sx_queries := sx_queries st @ [query]\<rparr>))"

definition setIndex ::
  "heap \<Rightarrow> (string \<Rightarrow> string) \<Rightarrow> (result \<Rightarrow> jsval) option \<Rightarrow> search_index \<Rightarrow> search_state \<Rightarrow> search_state" where
  "setIndex h tr score idx st0 = (let st = st0\<lparr>sx_index := Some idx\<rparr> in
     case sx_queued st of None \<Rightarrow> st | Some q \<Rightarrow> run_query h tr score q (st\<lparr>sx_queued := None\<rparr>))"

definition hasIndex :: "search_state \<Rightarrow> bool" where
  "hasIndex st \<longleftrightarrow> sx_index st \<noteq> None"

definition deferQuery :: "string \<Rightarrow> search_state \<Rightarrow> search_state" where
  "deferQuery q st = st\<lparr>sx_queued := Some q\<rparr>"

definition performSearch ::
  "heap \<Rightarrow> (string \<Rightarrow> string) \<Rightarrow> (result \<Rightarrow> jsval) option \<Rightarrow> string \<Rightarrow> search_state \<Rightarrow> search_state" where
  "performSearch h tr score query st0 =
     (let st = startPulse (st0\<lparr>sx_title := tr ''Searching'', sx_status := [], sx_output := []\<rparr>) in
      if hasIndex st then run_query h tr score query st else deferQuery query st)"

definition search_page_init ::
  "heap \<Rightarrow> (string \<Rightarrow> string) \<Rightarrow> (result \<Rightarrow> jsval) option \<Rightarrow> string \<Rightarrow> search_state \<Rightarrow> jsexn + search_state" where
  "search_page_init h tr score search st = (case getQueryParameters h search of
      Inl e \<Rightarrow> Inl e
    | Inr params \<Rightarrow> (case map_of params (Name ''q'') of
        Some (Arr (Str q # _)) \<Rightarrow> Inr (performSearch h tr score q st)
      | _ \<Rightarrow> Inr st))"

end
