(* ===== verification/Search_Ranking.thy ===== *)
theory Search_Ranking
  imports Search_Module
begin

text \<open>
  Properties of the search: what a query is turned into, the order in which results are
  shown, the summary of a page, and the state machine that waits for the index.
\<close>

section \<open>Queries\<close>

lemma lower_not_hyphen:
  assumes "lower_char c = CHR ''-''"
  shows "c = CHR ''-''"
proof (cases "65 \<le> (of_char c :: nat) \<and> (of_char c :: nat) \<le> 90 \<or> 192 \<le> (of_char c :: nat) \<and> (of_char c :: nat) \<le> 222
    \<and> (of_char c :: nat) \<noteq> 215")
  case True
  then have "lower_char c = char_of ((of_char c :: nat) + 32)" by (simp add: lower_char_def Let_def)
  with assms have "(of_char (char_of ((of_char c :: nat) + 32)) :: nat) = 45" by simp
  then have "((of_char c :: nat) + 32) mod 256 = 45" by (simp only: of_char_of)
  moreover have "(n + 32) mod 256 \<noteq> 45" if "65 \<le> n" "n \<le> 222" for n :: nat using that by simp
  ultimately have False using True by (elim disjE) auto
  then show ?thesis ..
next
  case False
  then have "lower_char c = c" by (auto simp: lower_char_def Let_def)
  with assms show ?thesis by simp
qed

lemma split_word_props:
  assumes "w \<in> set (splitQuery of_char query)"
  shows "w \<noteq> [] \<and> hd w \<noteq> CHR ''-''"
proof -
  have w: "w \<noteq> []" "\<forall>c\<in>set w. \<not> splitChars (of_char c)"
    using assms tokens_words [of w "\<lambda>c. splitChars (of_char c)" query] by (auto simp: splitQuery_tokens)
  have "(0, 47) \<in> set ranges" by (simp add: ranges_def)
  then have "splitChars 45" unfolding splitChars_def by force
  then show ?thesis using w by (cases w) auto
qed

lemma stem_props:
  assumes "w \<noteq> []" "hd w \<noteq> CHR ''-''"
  shows "stemWord (toLowerCase w) \<noteq> [] \<and> hd (stemWord (toLowerCase w)) \<noteq> CHR ''-''"
proof (cases "length (toLowerCase w) < 3")
  case True
  with assms show ?thesis using lower_not_hyphen by (cases w) (auto simp: stemWord_def toLowerCase_def)
next
  case False
  let ?l = "toLowerCase w"
  let ?w = "if hd ?l = CHR ''y'' then CHR ''Y'' # tl ?l else ?l"
  have l: "?l \<noteq> []" "hd ?l \<noteq> CHR ''-''"
    using assms lower_not_hyphen by (cases w, auto simp: toLowerCase_def)+
  then have "?w \<noteq> []" by auto
  with steps_shrink [of ?w] False l show ?thesis by (auto simp: stemWord_def Let_def shrinks_def)
qed

definition query_ok :: "query_terms \<Rightarrow> bool" where
  "query_ok q \<longleftrightarrow> excluded q = [] \<and> distinct (searchterms q) \<and> [] \<notin> set (searchterms q)"

lemma query_word_ok:
  assumes "query_ok q" "w \<noteq> []" "hd w \<noteq> CHR ''-''"
  shows "query_ok (query_word q w)"
  using assms stem_props [OF assms(2,3)] by (auto simp: query_word_def query_ok_def Let_def add_new_def)

lemma parse_query_ok: "query_ok (parse_query query)"
proof -
  have "query_ok (foldl query_word q ws)" if "query_ok q" "\<forall>w\<in>set ws. w \<noteq> [] \<and> hd w \<noteq> CHR ''-''" for q ws
    using that by (induction ws arbitrary: q) (auto simp: query_word_ok)
  then show ?thesis
    unfolding parse_query_def using split_word_props by (simp add: query_ok_def)
qed

text \<open>
  C39. The terms a query is searched for are pairwise distinct and not empty, and no query
  ever excludes a term: a hyphen separates words, so no word that reaches the test for a
  leading hyphen has one.
\<close>

theorem query_terms_wellformed:
  "distinct (searchterms (parse_query query)) \<and> [] \<notin> set (searchterms (parse_query query))
   \<and> excluded (parse_query query) = []"
  using parse_query_ok by (simp add: query_ok_def)

section \<open>Ranking\<close>

definition scored :: "result \<Rightarrow> bool" where
  "scored r \<longleftrightarrow> (\<exists>i. r_score r = inum i)"

fun score_of :: "jsval \<Rightarrow> int" where
  "score_of (Num (Fin i)) = i"
| "score_of v = 0"

lemma result_gt_iff:
  "scored a \<Longrightarrow> scored b \<Longrightarrow> result_gt h a b \<longleftrightarrow> score_of (r_score b) < score_of (r_score a)
     \<or> score_of (r_score a) = score_of (r_score b) \<and> toLowerCase (r_title a) < toLowerCase (r_title b)"
  by (auto simp: scored_def result_gt_def)

interpretation result_order: comparator scored "result_gt h" for h
  by unfold_locales (auto simp: result_gt_iff)

text \<open>
  C26. The results are shown (taken from the end of the sorted list) in order of descending
  score and, among equal scores, in alphabetical order without regard to case; the ranking
  neither loses nor invents a result.
\<close>

theorem rank_order:
  assumes "\<forall>r\<in>set results. scored r"
  shows "mset (rank h None results) = mset results
    \<and> sorted_wrt (\<lambda>shown later. score_of (r_score later) < score_of (r_score shown)
        \<or> score_of (r_score later) = score_of (r_score shown)
          \<and> toLowerCase (r_title shown) \<le> toLowerCase (r_title later)) (rev (rank h None results))"
proof -
  have "sorted_wrt (\<lambda>a b. \<not> result_gt h a b) (js_sort (result_gt h) results)"
    by (rule result_order.sorted_js_sort [OF assms])
  then have "sorted_wrt (\<lambda>a b. score_of (r_score a) < score_of (r_score b)
      \<or> score_of (r_score a) = score_of (r_score b) \<and> toLowerCase (r_title b) \<le> toLowerCase (r_title a))
      (js_sort (result_gt h) results)"
    by (rule sorted_wrt_mono_rel [rotated]) (use assms in \<open>auto simp: result_gt_iff\<close>)
  then show ?thesis by (simp add: rank_def sorted_wrt_rev)
qed

theorem rank_order_witness:
  "mset (rank [] None [\<lparr>r_file = ''f'', r_title = ''B'', r_anchor = [], r_descr = None, r_score = inum 5\<rparr>,
        \<lparr>r_file = ''g'', r_title = ''a'', r_anchor = [], r_descr = None, r_score = inum 15\<rparr>])
   = mset [\<lparr>r_file = ''f'', r_title = ''B'', r_anchor = [], r_descr = None, r_score = inum 5\<rparr>,
        \<lparr>r_file = ''g'', r_title = ''a'', r_anchor = [], r_descr = None, r_score = inum 15\<rparr>]"
  using rank_order [of "[\<lparr>r_file = ''f'', r_title = ''B'', r_anchor = [], r_descr = None, r_score = inum 5\<rparr>,
        \<lparr>r_file = ''g'', r_title = ''a'', r_anchor = [], r_descr = None, r_score = inum 15\<rparr>]" "[]"]
  by (simp add: scored_def)

section \<open>Display\<close>

text \<open>A chain of calls of \<open>displayNextItem\<close> for the query whose results are at position \<open>i\<close>.\<close>

fun display_steps ::
  "(string \<Rightarrow> string) \<Rightarrow> options \<Rightarrow> (string \<Rightarrow> string option) \<Rightarrow> nat \<Rightarrow> nat \<Rightarrow> search_state \<Rightarrow> search_state" where
  "display_steps tr opts fetch i 0 st = st"
| "display_steps tr opts fetch i (Suc n) st = display_steps tr opts fetch i n (displayNextItem tr opts fetch i st)"

lemma display_steps_output:
  "i < length (sx_chains st) \<Longrightarrow> sx_chains st ! i = (q, results, c) \<Longrightarrow>
   display_steps tr opts fetch i (length results) st
   = st\<lparr>sx_output := sx_output st @ map (display_item opts fetch q) (rev results),
        sx_chains := (sx_chains st)[i := (q, [], c)]\<rparr>"
proof (induction results arbitrary: st rule: rev_induct)
  case Nil
  then have "(sx_chains st)[i := (q, [], c)] = sx_chains st" by (metis list_update_id)
  then show ?case by simp
next
  case (snoc r results)
  then show ?case by (simp add: displayNextItem_def)
qed



section \<open>Summaries\<close>

lemma length_trim: "length (trim s) \<le> length s"
  unfolding trim_def by (metis length_dropWhile_le length_rev order_trans)

lemma excerpt_length: "length (makeExcerpt t keywords) \<le> 246"
proof -
  have "length ((if P then ''...'' else []) @ trim (take 240 (drop s t)) @ (if Q then ''...'' else [])) \<le> 246" for P Q s
    using order_trans [OF length_trim [of "take 240 (drop s t)"], of 240] by simp
  then show ?thesis unfolding makeExcerpt_def Let_def .
qed

text \<open>
  The dots after the excerpt are there for every text except one that ends exactly with it,
  also when the text is shorter than the excerpt.
\<close>

lemma excerpt_dots_on_short_text: "makeExcerpt ''ab'' [] = ''ab...''"
  by (simp add: makeExcerpt_def trim_def is_space_def)

section \<open>Waiting for the index\<close>

datatype event = Perform string | SetIndex search_index | PulseTimer | Display nat

fun step :: "heap \<Rightarrow> (string \<Rightarrow> string) \<Rightarrow> (result \<Rightarrow> jsval) option \<Rightarrow> options \<Rightarrow> (string \<Rightarrow> string option)
  \<Rightarrow> search_state \<Rightarrow> event \<Rightarrow> search_state" where
  "step h tr score opts fetch st (Perform q) = performSearch h tr score q st"
| "step h tr score opts fetch st (SetIndex idx) = setIndex h tr score idx st"
| "step h tr score opts fetch st PulseTimer =
     (if sx_timers st > 0 then pulse (st\<lparr>sx_timers := sx_timers st - 1\<rparr>) else st)"
| "step h tr score opts fetch st (Display i) = displayNextItem tr opts fetch i st"

definition exec :: "heap \<Rightarrow> (string \<Rightarrow> string) \<Rightarrow> (result \<Rightarrow> jsval) option \<Rightarrow> options \<Rightarrow> (string \<Rightarrow> string option)
  \<Rightarrow> event list \<Rightarrow> search_state" where
  "exec h tr score opts fetch evs = foldl (step h tr score opts fetch) search_init evs"

fun queries_of :: "event list \<Rightarrow> string list" where
  "queries_of [] = []"
| "queries_of (Perform q # evs) = q # queries_of evs"
| "queries_of (_ # evs) = queries_of evs"

fun is_set :: "event \<Rightarrow> bool" where
  "is_set (SetIndex idx) = True"
| "is_set _ = False"

definition last_opt :: "'a list \<Rightarrow> 'a option" where
  "last_opt xs = (if xs = [] then None else Some (last xs))"

lemma pulse_fields [simp]:
  "sx_index (pulse st) = sx_index st" "sx_queued (pulse st) = sx_queued st" "sx_queries (pulse st) = sx_queries st"
  by (simp_all add: pulse_def Let_def)

lemma startPulse_fields [simp]:
  "sx_index (startPulse st) = sx_index st" "sx_queued (startPulse st) = sx_queued st"
  "sx_queries (startPulse st) = sx_queries st"
  by (simp_all add: startPulse_def)

lemma run_query_fields [simp]:
  "sx_index (run_query h tr score q st) = sx_index st" "sx_queued (run_query h tr score q st) = sx_queued st"
  "sx_queries (run_query h tr score q st) = (if sx_index st = None then sx_queries st else sx_queries st @ [q])"
  by (auto simp: run_query_def split: option.split sum.split)

lemma display_fields [simp]:
  "sx_index (displayNextItem tr opts fetch i st) = sx_index st"
  "sx_queued (displayNextItem tr opts fetch i st) = sx_queued st"
  "sx_queries (displayNextItem tr opts fetch i st) = sx_queries st"
  by (simp_all add: displayNextItem_def search_finished_def stopPulse_def split: prod.split)

lemma exec_snoc: "exec h tr score opts fetch (evs @ [e]) = step h tr score opts fetch (exec h tr score opts fetch evs) e"
  by (simp add: exec_def)

lemma queries_of_append: "queries_of (xs @ ys) = queries_of xs @ queries_of ys"
  by (induction xs rule: queries_of.induct) auto

text \<open>The queries that run: the last one before the index, and all that come after it.\<close>

definition expected :: "event list \<Rightarrow> string list" where
  "expected evs = (let pre = takeWhile (\<lambda>e. \<not> is_set e) evs; post = dropWhile (\<lambda>e. \<not> is_set e) evs in
     if post = [] then [] else (case last_opt (queries_of pre) of None \<Rightarrow> [] | Some q \<Rightarrow> [q]) @ queries_of post)"

lemma exec_state:
  "let st = exec h tr score opts fetch evs; loaded = (\<exists>e\<in>set evs. is_set e) in
     (sx_index st \<noteq> None) = loaded
     \<and> sx_queued st = (if loaded then None else last_opt (queries_of evs))
     \<and> sx_queries st = expected evs"
proof (induction evs rule: rev_induct)
  case Nil
  then show ?case by (simp add: exec_def search_init_def last_opt_def expected_def)
next
  case (snoc e evs)
  let ?st = "exec h tr score opts fetch evs"
  let ?l = "\<exists>e\<in>set evs. is_set e"
  from snoc have st: "(sx_index ?st \<noteq> None) = ?l" "sx_queued ?st = (if ?l then None else last_opt (queries_of evs))"
    "sx_queries ?st = expected evs" by (simp_all add: Let_def)
  have tw: "takeWhile (\<lambda>e. \<not> is_set e) (evs @ [e]) = (if ?l then takeWhile (\<lambda>e. \<not> is_set e) evs
      else if is_set e then evs else evs @ [e])"
    by (auto simp: takeWhile_append takeWhile_eq_all_conv)
  have dw: "dropWhile (\<lambda>e. \<not> is_set e) (evs @ [e]) = (if ?l then dropWhile (\<lambda>e. \<not> is_set e) evs @ [e]
      else if is_set e then [e] else [])"
    by (auto simp: dropWhile_append dropWhile_eq_Nil_conv)
  have ne: "dropWhile (\<lambda>e. \<not> is_set e) evs = [] \<longleftrightarrow> \<not> ?l" by (auto simp: dropWhile_eq_Nil_conv)
  show ?case
  proof (cases e)
    case (Perform q)
    then show ?thesis using st ne
      by (auto simp: Let_def exec_snoc performSearch_def hasIndex_def deferQuery_def expected_def tw dw
          queries_of_append last_opt_def)
  next
    case (SetIndex idx)
    then show ?thesis using st ne
      by (auto simp: Let_def exec_snoc setIndex_def expected_def tw dw queries_of_append last_opt_def
          split: option.split)
  next
    case PulseTimer
    then show ?thesis using st ne
      by (auto simp: Let_def exec_snoc expected_def tw dw queries_of_append)
  next
    case (Display i)
    then show ?thesis using st ne
      by (auto simp: Let_def exec_snoc expected_def tw dw queries_of_append)
  qed
qed

text \<open>
  C28. Whatever the order of searches, index loading, timers and display callbacks: no query
  runs before the index is there; of the searches made before, the last one runs exactly once,
  when the index arrives; every later search runs at once, in order. Nothing stays queued
  once the index is loaded.
\<close>

theorem search_waits_for_index:
  "sx_queries (exec h tr score opts fetch evs) = expected evs
   \<and> ((\<exists>e\<in>set evs. is_set e) \<longrightarrow> sx_queued (exec h tr score opts fetch evs) = None)"
  using exec_state [of h tr score opts fetch evs] by (simp add: Let_def)

theorem search_waits_for_index_witness:
  "sx_queries (exec [] (\<lambda>s. s) None \<lparr>FILE_SUFFIX = [], URL_ROOT = [], HAS_SOURCE = False\<rparr> (\<lambda>_. None)
      [Perform ''a1'', Perform ''b1'', SetIndex \<lparr>filenames = [], titles = [], objnames = (\<lambda>_. []), objects = [],
        terms = [], titleterms = []\<rparr>, Perform ''c1'']) = [''b1'', ''c1'']"
  using search_waits_for_index [of "[]" "\<lambda>s. s" None "\<lparr>FILE_SUFFIX = [], URL_ROOT = [], HAS_SOURCE = False\<rparr>" "\<lambda>_. None"
      "[Perform ''a1'', Perform ''b1'', SetIndex \<lparr>filenames = [], titles = [], objnames = (\<lambda>_. []), objects = [],
        terms = [], titleterms = []\<rparr>, Perform ''c1'']"]
  by (simp add: expected_def last_opt_def)

section \<open>The dots never stop\<close>

lemma pulse_alive_step:
  assumes "sx_pulse st \<ge> 0" "sx_timers st > 0"
  shows "sx_pulse (step h tr score opts fetch st e) \<ge> 0 \<and> sx_timers (step h tr score opts fetch st e) > 0"
proof (cases e)
  case (Perform q)
  then show ?thesis using assms
    by (auto simp: performSearch_def startPulse_def run_query_def deferQuery_def Let_def split: option.split sum.split)
next
  case (SetIndex idx)
  then show ?thesis using assms by (auto simp: setIndex_def run_query_def Let_def split: option.split sum.split)
next
  case PulseTimer
  moreover have "-1 < (sx_pulse st + 1) mod 4" "0 \<le> (sx_pulse st + 1) mod 4"
    using pos_mod_sign [of 4 "sx_pulse st + 1"] by linarith+
  ultimately show ?thesis using assms by (simp add: pulse_def Let_def)
next
  case (Display i)
  then show ?thesis using assms
    by (auto simp: displayNextItem_def search_finished_def stopPulse_def split: prod.split)
qed



end
