(* ===== verification/Search_Terms.thy ===== *)
theory Search_Terms
  imports Search_Ranking
begin

text \<open>
  The full-text search is sound and complete: on a well-formed index it returns exactly the
  documents that contain every search term, in their text or their title, each once, with
  the higher score where a term is in the title.
\<close>

section \<open>Well-formed indexes\<close>

text \<open>The documents of a word: a number stands for one document.\<close>

fun doc_no :: "jsval \<Rightarrow> nat" where
  "doc_no (Num (Fin i)) = nat i"
| "doc_no v = 0"

definition posting :: "heap \<Rightarrow> props \<Rightarrow> string \<Rightarrow> nat list" where
  "posting h ps w = (case get h (PObj ps) (str_key w) of
      Num n \<Rightarrow> [doc_no (Num n)] | Arr xs \<Rightarrow> map doc_no xs | _ \<Rightarrow> [])"

definition wf_posting :: "heap \<Rightarrow> props \<Rightarrow> string \<Rightarrow> bool" where
  "wf_posting h ps w \<longleftrightarrow> (let v = get h (PObj ps) (str_key w); ns = posting h ps w in
     (v = Undef \<or> v = nnum (hd ns) \<and> ns \<noteq> [] \<or> v = Arr (map nnum ns))
     \<and> distinct ns \<and> length ns < 4294967295 \<and> (\<forall>n\<in>set ns. n < 4294967295))"

text \<open>Objects inherit no index and no enumerable property, numbers no length.\<close>

definition clean_protos :: "heap \<Rightarrow> bool" where
  "clean_protos h \<longleftrightarrow> (\<forall>n. chain_get h ObjProto (Idx n) = None) \<and> chain_keys h ObjProto = []
     \<and> chain_get h NumberProto LEN = None"

definition files_of :: "heap \<Rightarrow> search_index \<Rightarrow> string \<Rightarrow> nat list" where
  "files_of h idx w = posting h (terms idx) w @ posting h (titleterms idx) w"

definition wf_word :: "heap \<Rightarrow> search_index \<Rightarrow> string \<Rightarrow> bool" where
  "wf_word h idx w \<longleftrightarrow> wf_posting h (terms idx) w \<and> wf_posting h (titleterms idx) w
     \<and> distinct (files_of h idx w)"

definition word_score :: "heap \<Rightarrow> search_index \<Rightarrow> nat \<Rightarrow> string \<Rightarrow> int" where
  "word_score h idx f w = (if f \<in> set (posting h (titleterms idx) w) then 15 else 5)"

section \<open>One word\<close>

lemma as_list_num: "clean_protos h \<Longrightarrow> as_list h (nnum n) = Arr [nnum n]"
  by (simp add: as_list_def get_def lookup_prop_def clean_protos_def)

lemma collect_files_posting:
  assumes "clean_protos h" "wf_posting h ps w"
  shows "(collect_files h w (files, sm) (get h (PObj ps) (str_key w), sc) :: ('s, jsval list \<times> props) js)
    = retM (files @ map nnum (posting h ps w), foldl (set_score h w sc) sm (map nnum (posting h ps w)))"
proof -
  let ?v = "get h (PObj ps) (str_key w)" and ?ns = "posting h ps w"
  consider "?v = Undef" | "?v = nnum (hd ?ns)" "?ns \<noteq> []" | "?v = Arr (map nnum ?ns)"
    using assms(2) by (auto simp: wf_posting_def Let_def)
  then show ?thesis
  proof cases
    case 1
    then show ?thesis by (simp add: collect_files_def posting_def)
  next
    case 2
    then obtain n where v: "?v = nnum n" by blast
    then have "?ns = [n]" by (simp add: posting_def)
    with v show ?thesis using as_list_num [OF assms(1), of n] by (simp add: collect_files_def)
  next
    case 3
    moreover have "arr_ok (map nnum ?ns)" using assms(2) by (simp add: wf_posting_def Let_def)
    ultimately show ?thesis by (simp add: collect_files_def as_list_def)
  qed
qed

text \<open>The map from documents to the words found in them.\<close>

definition fm_ok :: "props \<Rightarrow> (nat \<Rightarrow> string list) \<Rightarrow> bool" where
  "fm_ok fm W \<longleftrightarrow> distinct (map fst fm) \<and> (\<forall>n. map_of fm (Name n) = None)
     \<and> (\<forall>f. map_of fm (Idx f) = (if W f = [] then None else Some (Arr (map Str (W f)))))"

lemma has_prop_Idx: "clean_protos h \<Longrightarrow> has_prop h (PObj ps) (Idx n) \<longleftrightarrow> map_of ps (Idx n) \<noteq> None"
  by (auto simp: has_prop_def lookup_prop_def clean_protos_def split: option.split)

lemma add_word_step:
  assumes "clean_protos h" "fm_ok fm W" "n < 4294967295"
  shows "\<exists>fm'. add_word h w fm (nnum n) = Inr fm' \<and> fm_ok fm' (W(n := W n @ [w]))"
proof (cases "W n = []")
  case True
  then have "add_word h w fm (nnum n) = Inr (put (Idx n) (Arr [Str w]) fm)"
    using assms has_prop_Idx [OF assms(1), of fm n] by (simp add: add_word_def fm_ok_def)
  moreover have "fm_ok (put (Idx n) (Arr [Str w]) fm) (W(n := W n @ [w]))"
    using assms(2) True by (simp add: fm_ok_def)
  ultimately show ?thesis by blast
next
  case False
  then have "add_word h w fm (nnum n) = Inr (put (Idx n) (Arr (map Str (W n @ [w]))) fm)"
    using assms by (simp add: add_word_def fm_ok_def)
  moreover have "fm_ok (put (Idx n) (Arr (map Str (W n @ [w]))) fm) (W(n := W n @ [w]))"
    using assms(2) False by (simp add: fm_ok_def)
  ultimately show ?thesis by blast
qed

lemma add_word_fold:
  assumes "clean_protos h"
  shows "fm_ok fm W \<Longrightarrow> distinct ns \<Longrightarrow> \<forall>n\<in>set ns. n < 4294967295 \<Longrightarrow>
    \<exists>fm'. (foldM (\<lambda>m file. liftE (add_word h w m file)) fm (map nnum ns) :: ('s, props) js) = retM fm'
      \<and> fm_ok fm' (\<lambda>f. if f \<in> set ns then W f @ [w] else W f)"
proof (induction ns arbitrary: fm W)
  case (Cons n ns)
  obtain fm1 where fm1: "add_word h w fm (nnum n) = Inr fm1" "fm_ok fm1 (W(n := W n @ [w]))"
    using add_word_step [OF assms Cons.prems(1), of n w] Cons.prems(3) by auto
  from Cons.IH [OF fm1(2)] Cons.prems obtain fm' where fm': "(foldM (\<lambda>m file. liftE (add_word h w m file)) fm1 (map nnum ns) :: ('s, props) js) = retM fm'"
    "fm_ok fm' (\<lambda>f. if f \<in> set ns then (W(n := W n @ [w])) f @ [w] else (W(n := W n @ [w])) f)" by auto
  have "(\<lambda>f. if f \<in> set ns then (W(n := W n @ [w])) f @ [w] else (W(n := W n @ [w])) f)
      = (\<lambda>f. if f \<in> set (n # ns) then W f @ [w] else W f)"
    using Cons.prems(2) by (auto simp: fun_eq_iff)
  with fm1(1) fm' show ?case by (intro exI [of _ fm']) simp
qed auto

text \<open>The map from documents to the scores of the words.\<close>

definition sm_ok :: "props \<Rightarrow> (nat \<Rightarrow> props) \<Rightarrow> bool" where
  "sm_ok sm S \<longleftrightarrow> (\<forall>f. map_of sm (Idx f) = (if S f = [] then None else Some (PObj (S f))))"

lemma put_ne [simp]: "put k v ps \<noteq> []"
  by (cases ps) (auto split: if_splits)

lemma set_score_step:
  assumes "clean_protos h" "sm_ok sm S" "n < 4294967295"
  shows "sm_ok (set_score h w sc sm (nnum n)) (S(n := put (str_key w) sc (S n)))"
  using assms has_prop_Idx [OF assms(1), of sm n] by (auto simp: set_score_def sm_ok_def)

lemma set_score_fold:
  assumes "clean_protos h"
  shows "sm_ok sm S \<Longrightarrow> distinct ns \<Longrightarrow> \<forall>n\<in>set ns. n < 4294967295 \<Longrightarrow>
    sm_ok (foldl (set_score h w sc) sm (map nnum ns)) (\<lambda>f. if f \<in> set ns then put (str_key w) sc (S f) else S f)"
proof (induction ns arbitrary: sm S)
  case (Cons n ns)
  have "sm_ok (foldl (set_score h w sc) (set_score h w sc sm (nnum n)) (map nnum ns))
      (\<lambda>f. if f \<in> set ns then put (str_key w) sc ((S(n := put (str_key w) sc (S n))) f)
           else (S(n := put (str_key w) sc (S n))) f)"
    using Cons.prems by (intro Cons.IH [OF set_score_step [OF assms Cons.prems(1)]]) simp_all
  moreover have "(\<lambda>f. if f \<in> set ns then put (str_key w) sc ((S(n := put (str_key w) sc (S n))) f)
           else (S(n := put (str_key w) sc (S n))) f)
      = (\<lambda>f. if f \<in> set (n # ns) then put (str_key w) sc (S f) else S f)"
    using Cons.prems(2) by (auto simp: fun_eq_iff)
  ultimately show ?case by simp
qed simp

definition missing :: "heap \<Rightarrow> search_index \<Rightarrow> string \<Rightarrow> bool" where
  "missing h idx w \<longleftrightarrow> strict_eq (get h (PObj (terms idx)) (str_key w)) Undef
     \<and> strict_eq (get h (PObj (titleterms idx)) (str_key w)) Undef"

lemma search_word_step:
  assumes "clean_protos h" "wf_word h idx w" "fm_ok fm W" "sm_ok sm S"
  shows "(missing h idx w \<longrightarrow> (search_word h idx (fm, sm) w :: ('s, maps option) js) = retM None)
    \<and> (\<not> missing h idx w \<longrightarrow> (\<exists>fm' sm'. (search_word h idx (fm, sm) w :: ('s, maps option) js) = retM (Some (fm', sm'))
      \<and> fm_ok fm' (\<lambda>f. if f \<in> set (files_of h idx w) then W f @ [w] else W f)
      \<and> sm_ok sm' (\<lambda>f. if f \<in> set (files_of h idx w) then put (str_key w) (inum (word_score h idx f w)) (S f) else S f)))"
proof (intro conjI impI)
  assume "missing h idx w"
  then show "(search_word h idx (fm, sm) w :: ('s, maps option) js) = retM None"
    by (simp add: search_word_def missing_def Let_def)
next
  assume nm: "\<not> missing h idx w"
  let ?t = "posting h (terms idx) w" and ?tt = "posting h (titleterms idx) w"
  let ?sm = "foldl (set_score h w (inum 15)) (foldl (set_score h w (inum 5)) sm (map nnum ?t)) (map nnum ?tt)"
  have wf: "wf_posting h (terms idx) w" "wf_posting h (titleterms idx) w" and d: "distinct (?t @ ?tt)"
    and b: "\<forall>n\<in>set (?t @ ?tt). n < 4294967295"
    using assms(2) by (auto simp: wf_word_def files_of_def wf_posting_def Let_def)
  have coll: "(foldM (collect_files h w) ([], sm) [(get h (PObj (terms idx)) (str_key w), inum (score_term Scorer)),
        (get h (PObj (titleterms idx)) (str_key w), inum (score_title Scorer))] :: ('s, jsval list \<times> props) js)
      = retM (map nnum (?t @ ?tt), ?sm)"
    by (simp add: collect_files_posting [OF assms(1) wf(1)] collect_files_posting [OF assms(1) wf(2)] Scorer_def)
  obtain fm' where fm': "(foldM (\<lambda>m file. liftE (add_word h w m file)) fm (map nnum (?t @ ?tt)) :: ('s, props) js) = retM fm'"
    "fm_ok fm' (\<lambda>f. if f \<in> set (?t @ ?tt) then W f @ [w] else W f)"
    using add_word_fold [OF assms(1,3) d b, of w] by blast
  have s5: "sm_ok (foldl (set_score h w (inum 5)) sm (map nnum ?t)) (\<lambda>f. if f \<in> set ?t then put (str_key w) (inum 5) (S f) else S f)"
    using d b by (intro set_score_fold [OF assms(1,4)]) auto
  have "sm_ok ?sm (\<lambda>f. if f \<in> set ?tt then put (str_key w) (inum 15)
      (if f \<in> set ?t then put (str_key w) (inum 5) (S f) else S f)
      else if f \<in> set ?t then put (str_key w) (inum 5) (S f) else S f)"
    using d b by (intro set_score_fold [OF assms(1) s5]) auto
  moreover have "(\<lambda>f. if f \<in> set ?tt then put (str_key w) (inum 15)
      (if f \<in> set ?t then put (str_key w) (inum 5) (S f) else S f)
      else if f \<in> set ?t then put (str_key w) (inum 5) (S f) else S f)
    = (\<lambda>f. if f \<in> set (files_of h idx w) then put (str_key w) (inum (word_score h idx f w)) (S f) else S f)"
    using d by (auto simp: fun_eq_iff files_of_def word_score_def)
  moreover have "(search_word h idx (fm, sm) w :: ('s, maps option) js) = retM (Some (fm', ?sm))"
    using nm coll fm'(1) unfolding search_word_def missing_def prod.case Let_def by (auto simp del: foldM.simps)
  ultimately show "\<exists>fm' sm'. (search_word h idx (fm, sm) w :: ('s, maps option) js) = retM (Some (fm', sm'))
      \<and> fm_ok fm' (\<lambda>f. if f \<in> set (files_of h idx w) then W f @ [w] else W f)
      \<and> sm_ok sm' (\<lambda>f. if f \<in> set (files_of h idx w) then put (str_key w) (inum (word_score h idx f w)) (S f) else S f)"
    using fm'(2) by (auto simp: files_of_def)
qed

section \<open>All the words\<close>

definition live :: "heap \<Rightarrow> search_index \<Rightarrow> string list \<Rightarrow> string list" where
  "live h idx ws = takeWhile (\<lambda>w. \<not> missing h idx w) ws"

definition words_in :: "heap \<Rightarrow> search_index \<Rightarrow> string list \<Rightarrow> nat \<Rightarrow> string list" where
  "words_in h idx ws f = filter (\<lambda>w. f \<in> set (files_of h idx w)) (live h idx ws)"

definition put_scores :: "heap \<Rightarrow> search_index \<Rightarrow> nat \<Rightarrow> string list \<Rightarrow> props \<Rightarrow> props" where
  "put_scores h idx f ws ps = foldl (\<lambda>ps w. put (str_key w) (inum (word_score h idx f w)) ps) ps ws"

lemma put_scores_simps [simp]:
  "put_scores h idx f [] ps = ps"
  "put_scores h idx f (w # ws) ps = put_scores h idx f ws (put (str_key w) (inum (word_score h idx f w)) ps)"
  by (simp_all add: put_scores_def)

lemma map_of_put_scores:
  "map_of (put_scores h idx f ws ps) (str_key w) =
    (if w \<in> set ws then Some (inum (word_score h idx f w)) else map_of ps (str_key w))"
  by (induction ws arbitrary: ps) (auto simp: str_key_inj)

lemma put_scores_Nil: "put_scores h idx f ws [] = [] \<longleftrightarrow> ws = []"
proof (cases ws)
  case (Cons w ws')
  then have "map_of (put_scores h idx f ws []) (str_key w) \<noteq> None" by (simp add: map_of_put_scores)
  with Cons show ?thesis by (metis list.distinct(1) map_of.simps(1))
qed simp

lemma search_words_spec:
  assumes "clean_protos h"
  shows "fm_ok fm W \<Longrightarrow> sm_ok sm S \<Longrightarrow> \<forall>w\<in>set ws. wf_word h idx w \<Longrightarrow>
    \<exists>fm' sm'. (search_words h idx (fm, sm) ws :: ('s, maps) js) = retM (fm', sm')
      \<and> fm_ok fm' (\<lambda>f. W f @ words_in h idx ws f)
      \<and> sm_ok sm' (\<lambda>f. put_scores h idx f (words_in h idx ws f) (S f))"
proof (induction ws arbitrary: fm W sm S)
  case Nil
  then show ?case by (auto simp: words_in_def live_def)
next
  case (Cons w ws)
  from Cons.prems have wf: "wf_word h idx w" by simp
  note step = search_word_step [OF assms wf Cons.prems(1,2)]
  show ?case
  proof (cases "missing h idx w")
    case True
    with step [where ?'s = 's] Cons.prems show ?thesis by (auto simp: words_in_def live_def)
  next
    case False
    with step [where ?'s = 's] obtain fm1 sm1 where
      s1: "(search_word h idx (fm, sm) w :: ('s, maps option) js) = retM (Some (fm1, sm1))"
      and f1: "fm_ok fm1 (\<lambda>f. if f \<in> set (files_of h idx w) then W f @ [w] else W f)"
      and m1: "sm_ok sm1 (\<lambda>f. if f \<in> set (files_of h idx w) then put (str_key w) (inum (word_score h idx f w)) (S f) else S f)"
      by blast
    have "(\<lambda>f. (if f \<in> set (files_of h idx w) then W f @ [w] else W f) @ words_in h idx ws f)
        = (\<lambda>f. W f @ words_in h idx (w # ws) f)"
      and "(\<lambda>f. put_scores h idx f (words_in h idx ws f)
          (if f \<in> set (files_of h idx w) then put (str_key w) (inum (word_score h idx f w)) (S f) else S f))
        = (\<lambda>f. put_scores h idx f (words_in h idx (w # ws) f) (S f))"
      using False by (auto simp: words_in_def live_def fun_eq_iff)
    with Cons.IH [OF f1 m1] Cons.prems(3) s1 show ?thesis by simp
  qed
qed

lemma strict_eq_Undef: "strict_eq v Undef \<longleftrightarrow> v = Undef"
  by (cases v) auto

lemma missing_no_files: "missing h idx w \<Longrightarrow> files_of h idx w = []"
  by (simp add: missing_def files_of_def posting_def strict_eq_Undef)

lemma words_in_all:
  "length (words_in h idx ws f) = length ws \<longleftrightarrow> (\<forall>w\<in>set ws. f \<in> set (files_of h idx w))"
  "(\<forall>w\<in>set ws. f \<in> set (files_of h idx w)) \<Longrightarrow> words_in h idx ws f = ws"
proof -
  show 2: "words_in h idx ws f = ws" if "\<forall>w\<in>set ws. f \<in> set (files_of h idx w)"
  proof -
    have "live h idx ws = ws" using that missing_no_files unfolding live_def
      by (metis empty_iff list.set(1) takeWhile_eq_all_conv)
    then show ?thesis using that by (simp add: words_in_def)
  qed
  have "words_in h idx ws f = ws" if len: "length (words_in h idx ws f) = length ws"
  proof -
    have "length (words_in h idx ws f) \<le> length (live h idx ws)" "length (live h idx ws) \<le> length ws"
      by (simp_all add: words_in_def live_def length_takeWhile_le)
    with len have "live h idx ws = ws" unfolding live_def
      by (metis append_take_drop_id le_antisym takeWhile_eq_take take_all)
    with len show ?thesis unfolding words_in_def by (metis length_filter_less order_less_irrefl filter_id_conv)
  qed
  then show "length (words_in h idx ws f) = length ws \<longleftrightarrow> (\<forall>w\<in>set ws. f \<in> set (files_of h idx w))"
    using 2 unfolding words_in_def by (metis (mono_tags, lifting) filter_id_conv live_def mem_Collect_eq set_filter)
qed

section \<open>The results\<close>

definition text_result :: "heap \<Rightarrow> search_index \<Rightarrow> string list \<Rightarrow> nat \<Rightarrow> result" where
  "text_result h idx ws f = \<lparr>r_file = str_at (filenames idx) f, r_title = str_at (titles idx) f, r_anchor = [],
     r_descr = None, r_score = inum (if \<exists>w\<in>set ws. f \<in> set (posting h (titleterms idx) w) then 15 else 5)\<rparr>"

lemma Max_word_score:
  assumes "ws \<noteq> []"
  shows "Max (set (map (word_score h idx f) ws))
    = (if \<exists>w\<in>set ws. f \<in> set (posting h (titleterms idx) w) then 15 else 5)"
proof (cases "\<exists>w\<in>set ws. f \<in> set (posting h (titleterms idx) w)")
  case True
  then show ?thesis by (intro Max_eqI) (auto simp: word_score_def)
next
  case False
  with assms have "set (map (word_score h idx f) ws) = {5}" by (cases ws) (auto simp: word_score_def)
  with False show ?thesis by auto
qed

lemma map_u_words:
  assumes "length ws < 4294967295"
  shows "(map_u h (Arr (map Str ws)) (Fn (\<lambda>this vs. retM (g (arg vs 0)))) Undef :: ('s, jsval list) js)
    = retM (map (\<lambda>w. g (Str w)) ws)"
proof -
  have "map (\<lambda>k. g (elem h (Arr (map Str ws)) k)) (map nnum [0..<length (map Str ws)])
      = map g (map (elem h (Arr (map Str ws))) (map nnum [0..<length (map Str ws)]))" by simp
  also have "\<dots> = map g (map Str ws)" using assms by (subst map_elem_id) simp_all
  finally show ?thesis using assms
    by (subst map_u_pure [where ks = "map nnum [0..<length (map Str ws)]" and n = "length ws"])
       (simp_all add: entries_def comp_def)
qed

lemma file_score_spec:
  assumes "sm_ok sm (\<lambda>f. put_scores h idx f (words_in h idx ws f) [])" "words_in h idx ws f = ws"
    "ws \<noteq> []" "length ws < 4294967295"
  shows "(file_score h sm (Idx f) (Arr (map Str ws)) :: ('s, jsval) js) = retM (r_score (text_result h idx ws f))"
proof -
  let ?ps = "put_scores h idx f ws []"
  have "get h (PObj sm) (Idx f) = PObj ?ps"
    using assms(1-3) by (simp add: sm_ok_def get_def lookup_prop_def put_scores_Nil)
  then have "(file_score h sm (Idx f) (Arr (map Str ws)) :: ('s, jsval) js)
      = max_u h (Arr (map (\<lambda>w. get h (PObj ?ps) (str_key w)) ws)) (Val Undef) Undef"
    using map_u_words [OF assms(4), where g = "\<lambda>v. get h (PObj ?ps) (to_key h v)" and h = h and ?'s = 's]
    by (simp add: file_score_def)
  also have "map (\<lambda>w. get h (PObj ?ps) (str_key w)) ws = map inum (map (word_score h idx f) ws)"
    by (simp add: get_def lookup_prop_def map_of_put_scores)
  also have "max_u h (Arr (map inum (map (word_score h idx f) ws))) (Val Undef) Undef
      = (retM (r_score (text_result h idx ws f)) :: ('s, jsval) js)"
    using assms(3,4) by (subst max_u_ints) (simp_all add: Max_word_score [unfolded set_map] text_result_def)
  finally show ?thesis .
qed

lemma file_result_spec:
  assumes "fm_ok fm (words_in h idx ws)" "sm_ok sm (\<lambda>f. put_scores h idx f (words_in h idx ws f) [])"
    "ws \<noteq> []" "length ws < 4294967295" "words_in h idx ws f \<noteq> []"
  shows "(file_result h idx ws [] (fm, sm) (Idx f) :: ('s, result list) js)
    = retM (if \<forall>w\<in>set ws. f \<in> set (files_of h idx w) then [text_result h idx ws f] else [])"
proof -
  from assms(1,5) have g: "get h (PObj fm) (Idx f) = Arr (map Str (words_in h idx ws f))"
    by (simp add: fm_ok_def get_def lookup_prop_def)
  show ?thesis
  proof (cases "\<forall>w\<in>set ws. f \<in> set (files_of h idx w)")
    case True
    note w = words_in_all(2) [OF True]
    from g w file_score_spec [OF assms(2) w assms(3,4), where ?'s = 's] True show ?thesis
      by (simp add: file_result_def Let_def text_result_def key_at_def)
  next
    case False
    then have "length (words_in h idx ws f) \<noteq> length ws" using words_in_all(1) by blast
    with g have "(file_result h idx ws [] (fm, sm) (Idx f) :: ('s, result list) js) = retM []"
      by (simp add: file_result_def Let_def)
    then show ?thesis unfolding if_not_P [OF False] .
  qed
qed

text \<open>The documents in the order in which the loop over the map visits them.\<close>

definition fm_docs :: "props \<Rightarrow> nat list" where
  "fm_docs fm = sort (List.map_filter idx_of (map fst fm))"

lemma for_in_docs:
  assumes "clean_protos h" "fm_ok fm W"
  shows "for_in h (PObj fm) = map Idx (fm_docs fm)" "sorted_wrt (<) (fm_docs fm)"
    "set (fm_docs fm) = {f. W f \<noteq> []}"
proof -
  have nn: "idx_of k \<noteq> None" if "k \<in> set (map fst fm)" for k
    using assms(2) that by (cases k) (auto simp: fm_ok_def map_of_eq_None_iff)
  then have "filter (\<lambda>k. idx_of k = None) (map fst fm) = []" by (simp add: filter_empty_conv)
  then have ok: "order_keys (map fst fm) = map Idx (fm_docs fm)" by (simp add: order_keys_def fm_docs_def)
  with assms(1) show "for_in h (PObj fm) = map Idx (fm_docs fm)" by (simp add: for_in_def clean_protos_def)
  have "distinct (order_keys (map fst fm))" using assms(2) by (simp add: fm_ok_def)
  then have "distinct (fm_docs fm)" unfolding ok by (simp add: distinct_map)
  then show "sorted_wrt (<) (fm_docs fm)" by (simp add: strict_sorted_iff fm_docs_def)
  have "f \<in> set (fm_docs fm) \<longleftrightarrow> map_of fm (Idx f) \<noteq> None" for f
    using arg_cong [OF ok, of set] by (auto simp: map_of_eq_None_iff)
  with assms(2) show "set (fm_docs fm) = {f. W f \<noteq> []}" by (auto simp: fm_ok_def)
qed

lemma concat_if_single: "concat (map (\<lambda>x. if P x then [g x] else []) xs) = map g (filter P xs)"
  by (induction xs) auto

text \<open>
  C2. The full-text search is sound and complete. On an index whose entries are well formed
  for the words of the query (a word's entry is absent, a document number or a list of
  different document numbers, and no document has the word both in its text and in its
  title), the search ends normally and its results are the documents that contain every
  word, in their text or in their title, each once and in ascending order of their number;
  the score is 15 where some word is in the title and 5 otherwise.
\<close>

theorem terms_search_complete:
  assumes "clean_protos h" "ws \<noteq> []" "length ws < 4294967295" "\<forall>w\<in>set ws. wf_word h idx w"
  shows "\<exists>fs. (performTermsSearch h idx ws [] :: ('s, result list) js) = retM (map (text_result h idx ws) fs)
    \<and> sorted_wrt (<) fs \<and> set fs = {f. \<forall>w\<in>set ws. f \<in> set (files_of h idx w)}"
proof -
  have e: "fm_ok [] (\<lambda>f. [])" "sm_ok [] (\<lambda>f. [])" by (simp_all add: fm_ok_def sm_ok_def)
  from search_words_spec [OF assms(1) e assms(4), where ?'s = 's] obtain fm sm where
    s: "(search_words h idx ([], []) ws :: ('s, maps) js) = retM (fm, sm)"
    and fm: "fm_ok fm (words_in h idx ws)"
    and sm: "sm_ok sm (\<lambda>f. put_scores h idx f (words_in h idx ws f) [])" by auto
  let ?all = "\<lambda>f. \<forall>w\<in>set ws. f \<in> set (files_of h idx w)"
  note docs = for_in_docs [OF assms(1) fm]
  have "(mapM (file_result h idx ws [] (fm, sm)) (map Idx (fm_docs fm)) :: ('s, result list list) js)
      = mapM (\<lambda>k. retM (case k of Idx f \<Rightarrow> if ?all f then [text_result h idx ws f] else [] | Name n \<Rightarrow> [])) (map Idx (fm_docs fm))"
  proof (intro mapM_cong_set refl)
    fix k assume k: "k \<in> set (map Idx (fm_docs fm))"
    then obtain f where f: "k = Idx f" "words_in h idx ws f \<noteq> []" using docs(3) by auto
    with file_result_spec [OF fm sm assms(2,3), of f, where ?'s = 's]
    show "file_result h idx ws [] (fm, sm) k = (retM (case k of Idx f \<Rightarrow> if ?all f then [text_result h idx ws f] else []
        | Name n \<Rightarrow> []) :: ('s, result list) js)" by simp
  qed
  then have "(performTermsSearch h idx ws [] :: ('s, result list) js)
      = retM (map (text_result h idx ws) (filter ?all (fm_docs fm)))"
    by (simp add: performTermsSearch_def s docs(1) mapM_pure comp_def concat_if_single)
  moreover have "set (filter ?all (fm_docs fm)) = {f. ?all f}"
    using docs(3) words_in_all(2) assms(2) by auto
  ultimately show ?thesis using docs(2) by (intro exI [of _ "filter ?all (fm_docs fm)"]) (simp add: sorted_wrt_filter)
qed

text \<open>Two words, one in the text of documents 1 and 2, one in the title of document 2.\<close>

definition sample_index :: search_index where
  "sample_index = \<lparr>filenames = [''a'', ''b'', ''c''], titles = [''A'', ''B'', ''C''], objnames = (\<lambda>n. []), objects = [],
     terms = [(Name ''row'', Arr [nnum 1, nnum 2])], titleterms = [(Name ''key'', nnum 2)]\<rparr>"

theorem terms_search_complete_witness:
  "clean_protos [] \<and> wf_word [] sample_index ''row'' \<and> wf_word [] sample_index ''key''
   \<and> (performTermsSearch [] sample_index [''row'', ''key''] [] :: (unit, result list) js)
     = retM [\<lparr>r_file = ''c'', r_title = ''C'', r_anchor = [], r_descr = None, r_score = inum 15\<rparr>]"
proof -
  have clean: "clean_protos []"
    by (simp add: clean_protos_def chain_get.simps chain_keys.simps obj_at_def plain_obj_def order_keys_def
        List.map_filter_def has_length_def ObjProto_def NumberProto_def LEN_def)
  have keys: "str_key ''row'' = Name ''row''" "str_key ''key'' = Name ''key''"
    by (simp_all add: str_key_def canonical_numeral_def is_digit_def)
  have post: "get [] (PObj (terms sample_index)) (str_key ''row'') = Arr [nnum 1, nnum 2]"
    "get [] (PObj (terms sample_index)) (str_key ''key'') = Undef"
    "get [] (PObj (titleterms sample_index)) (str_key ''row'') = Undef"
    "get [] (PObj (titleterms sample_index)) (str_key ''key'') = nnum 2"
    by (simp_all add: keys get_def lookup_prop_def sample_index_def chain_get.simps obj_at_def plain_obj_def has_length_def ObjProto_def)
  have p: "posting [] (terms sample_index) ''row'' = [1, 2]" "posting [] (terms sample_index) ''key'' = []"
    "posting [] (titleterms sample_index) ''row'' = []" "posting [] (titleterms sample_index) ''key'' = [2]"
    by (simp_all add: posting_def post)
  have wf: "\<forall>w\<in>set [''row'', ''key'']. wf_word [] sample_index w"
    by (simp add: wf_word_def wf_posting_def files_of_def p post)
  obtain fs where fs: "(performTermsSearch [] sample_index [''row'', ''key''] [] :: (unit, result list) js)
      = retM (map (text_result [] sample_index [''row'', ''key'']) fs)"
    "sorted_wrt (<) fs" "set fs = {f. \<forall>w\<in>set [''row'', ''key'']. f \<in> set (files_of [] sample_index w)}"
    using terms_search_complete [OF clean _ _ wf, where ?'s = unit] by auto
  have "set fs = {2}" unfolding fs(3) by (auto simp: files_of_def p)
  with fs(2) have "fs = [2]" by (intro strict_sorted_equal) simp_all
  moreover have "text_result [] sample_index [''row'', ''key''] 2
      = \<lparr>r_file = ''c'', r_title = ''C'', r_anchor = [], r_descr = None, r_score = inum 15\<rparr>"
    by (simp add: text_result_def p) (simp add: sample_index_def str_at_def)
  ultimately show ?thesis using fs(1) clean wf by simp
qed

section \<open>Words that objects inherit\<close>

text \<open>
  The index of this documentation has the word \<open>constructor\<close> in \<open>terms\<close> and not
  in \<open>titleterms\<close>. There the lookup finds the inherited \<open>Object\<close> function, whose
  \<open>length\<close> is 1; it is taken for a list of documents, the function becomes a key of the
  file map without an entry in the score map, and the search ends in a TypeError.
\<close>

definition object_function :: jsobj where
  "object_function = plain_obj\<lparr>cls := CFunction, hidden := [(LEN, inum 1)], strv := ''function Object() {}''\<rparr>"

definition page_heap :: heap where
  "page_heap = [plain_obj\<lparr>hidden := [(Name ''constructor'', Ref 6)], proto := None\<rparr>,
     plain_obj, plain_obj, plain_obj, plain_obj, plain_obj, object_function]"

definition constructor_index :: search_index where
  "constructor_index = \<lparr>filenames = [''a''], titles = [''A''], objnames = (\<lambda>n. []), objects = [],
     terms = [(Name ''constructor'', nnum 0)], titleterms = []\<rparr>"

lemma constructor_lookups:
  "str_key ''constructor'' = Name ''constructor''" "str_key ''function Object() {}'' = Name ''function Object() {}''"
  "str_key ''undefined'' = Name ''undefined''"
  by (simp_all add: str_key_def canonical_numeral_def is_digit_def)

lemma constructor_query_throws:
  "(performTermsSearch page_heap constructor_index [''constructor''] [] :: ('s, result list) js)
    = throwM (TypeErr ''cannot read property of null or undefined'')"
proof -
  have g: "get page_heap (PObj (terms constructor_index)) (str_key ''constructor'') = inum 0"
    "get page_heap (PObj (titleterms constructor_index)) (str_key ''constructor'') = Ref 6"
    by (simp_all add: constructor_lookups get_def lookup_prop_def constructor_index_def page_heap_def chain_get.simps
        obj_at_def plain_obj_def has_length_def ObjProto_def)
  have l: "get page_heap (inum 0) LEN = Undef" "get page_heap (Ref 6) LEN = inum 1"
    "get page_heap (Ref 6) (Idx 0) = Undef"
    by (simp_all add: get_def lookup_prop_def page_heap_def object_function_def chain_get.simps
        obj_at_def plain_obj_def has_length_def ObjProto_def NumberProto_def LEN_def)
  have i: "has_prop page_heap (PObj ps) (Idx 0) \<longleftrightarrow> map_of ps (Idx 0) \<noteq> None"
    "has_prop page_heap (PObj ps) (Name n) \<longleftrightarrow> map_of ps (Name n) \<noteq> None \<or> n = ''constructor''" for ps n
    by (auto simp: has_prop_def lookup_prop_def page_heap_def chain_get.simps obj_at_def plain_obj_def has_length_def
        ObjProto_def split: option.split)
  have k0: "to_key page_heap (inum 0) = Idx 0" using to_key_nnum [of 0] by simp
  have k1: "to_key page_heap Undef = Name ''undefined''"
    "to_key page_heap (Ref 6) = Name ''function Object() {}''"
    by (simp_all add: to_key_def constructor_lookups page_heap_def obj_at_def object_function_def)
  note k = k0 k1
  have it: "arr_items page_heap (Ref 6) = Inr [Undef]" "\<not> isArray_u page_heap (Ref 6)"
    by (simp_all add: arr_items_def l items_def k) (simp_all add: isArray_u_def toString_call_def page_heap_def obj_at_def object_function_def)
  let ?sm = "[(Idx 0, PObj [(Name ''constructor'', inum 5)]), (Name ''undefined'', PObj [(Name ''constructor'', inum 15)])]"
  have c1: "(collect_files page_heap ''constructor'' ([], []) (inum 0, inum 5) :: ('s, jsval list \<times> props) js)
      = retM ([inum 0], [(Idx 0, PObj [(Name ''constructor'', inum 5)])])"
    by (simp add: collect_files_def as_list_def l set_score_def k i constructor_lookups Let_def)
  have c2: "(collect_files page_heap ''constructor'' ([inum 0], [(Idx 0, PObj [(Name ''constructor'', inum 5)])])
      (Ref 6, inum 15) :: ('s, jsval list \<times> props) js) = retM ([inum 0, Ref 6], ?sm)"
    by (simp add: collect_files_def as_list_def l it set_score_def k i constructor_lookups Let_def)
  let ?fm = "[(Idx 0, Arr [Str ''constructor'']), (Name ''function Object() {}'', Arr [Str ''constructor''])]"
  have s: "(search_words page_heap constructor_index ([], []) [''constructor''] :: ('s, maps) js) = retM (?fm, ?sm)"
    by (simp add: search_word_def g Let_def c1 c2 Scorer_def add_word_def k i)
  have fi: "for_in page_heap (PObj ?fm) = [Idx 0, Name ''function Object() {}'']"
    by (simp add: for_in_def order_keys_def List.map_filter_def chain_keys.simps page_heap_def obj_at_def plain_obj_def ObjProto_def)
  have r: "get page_heap (PObj ?fm) (Idx 0) = Arr [Str ''constructor'']"
    "get page_heap (PObj ?fm) (Name ''function Object() {}'') = Arr [Str ''constructor'']"
    "get page_heap (PObj ?sm) (Idx 0) = PObj [(Name ''constructor'', inum 5)]"
    "get page_heap (PObj ?sm) (Name ''function Object() {}'') = Undef"
    "get page_heap (PObj [(Name ''constructor'', inum 5)]) (Name ''constructor'') = inum 5"
    by (simp_all add: get_def lookup_prop_def page_heap_def chain_get.simps obj_at_def plain_obj_def has_length_def ObjProto_def)
  have e: "elem page_heap (Arr [v]) (inum 0) = v" for v
    using elem_nnum_Arr [of 0 "[v]" page_heap] by simp
  have f0: "(file_score page_heap ?sm (Idx 0) (Arr [Str ''constructor'']) :: ('s, jsval) js) = retM (inum 5)"
    using max_u_ints [of "[5]" page_heap]
    by (simp add: file_score_def r map_u_def e constructor_lookups array_length_def)
  have f1: "(file_score page_heap ?sm (Name ''function Object() {}'') (Arr [Str ''constructor'']) :: ('s, jsval) js)
      = throwM (TypeErr ''cannot read property of null or undefined'')"
    by (simp add: file_score_def r map_u_def e constructor_lookups array_length_def)
  show ?thesis
    by (simp add: performTermsSearch_def s fi file_result_def r f0 f1 del: search_words.simps)
qed

end
