(* ===== verification/JQuery_Core.thy ===== *)
theory JQuery_Core
  imports Underscore_Objects
begin

text \<open>
  The core of jquery.js: the type tests, \<open>jQuery.extend\<close> on the store, the loops over
  arrays and objects, and the methods of a jQuery object that work on its list of elements.
  Shown: a shallow \<open>jQuery.extend\<close> of object literals does what \<open>_.extend\<close> does.
\<close>

section \<open>Types\<close>

definition class2type :: "(string \<times> string) list" where
  "class2type = map (\<lambda>(name, lower). (''[object '' @ name @ '']'', lower))
     [(''Boolean'', ''boolean''), (''Number'', ''number''), (''String'', ''string''), (''Function'', ''function''),
      (''Array'', ''array''), (''Date'', ''date''), (''RegExp'', ''regexp''), (''Object'', ''object''), (''Error'', ''error'')]"

definition type_jq :: "heap \<Rightarrow> jsval \<Rightarrow> string" where
  "type_jq h obj = (if nullish obj then to_str h obj
     else if typeof h obj = ''object'' \<or> typeof h obj = ''function''
     then (case map_of class2type (toString_call h obj) of Some t \<Rightarrow> t | None \<Rightarrow> ''object'')
     else typeof h obj)"

definition isFunction_jq :: "heap \<Rightarrow> jsval \<Rightarrow> bool" where
  "isFunction_jq h obj \<longleftrightarrow> type_jq h obj = ''function''"

text \<open>\<open>Array.isArray\<close>\<close>

definition isArray_jq :: "heap \<Rightarrow> jsval \<Rightarrow> bool" where
  "isArray_jq h obj \<longleftrightarrow> isObject obj \<and> class_of h obj = ''Array''"

text \<open>\<open>a == b\<close>\<close>

definition loose_eq :: "heap \<Rightarrow> jsval \<Rightarrow> jsval \<Rightarrow> bool" where
  "loose_eq h a b = (if nullish a \<or> nullish b then nullish a \<and> nullish b
     else if isObject a \<and> isObject b then strict_eq a b
     else (case (to_prim h a, to_prim h b) of
         (Str s, Str t) \<Rightarrow> s = t
       | (p, q) \<Rightarrow> num_eq (prim_number p) (prim_number q)))"

definition isWindow_jq :: "heap \<Rightarrow> jsval \<Rightarrow> bool" where
  "isWindow_jq h obj \<longleftrightarrow> \<not> nullish obj \<and> loose_eq h obj (get h obj (Name ''window''))"

text \<open>\<open>parseFloat\<close> agrees with the conversion to a number on the numerals of the model.\<close>

definition isNumeric_jq :: "heap \<Rightarrow> jsval \<Rightarrow> bool" where
  "isNumeric_jq h obj \<longleftrightarrow> \<not> isArray_jq h obj \<and> (case to_prim h obj of
      Num n \<Rightarrow> n \<notin> {NaN, PInf, NInf}
    | Str s \<Rightarrow> trim s \<noteq> [] \<and> str_number s \<notin> {NaN, PInf, NInf}
    | _ \<Rightarrow> False)"

definition isEmptyObject_jq :: "heap \<Rightarrow> jsval \<Rightarrow> bool" where
  "isEmptyObject_jq h obj \<longleftrightarrow> nullish obj \<or> for_in h obj = []"

text \<open>
  \<open>hasOwn.call(obj.constructor.prototype, "isPrototypeOf")\<close>, false where it throws.
\<close>

definition ctor_is_object :: "heap \<Rightarrow> jsval \<Rightarrow> bool" where
  "ctor_is_object h obj = (let p = get h (get h obj (Name ''constructor'')) (Name ''prototype'') in
     \<not> nullish p \<and> has_own h p (Name ''isPrototypeOf''))"

definition isPlainObject_jq :: "bool \<Rightarrow> heap \<Rightarrow> jsval \<Rightarrow> bool" where
  "isPlainObject_jq ownLast h obj =
     (if \<not> truthy obj \<or> type_jq h obj \<noteq> ''object'' \<or> truthy (get h obj (Name ''nodeType'')) \<or> isWindow_jq h obj then False
      else if truthy (get h obj (Name ''constructor'')) \<and> \<not> has_own h obj (Name ''constructor'') \<and> \<not> ctor_is_object h obj then False
      else if for_in h obj = [] then True
      else has_own h obj (if ownLast then hd (for_in h obj) else last (for_in h obj)))"

section \<open>Extend\<close>

text \<open>
  \<open>jQuery.extend\<close>: the target is an object of the store; \<open>depth\<close> is the depth of
  the call stack, whose overflow is a RangeError. A literal that a deep copy goes into is
  given an address first.
\<close>

definition clone_target :: "bool \<Rightarrow> heap \<Rightarrow> jsval \<Rightarrow> jsval \<Rightarrow> heap \<times> nat" where
  "clone_target ownLast h src copy =
     (if isPlainObject_jq ownLast h copy then intern h (if truthy src \<and> isPlainObject_jq ownLast h src then src else PObj [])
      else intern h (if truthy src \<and> isArray_jq h src then src else Arr []))"

fun extend_props :: "nat \<Rightarrow> bool \<Rightarrow> bool \<Rightarrow> heap \<Rightarrow> nat \<Rightarrow> jsval \<Rightarrow> key list \<Rightarrow> jsexn + heap" where
  "extend_props depth ownLast deep h r opts [] = Inr h"
| "extend_props depth ownLast deep h r opts (name # names) =
     (let src = get h (Ref r) name; copy = get h opts name in
      if strict_eq (Ref r) copy then extend_props depth ownLast deep h r opts names
      else if deep \<and> truthy copy \<and> (isPlainObject_jq ownLast h copy \<or> isArray_jq h copy) then
        (case depth of
           0 \<Rightarrow> Inl (RangeErr ''Maximum call stack size exceeded'')
         | Suc depth' \<Rightarrow> (let (h1, c) = clone_target ownLast h src copy in
             case extend_props depth' ownLast deep h1 c copy (for_in h1 copy) of
               Inl e \<Rightarrow> Inl e
             | Inr h2 \<Rightarrow> extend_props depth ownLast deep (set_prop h2 r name (Ref c)) r opts names))
      else if \<not> strict_eq copy Undef then extend_props depth ownLast deep (set_prop h r name copy) r opts names
      else extend_props depth ownLast deep h r opts names)"

fun extend_sources :: "nat \<Rightarrow> bool \<Rightarrow> bool \<Rightarrow> heap \<Rightarrow> nat \<Rightarrow> jsval list \<Rightarrow> jsexn + heap" where
  "extend_sources depth ownLast deep h r [] = Inr h"
| "extend_sources depth ownLast deep h r (opts # rest) =
     (if nullish opts then extend_sources depth ownLast deep h r rest
      else (case extend_props depth ownLast deep h r opts (for_in h opts) of
          Inl e \<Rightarrow> Inl e
        | Inr h' \<Rightarrow> extend_sources depth ownLast deep h' r rest))"

text \<open>
  The arguments: a leading boolean asks for a deep copy; a target that is no object is
  replaced by a new one; with a single argument the object \<open>this\<close> is extended.
\<close>

definition extend_jq :: "nat \<Rightarrow> bool \<Rightarrow> heap \<Rightarrow> jsval \<Rightarrow> jsval list \<Rightarrow> jsexn + heap \<times> jsval" where
  "extend_jq depth ownLast h this args =
     (let first = (if truthy (arg args 0) then arg args 0 else PObj []);
          deep = (first = Bool True);
          isbool = (typeof h first = ''boolean'');
          target0 = (if isbool then (if truthy (arg args 1) then arg args 1 else PObj []) else first);
          i = (if isbool then 2 else 1 :: nat);
          target1 = (if typeof h target0 \<noteq> ''object'' \<and> \<not> isFunction_jq h target0 then PObj [] else target0);
          (target, i') = (if i = length args then (this, i - 1) else (target1, i));
          (h1, r) = intern h target in
      case extend_sources depth ownLast deep h1 r (drop i' args) of
        Inl e \<Rightarrow> Inl e | Inr h2 \<Rightarrow> Inr (h2, Ref r))"

section \<open>Loops\<close>

text \<open>\<open>isArraylike\<close>: the operator \<open>in\<close> throws on a primitive value.\<close>

definition isArraylike_jq :: "heap \<Rightarrow> jsval \<Rightarrow> jsexn + bool" where
  "isArraylike_jq h obj =
     (if \<not> isObject obj then Inl (TypeErr ''cannot use in operator'')
      else (let len = (if has_prop h obj LEN then get h obj LEN else Bool False); type = type_jq h obj in
        Inr (if type = ''function'' \<or> isWindow_jq h obj then False
          else if strict_eq (get h obj (Name ''nodeType'')) (inum 1) \<and> truthy len then True
          else type = ''array'' \<or> strict_eq len (inum 0)
            \<or> (case len of Num (Fin n) \<Rightarrow> n > 0 \<and> has_prop h obj (to_key h (inum (n - 1))) | _ \<Rightarrow> False))))"

text \<open>The indices or the keys that a loop of jQuery visits, as the callback sees them.\<close>

definition loop_keys :: "heap \<Rightarrow> jsval \<Rightarrow> jsexn + jsval list" where
  "loop_keys h obj = (if nullish obj then Inl (TypeErr ''cannot read property of null or undefined'')
     else case isArraylike_jq h obj of
       Inl e \<Rightarrow> Inl e
     | Inr b \<Rightarrow> if b then map_sum (\<lambda>e. e) (\<lambda>n. map nnum [0..<n]) (loop_count (to_number h (get h obj LEN)))
               else Inr (map (\<lambda>k. Str (key_str k)) (for_in h obj)))"

text \<open>\<open>jQuery.each\<close>: the loop ends when the callback returns \<open>false\<close>.\<close>

definition each_jq :: "heap \<Rightarrow> jsval \<Rightarrow> 's fn \<Rightarrow> jsval list option \<Rightarrow> ('s, jsval) js" where
  "each_jq h obj callback args =
     bindM (liftE (loop_keys h obj)) (\<lambda>ks.
     bindM (anyM (\<lambda>i. let v = get h obj (to_key h i) in
        bindM (callback v (case args of Some as \<Rightarrow> as | None \<Rightarrow> [i, v])) (\<lambda>value.
        retM (strict_eq value (Bool False)))) ks) (\<lambda>_. retM obj))"

definition trim_jq :: "heap \<Rightarrow> jsval \<Rightarrow> string" where
  "trim_jq h v = (if nullish v then [] else trim (to_str h v))"

text \<open>
  \<open>jQuery.merge\<close>: with a length that is not a number, the items up to the first undefined one.
\<close>

function merge_tail :: "heap \<Rightarrow> jsval \<Rightarrow> nat \<Rightarrow> jsval list" where
  "merge_tail h second j = (if j \<ge> 4294967295 \<or> strict_eq (get h second (to_key h (nnum j))) Undef then []
     else get h second (to_key h (nnum j)) # merge_tail h second (Suc j))"
  by pat_completeness auto
termination
  by (relation "measure (\<lambda>(h, second, j). 4294967295 - j)") auto

declare merge_tail.simps [simp del]

definition merge_jq :: "heap \<Rightarrow> jsval list \<Rightarrow> jsval \<Rightarrow> jsexn + jsval list" where
  "merge_jq h first second = (if nullish second then Inl (TypeErr ''cannot read property of null or undefined'')
     else (let len = to_number h (get h second LEN) in
       if len = NaN then Inr (first @ merge_tail h second 0)
       else map_sum (\<lambda>e. e) (\<lambda>n. first @ items h second n) (loop_count len)))"

definition makeArray_jq :: "heap \<Rightarrow> jsval \<Rightarrow> jsval list \<Rightarrow> jsexn + jsval list" where
  "makeArray_jq h arr results =
     (if nullish arr then Inr results
      else (case arr of
          Str s \<Rightarrow> Inr (results @ [arr])
        | _ \<Rightarrow> if isObject arr then
                 (case isArraylike_jq h arr of Inl e \<Rightarrow> Inl e
                  | Inr b \<Rightarrow> if b then merge_jq h results arr else Inr (results @ [arr]))
               else Inr (results @ [arr])))"

text \<open>\<open>Array.prototype.indexOf.call(arr, elem, i)\<close>\<close>

definition inArray_jq :: "heap \<Rightarrow> jsval \<Rightarrow> jsval \<Rightarrow> int \<Rightarrow> jsexn + int" where
  "inArray_jq h item arr i =
     (if \<not> truthy arr then Inr (-1)
      else map_sum (\<lambda>e. e) (\<lambda>xs. let from = nat (if i < 0 then max 0 (int (length xs) + i) else i) in
        find_from (drop from xs) item from) (arr_items h arr))"

definition grep_jq :: "heap \<Rightarrow> jsval \<Rightarrow> 's fn \<Rightarrow> bool \<Rightarrow> ('s, jsval list) js" where
  "grep_jq h els callback invert =
     (if nullish els then throwM (TypeErr ''cannot read property of null or undefined'')
      else bindM (liftE (loop_count (to_number h (get h els LEN)))) (\<lambda>n.
        foldM (\<lambda>matches i. let v = get h els (to_key h (nnum i)) in
          bindM (callback Undef [v, nnum i]) (\<lambda>b.
          retM (if truthy b = invert then matches else matches @ [v]))) [] [0..<n]))"

definition map_jq :: "heap \<Rightarrow> jsval \<Rightarrow> 's fn \<Rightarrow> jsval \<Rightarrow> ('s, jsval list) js" where
  "map_jq h els callback a =
     bindM (liftE (loop_keys h els)) (\<lambda>ks.
     bindM (foldM (\<lambda>ret i. bindM (callback Undef [get h els (to_key h i), i, a]) (\<lambda>value.
        retM (if nullish value then ret else ret @ [value]))) [] ks) (\<lambda>ret.
     concat_args h [] ret))"

section \<open>Strings and functions\<close>

definition upper_char :: "char \<Rightarrow> char" where
  "upper_char c = (let n = of_char c :: nat in if 97 \<le> n \<and> n \<le> 122 then char_of (n - 32) else c)"

definition dash_alpha :: "char \<Rightarrow> bool" where
  "dash_alpha c \<longleftrightarrow> (let n = of_char c :: nat in is_digit c \<or> 65 \<le> n \<and> n \<le> 90 \<or> 97 \<le> n \<and> n \<le> 122)"

fun replace_dashes :: "string \<Rightarrow> string" where
  "replace_dashes [] = []"
| "replace_dashes [c] = [c]"
| "replace_dashes (c # d # cs) =
     (if c = CHR ''-'' \<and> dash_alpha d then upper_char d # replace_dashes cs else c # replace_dashes (d # cs))"

definition camelCase_jq :: "string \<Rightarrow> string" where
  "camelCase_jq s = replace_dashes (if take 4 s = ''-ms-'' then ''ms-'' @ drop 4 s else s)"

text \<open>
  \<open>jQuery.proxy\<close>: the call it makes, and the identifier it shares with the function
  (\<open>guid\<close> is the counter of the page).
\<close>

definition proxy_call :: "'s fn \<Rightarrow> jsval \<Rightarrow> jsval list \<Rightarrow> 's fn" where
  "proxy_call f context args = (\<lambda>this vs. f (if truthy context then context else this) (args @ vs))"

definition proxy_guid :: "nat \<Rightarrow> nat \<Rightarrow> nat \<times> nat" where
  "proxy_guid fnguid guid = (if fnguid \<noteq> 0 then (fnguid, guid) else (guid, guid + 1))"

section \<open>The list of elements of a jQuery object\<close>

datatype jq = JQ (jq_elems: "jsval list") (prevObject: "jq option")

definition pushStack_jq :: "jq \<Rightarrow> jsval list \<Rightarrow> jq" where
  "pushStack_jq this els = JQ els (Some this)"

definition get_jq :: "jq \<Rightarrow> int \<Rightarrow> jsval" where
  "get_jq this num = (let i = (if num < 0 then num + int (length (jq_elems this)) else num) in
     if 0 \<le> i then arg (jq_elems this) (nat i) else Undef)"

definition eq_jq :: "jq \<Rightarrow> int \<Rightarrow> jq" where
  "eq_jq this i = (let len = int (length (jq_elems this)); j = i + (if i < 0 then len else 0) in
     pushStack_jq this (if 0 \<le> j \<and> j < len then [jq_elems this ! nat j] else []))"

definition first_jq :: "jq \<Rightarrow> jq" where
  "first_jq this = eq_jq this 0"

definition last_jq :: "jq \<Rightarrow> jq" where
  "last_jq this = eq_jq this (-1)"

definition slice_jq :: "heap \<Rightarrow> jq \<Rightarrow> int \<Rightarrow> int \<Rightarrow> jq" where
  "slice_jq h this a b = (let n = int (length (jq_elems this));
       lo = nat (if a < 0 then max 0 (n + a) else min a n); hi = nat (if b < 0 then max 0 (n + b) else min b n) in
     pushStack_jq this (take (hi - lo) (drop lo (jq_elems this))))"

definition end_jq :: "jq \<Rightarrow> jq" where
  "end_jq this = (case prevObject this of Some p \<Rightarrow> p | None \<Rightarrow> JQ [] None)"

definition fn_map_jq :: "heap \<Rightarrow> jq \<Rightarrow> 's fn \<Rightarrow> ('s, jq) js" where
  "fn_map_jq h this callback =
     bindM (map_jq h (Arr (jq_elems this)) (\<lambda>t vs. callback (arg vs 0) [arg vs 1, arg vs 0]) Undef) (\<lambda>xs.
     retM (pushStack_jq this xs))"

section \<open>Shallow copies\<close>

definition no_enum :: "heap \<Rightarrow> bool" where
  "no_enum h \<longleftrightarrow> own_keys h (Ref ObjProto) = []"

lemma for_in_literal:
  assumes "no_enum h"
  shows "for_in h (PObj ps) = order_keys (map fst ps)"
proof -
  have "chain_keys h ObjProto = []"
    using assms unfolding no_enum_def by (subst chain_keys.simps) (simp add: ObjProto_def split: option.split)
  then show ?thesis by (simp add: for_in_def)
qed

lemma no_enum_set_prop: "r \<noteq> ObjProto \<Longrightarrow> no_enum (set_prop h r k v) = no_enum h"
  by (simp add: no_enum_def set_prop_def obj_at_def Let_def)

lemma get_literal: "k \<in> fst ` set ps \<Longrightarrow> get h (PObj ps) k = the (map_of ps k)"
  by (auto simp: get_def lookup_prop_def map_of_eq_None_iff split: option.split)

lemma has_own_literal: "k \<in> fst ` set ps \<Longrightarrow> has_own h (PObj ps) k"
  by (simp add: has_own_def map_of_eq_None_iff)

definition copyable :: "nat \<Rightarrow> (key \<times> jsval) list \<Rightarrow> bool" where
  "copyable r ps \<longleftrightarrow> list_all (\<lambda>(k, v). v \<noteq> Undef \<and> v \<noteq> Ref r) ps"

lemma copyable_value:
  assumes "copyable r ps" "k \<in> fst ` set ps"
  shows "\<not> strict_eq (Ref r) (the (map_of ps k)) \<and> \<not> strict_eq (the (map_of ps k)) Undef"
proof -
  from assms(2) have "map_of ps k \<noteq> None" by (simp add: map_of_eq_None_iff)
  then obtain v where v: "map_of ps k = Some v" by blast
  then have "(k, v) \<in> set ps" by (rule map_of_SomeD)
  with assms(1) v show ?thesis by (cases v) (auto simp: copyable_def list_all_iff)
qed

lemma extend_props_literal:
  assumes "copyable r ps" "set names \<subseteq> fst ` set ps"
  shows "extend_props depth ownLast False h r (PObj ps) names = Inr (foldl (\<lambda>h1 prop.
     if has_own h1 (PObj ps) prop then set_prop h1 r prop (get h1 (PObj ps) prop) else h1) h names)"
  using assms(2) copyable_value [OF assms(1)]
  by (induction names arbitrary: h) (simp_all add: get_literal has_own_literal Let_def)

lemma extend_sources_literal:
  assumes "list_all (copyable r) sources" "no_enum h" "r \<noteq> ObjProto"
  shows "extend_sources depth ownLast False h r (map PObj sources) = Inr (foldl (extend_from r) h (map PObj sources))"
  using assms(1,2)
proof (induction sources arbitrary: h)
  case (Cons ps sources)
  have "no_enum (foldl (\<lambda>h1 prop. if has_own h1 (PObj ps) prop then set_prop h1 r prop (get h1 (PObj ps) prop) else h1) h ks)" for ks
    using Cons.prems(2) by (induction ks arbitrary: h) (simp_all add: no_enum_set_prop [OF assms(3)])
  with Cons show ?case
    by (simp add: extend_from_def extend_props_literal for_in_literal)
qed simp



end
