(* ===== verification/Websupport.thy ===== *)
theory Websupport
  imports Doctools JQuery_Core
begin

text \<open>
  The comment system of websupport.js: the template renderer, the comparator and its cookie,
  the tree of comments on the page, voting, and the requests to the server with their
  handlers. The page is a record: the open popups with their lists of comments, which
  elements are visible (by their id), the forms, the requests sent and the errors shown.
  What a stylesheet hides at first (\<open>css\<close>) is a parameter, since the source leaves it
  to the page.
\<close>

section \<open>Text areas that grow\<close>

text \<open>\<open>Math.ceil(length / columns) || 1\<close>\<close>

definition line_rows :: "nat \<Rightarrow> nat \<Rightarrow> nat" where
  "line_rows columns len = (let n = (len + columns - 1) div columns in if n = 0 then 1 else n)"

definition autogrow_resize :: "nat \<Rightarrow> nat \<Rightarrow> string \<Rightarrow> nat" where
  "autogrow_resize lineHeight columns value =
     lineHeight * (sum_list (map (\<lambda>l. line_rows columns (length l)) (split_on (CHR 0x0A) value)) + 1)"

section \<open>Templates\<close>

definition bindE :: "'e + 'a \<Rightarrow> ('a \<Rightarrow> 'e + 'b) \<Rightarrow> 'e + 'b" where
  "bindE m f = (case m of Inl e \<Rightarrow> Inl e | Inr a \<Rightarrow> f a)"

lemma bindE_simps [simp]: "bindE (Inl e) f = Inl e" "bindE (Inr a) f = f a"
  by (simp_all add: bindE_def)

text \<open>\<open>esc.text(s).html()\<close>\<close>

definition html_char :: "char \<Rightarrow> string" where
  "html_char c = (if c = CHR ''&'' then ''&amp;'' else if c = CHR ''<'' then ''&lt;''
     else if c = CHR ''>'' then ''&gt;'' else if c = CHR 0xA0 then ''&nbsp;'' else [c])"

definition html_escape :: "string \<Rightarrow> string" where
  "html_escape s = concat (map html_char s)"

text \<open>\<open>cur = cur[this]\<close> for every part of the name\<close>

fun follow :: "heap \<Rightarrow> jsval \<Rightarrow> string list \<Rightarrow> jsexn + jsval" where
  "follow h cur [] = Inr cur"
| "follow h cur (p # ps) = (if nullish cur then Inl (TypeErr ''cannot read property of null or undefined'')
     else follow h (get h cur (str_key p)) ps)"

definition handle :: "heap \<Rightarrow> jsval \<Rightarrow> string \<Rightarrow> bool \<Rightarrow> jsexn + string" where
  "handle h context ph escape = bindE (follow h context (split_on (CHR ''.'') ph)) (\<lambda>cur.
     Inr (if escape then html_escape (if truthy cur then to_str h cur else []) else to_str h cur))"

text \<open>\<open>/<([%#])([\w\.]*)\1>/\<close> at the start of a string: the mark, the name and the rest.\<close>

definition placeholder :: "string \<Rightarrow> (char \<times> string \<times> string) option" where
  "placeholder s = (case s of
      c0 # c # rest \<Rightarrow>
        if c0 = CHR ''<'' \<and> (c = CHR ''%'' \<or> c = CHR ''#'') then
          (let name = takeWhile (\<lambda>x. word_char x \<or> x = CHR ''.'') rest; after = drop (length name) rest in
           if take 2 after = [c, CHR ''>''] then Some (c, name, drop 2 after) else None)
        else None
    | _ \<Rightarrow> None)"

lemma placeholder_shorter: "placeholder s = Some (c, name, r) \<Longrightarrow> length r < length s"
  by (auto simp: placeholder_def Let_def split: list.splits if_splits)

function renderTemplate :: "heap \<Rightarrow> jsval \<Rightarrow> string \<Rightarrow> jsexn + string" where
  "renderTemplate h context template = (case template of
      [] \<Rightarrow> Inr []
    | ch # cs \<Rightarrow> (case placeholder template of
        Some (c, name, r) \<Rightarrow> bindE (handle h context name (c = CHR ''%'')) (\<lambda>v.
          bindE (renderTemplate h context r) (\<lambda>t. Inr (v @ t)))
      | None \<Rightarrow> bindE (renderTemplate h context cs) (\<lambda>t. Inr (ch # t))))"
  by pat_completeness auto
termination
  by (relation "measure (\<lambda>(h, context, template). length template)") (auto dest: placeholder_shorter)

declare renderTemplate.simps [simp del]

section \<open>Comments and their order\<close>

record comment =
  c_id :: string
  c_node :: string
  c_parent :: string
  c_rating :: int
  c_vote :: int
  c_age :: int
  c_username :: string
  c_text :: string
  c_displayed :: bool
  c_proposal_diff :: string

text \<open>A comment as the server sends it, with its replies.\<close>

datatype thread = Thread comment "thread list"

text \<open>The property of a comment that the comparator reads.\<close>

definition c_field :: "comment \<Rightarrow> string \<Rightarrow> jsval" where
  "c_field c f = (if f = ''rating'' then inum (c_rating c) else if f = ''vote'' then inum (c_vote c)
     else if f = ''age'' then inum (c_age c) else if f = ''id'' then Str (c_id c)
     else if f = ''node'' then Str (c_node c) else if f = ''parent'' then Str (c_parent c)
     else if f = ''username'' then Str (c_username c) else if f = ''text'' then Str (c_text c)
     else if f = ''displayed'' then Bool (c_displayed c) else if f = ''proposal_diff'' then Str (c_proposal_diff c)
     else Undef)"

fun num_sub :: "jsnum \<Rightarrow> jsnum \<Rightarrow> jsnum" where
  "num_sub (Fin a) (Fin b) = Fin (a - b)"
| "num_sub a b = (case (norm0 a, norm0 b) of
      (Fin x, Fin y) \<Rightarrow> Fin (x - y)
    | (NaN, _) \<Rightarrow> NaN | (_, NaN) \<Rightarrow> NaN
    | (PInf, PInf) \<Rightarrow> NaN | (NInf, NInf) \<Rightarrow> NaN
    | (PInf, _) \<Rightarrow> PInf | (NInf, _) \<Rightarrow> NInf
    | (_, PInf) \<Rightarrow> NInf | (_, NInf) \<Rightarrow> PInf | _ \<Rightarrow> NaN)"

text \<open>The comparator that \<open>setComparator\<close> makes for \<open>by\<close>.\<close>

definition setComparator :: "heap \<Rightarrow> string \<Rightarrow> comment \<Rightarrow> comment \<Rightarrow> jsnum" where
  "setComparator h by a b =
     (if take 3 by = ''asc'' then (let i = drop 3 by in num_sub (to_number h (c_field a i)) (to_number h (c_field b i)))
      else num_sub (to_number h (c_field b by)) (to_number h (c_field a by)))"

text \<open>\<open>comments.sort(comp)\<close>: a result that is not a number counts as zero.\<close>

definition comp_gt :: "heap \<Rightarrow> string \<Rightarrow> thread \<Rightarrow> thread \<Rightarrow> bool" where
  "comp_gt h by a b = (case (a, b) of (Thread x xs, Thread y ys) \<Rightarrow> num_less (Fin 0) (setComparator h by x y))"

lemma size_thread_in: "t \<in> set ts \<Longrightarrow> size t < size_list size ts"
  by (induction ts) auto

function (sequential) sortComments :: "heap \<Rightarrow> string \<Rightarrow> thread list \<Rightarrow> thread list"
  and sort_thread :: "heap \<Rightarrow> string \<Rightarrow> thread \<Rightarrow> thread" where
  "sortComments h by ts = map (sort_thread h by) (js_sort (comp_gt h by) ts)"
| "sort_thread h by (Thread c ts) = Thread c (sortComments h by ts)"
  by pat_completeness auto
termination
  by (relation "measure (case_sum (\<lambda>(h, by, ts). size_list size ts) (\<lambda>(h, by, t). size t))")
    (auto simp: size_thread_in)

declare sortComments.simps [simp del]

section \<open>The cookie\<close>

definition escape_safe :: "char \<Rightarrow> bool" where
  "escape_safe c \<longleftrightarrow> word_char c \<or> c \<in> set ''@*+-./''"

definition escape :: "string \<Rightarrow> string" where
  "escape s = concat (map (\<lambda>c. if escape_safe c then [c] else percent (of_char c)) s)"

text \<open>\<open>unescape\<close>: \<open>%uXXXX\<close> for a code below 256 is that character too.\<close>

definition unescape_next :: "string \<Rightarrow> (char \<times> string) option" where
  "unescape_next s = (case read_byte s of
      Some (b, r) \<Rightarrow> Some (char_of b, r)
    | None \<Rightarrow> if take 2 s = ''%u'' then (case read_byte (CHR ''%'' # drop 2 s) of
          Some (b1, r1) \<Rightarrow> (case read_byte (CHR ''%'' # r1) of
              Some (b2, r2) \<Rightarrow> if b1 = 0 then Some (char_of b2, r2) else None
            | None \<Rightarrow> None)
        | None \<Rightarrow> None) else None)"

fun unescape_n :: "nat \<Rightarrow> string \<Rightarrow> string" where
  "unescape_n 0 s = []"
| "unescape_n (Suc n) s = (case s of [] \<Rightarrow> [] | c # cs \<Rightarrow>
     (case unescape_next s of Some (d, r) \<Rightarrow> d # unescape_n n r | None \<Rightarrow> c # unescape_n n cs))"

definition unescape :: "string \<Rightarrow> string" where
  "unescape s = unescape_n (length s) s"

definition initComparator :: "string \<Rightarrow> string" where
  "initComparator cookie =
     (if cookie \<noteq> [] \<and> indexOf_str cookie ''sortBy='' \<noteq> -1 then
        (let value = drop (nat (indexOf_str cookie ''sortBy='') + 7) cookie in
         if indexOf_str value '';'' = -1 then unescape value else ''rating'')
      else ''rating'')"

text \<open>
  Assigning \<open>document.cookie\<close> sets one cookie: reading it back gives the pairs of all
  cookies, separated by semicolons.
\<close>

definition read_cookies :: "(string \<times> string) list \<Rightarrow> string" where
  "read_cookies cs = join ''; '' (map (\<lambda>(n, v). n @ ''='' @ v) cs)"

fun set_cookie :: "string \<Rightarrow> string \<Rightarrow> (string \<times> string) list \<Rightarrow> (string \<times> string) list" where
  "set_cookie n v [] = [(n, v)]"
| "set_cookie n v ((m, w) # cs) = (if m = n then (n, v) # cs else (m, w) # set_cookie n v cs)"

section \<open>The page\<close>

text \<open>
  An item of a list of comments: a comment with its own list, a comment that waits for
  approval (a box with a message and no id), the form of a reply, the message that there are
  no comments, or an item whose content was removed.
\<close>

datatype li = CommentLi comment bool "li list" | PendingLi comment | ReplyLi string | NoCommentsLi | EmptyLi

record form_state =
  f_text :: string
  f_proposal :: string
  f_disabled :: bool

datatype request = GetComments string | AddComment string string string string | AcceptComment string
  | DeleteComment string | ProcessVote string int

record ws_opts =
  voting :: bool
  moderator :: bool
  username :: string

record ws_page =
  ws_by :: string
  cookies :: "(string \<times> string) list"
  uls :: "(string \<times> li list) list"
  ul_empty :: "string \<Rightarrow> bool"
  vis :: "string \<Rightarrow> bool"
  forms :: "string \<Rightarrow> form_state"
  proposal_source :: "string \<Rightarrow> string"
  ratings_shown :: "string \<Rightarrow> string"
  ws_errors :: "string list"
  requests :: "request list"

definition set_vis :: "(string \<times> bool) list \<Rightarrow> ws_page \<Rightarrow> ws_page" where
  "set_vis vs p = p\<lparr>vis := foldl (\<lambda>f (i, b). f(i := b)) (vis p) vs\<rparr>"

definition showError :: "string \<Rightarrow> ws_page \<Rightarrow> ws_page" where
  "showError message p = p\<lparr>ws_errors := ws_errors p @ [message]\<rparr>"

definition send :: "request \<Rightarrow> ws_page \<Rightarrow> ws_page" where
  "send r p = p\<lparr>requests := requests p @ [r]\<rparr>"

subsection \<open>Comment boxes\<close>

definition pretty_rating :: "int \<Rightarrow> string" where
  "pretty_rating n = show_int n @ '' point'' @ (if n = 1 then [] else ''s'')"

text \<open>The ids of the elements of a comment box that the code shows and hides.\<close>

definition box_ids :: "string list" where
  "box_ids = [''uv'', ''uu'', ''dv'', ''du'', ''rl'', ''cr'', ''sp'', ''hp'', ''dc'', ''cm'', ''ac'', ''pr'']"

definition box_vis :: "(string \<Rightarrow> bool) \<Rightarrow> ws_opts \<Rightarrow> comment \<Rightarrow> (string \<times> bool) list" where
  "box_vis css opts c =
     map (\<lambda>i. (i @ c_id c, css i)) box_ids
     @ (if c_vote c \<noteq> 0 then (let direction = (if c_vote c = 1 then ''u'' else ''d'') in
          [(direction @ ''v'' @ c_id c, False), (direction @ ''u'' @ c_id c, True)]) else [])
     @ (if moderator opts \<or> c_text c \<noteq> ''[deleted]'' then
          [(''rl'' @ c_id c, True)]
          @ (if c_proposal_diff c \<noteq> [] then [(''sp'' @ c_id c, True)] else [])
          @ (if moderator opts \<and> \<not> c_displayed c then [(''cm'' @ c_id c, True)] else [])
          @ (if moderator opts \<or> username opts = c_username c then [(''dc'' @ c_id c, True)] else [])
        else [])"

text \<open>
  \<open>createCommentDiv\<close>: the item with the given list of replies, which a box that waits
  for approval has no place for, and the changes of visibility.
\<close>

definition createCommentDiv ::
  "(string \<Rightarrow> bool) \<Rightarrow> ws_opts \<Rightarrow> comment \<Rightarrow> li list \<Rightarrow> ws_page \<Rightarrow> li \<times> ws_page" where
  "createCommentDiv css opts c kids p =
     (if \<not> c_displayed c \<and> \<not> moderator opts then (PendingLi c, p)
      else (CommentLi c (\<not> c_displayed c) kids,
            (set_vis (box_vis css opts c) p)\<lparr>ratings_shown := (ratings_shown p)(c_id c := pretty_rating (c_rating c))\<rparr>))"

fun appendComments :: "(string \<Rightarrow> bool) \<Rightarrow> ws_opts \<Rightarrow> thread list \<Rightarrow> ws_page \<Rightarrow> li list \<times> ws_page"
  and append_thread :: "(string \<Rightarrow> bool) \<Rightarrow> ws_opts \<Rightarrow> thread \<Rightarrow> ws_page \<Rightarrow> li \<times> ws_page" where
  "appendComments css opts [] p = ([], p)"
| "appendComments css opts (t # ts) p =
     (let (item, p1) = append_thread css opts t p; (items, p2) = appendComments css opts ts p1 in (item # items, p2))"
| "append_thread css opts (Thread c ts) p =
     (let (kids, p2) = appendComments css opts ts (snd (createCommentDiv css opts c [] p)) in
      (fst (createCommentDiv css opts c kids p), p2))"

subsection \<open>Finding and changing lists\<close>

text \<open>\<open>getChildren\<close>: the comments whose boxes have an id, with their replies.\<close>

fun getChildren :: "li list \<Rightarrow> thread list" where
  "getChildren [] = []"
| "getChildren (CommentLi c m kids # xs) = Thread c (getChildren kids) # getChildren xs"
| "getChildren (x # xs) = getChildren xs"

text \<open>Change the list with the given id (\<open>$('#cl' + id)\<close>): the first in document order.\<close>

fun change_in :: "string \<Rightarrow> (li list \<Rightarrow> li list) \<Rightarrow> li list \<Rightarrow> li list option" where
  "change_in i f [] = None"
| "change_in i f (CommentLi c m kids # xs) =
     (if c_id c = i then Some (CommentLi c m (f kids) # xs)
      else (case change_in i f kids of
          Some kids' \<Rightarrow> Some (CommentLi c m kids' # xs)
        | None \<Rightarrow> map_option (\<lambda>xs'. CommentLi c m kids # xs') (change_in i f xs)))"
| "change_in i f (x # xs) = map_option (\<lambda>xs'. x # xs') (change_in i f xs)"

fun change_ul :: "string \<Rightarrow> (li list \<Rightarrow> li list) \<Rightarrow> (string \<times> li list) list \<Rightarrow> (string \<times> li list) list" where
  "change_ul i f [] = []"
| "change_ul i f ((j, xs) # us) = (if j = i then (j, f xs) # us
     else (case change_in i f xs of Some xs' \<Rightarrow> (j, xs') # us | None \<Rightarrow> (j, xs) # change_ul i f us))"

text \<open>Change the comment whose box has the given id (\<open>$('#cd' + id)\<close>).\<close>

fun change_box :: "string \<Rightarrow> (comment \<Rightarrow> bool \<Rightarrow> li list \<Rightarrow> li) \<Rightarrow> li \<Rightarrow> li" where
  "change_box i f (CommentLi c m kids) =
     (if c_id c = i then f c m kids else CommentLi c m (map (change_box i f) kids))"
| "change_box i f x = x"

definition change_comment :: "string \<Rightarrow> (comment \<Rightarrow> bool \<Rightarrow> li list \<Rightarrow> li) \<Rightarrow> ws_page \<Rightarrow> ws_page" where
  "change_comment i f p = p\<lparr>uls := map (\<lambda>(j, xs). (j, map (change_box i f) xs)) (uls p)\<rparr>"

subsection \<open>Inserting a comment\<close>

text \<open>Before the first sibling that does not come first, or at the end.\<close>

fun insert_li :: "heap \<Rightarrow> string \<Rightarrow> comment \<Rightarrow> li \<Rightarrow> li list \<Rightarrow> li list" where
  "insert_li h by c item [] = [item]"
| "insert_li h by c item (CommentLi d m kids # xs) =
     (let n = setComparator h by c d in
      if num_less n (Fin 0) \<or> num_eq n (Fin 0) then item # CommentLi d m kids # xs
      else CommentLi d m kids # insert_li h by c item xs)"
| "insert_li h by c item (x # xs) = x # insert_li h by c item xs"

definition insertComment :: "heap \<Rightarrow> (string \<Rightarrow> bool) \<Rightarrow> ws_opts \<Rightarrow> comment \<Rightarrow> ws_page \<Rightarrow> ws_page" where
  "insertComment h css opts c p =
     (let (item, p1) = createCommentDiv css opts c [] p in
      p1\<lparr>uls := change_ul (if c_node c \<noteq> [] then c_node c else c_parent c) (insert_li h (ws_by p) c item) (uls p1)\<rparr>)"

section \<open>Handlers\<close>

text \<open>\<open>show\<close> and \<open>hide\<close>: the popup of a node is opened with an empty list, or removed.\<close>

definition empty_form :: form_state where
  "empty_form = \<lparr>f_text = [], f_proposal = [], f_disabled = False\<rparr>"

definition popup_ids :: "string list" where
  "popup_ids = [''cn'', ''cl'', ''ca'', ''mb'', ''pc'', ''hc'']"

definition getComments :: "string \<Rightarrow> ws_page \<Rightarrow> ws_page" where
  "getComments i p = send (GetComments i) p"

definition show_popup :: "(string \<Rightarrow> bool) \<Rightarrow> string \<Rightarrow> ws_page \<Rightarrow> ws_page" where
  "show_popup css i p = getComments i
     ((set_vis ([(''ao'' @ i, False), (''ah'' @ i, True)] @ map (\<lambda>e. (e @ i, css e)) popup_ids @ [(''pt'' @ i, False)]) p)
      \<lparr>uls := uls p @ [(i, [])], ul_empty := (ul_empty p)(i := False), forms := (forms p)(i := empty_form)\<rparr>)"

definition hide_popup :: "string \<Rightarrow> ws_page \<Rightarrow> ws_page" where
  "hide_popup i p = (set_vis [(''ah'' @ i, False), (''ao'' @ i, True)] p)\<lparr>uls := filter (\<lambda>(j, xs). j \<noteq> i) (uls p)\<rparr>"

text \<open>The reply to the request for the comments of a node.\<close>

definition getComments_success ::
  "heap \<Rightarrow> (string \<Rightarrow> bool) \<Rightarrow> ws_opts \<Rightarrow> string \<Rightarrow> string \<Rightarrow> thread list \<Rightarrow> ws_page \<Rightarrow> ws_page" where
  "getComments_success h css opts i source comments p0 =
     (let p = p0\<lparr>proposal_source := (proposal_source p0)(i := source)\<rparr> in
      if comments = [] then set_vis [(''cn'' @ i, False), (''cl'' @ i, True)]
        (p\<lparr>uls := change_ul i (\<lambda>xs. [NoCommentsLi]) (uls p), ul_empty := (ul_empty p)(i := True)\<rparr>)
      else (let (items, p1) = appendComments css opts (sortComments h (ws_by p) comments) p in
        set_vis [(''cn'' @ i, False), (''cl'' @ i, True)]
          (p1\<lparr>uls := change_ul i (\<lambda>xs. xs @ items) (uls p1), ul_empty := (ul_empty p1)(i := False)\<rparr>)))"

definition getComments_error :: "ws_page \<Rightarrow> ws_page" where
  "getComments_error p = showError ''Oops, there was a problem retrieving the comments.'' p"

definition showProposal :: "string \<Rightarrow> ws_page \<Rightarrow> ws_page" where
  "showProposal i p = set_vis [(''sp'' @ i, False), (''hp'' @ i, True), (''pr'' @ i, True)] p"

definition hideProposal :: "string \<Rightarrow> ws_page \<Rightarrow> ws_page" where
  "hideProposal i p = set_vis [(''hp'' @ i, False), (''sp'' @ i, True), (''pr'' @ i, False)] p"

definition showProposeChange :: "string \<Rightarrow> ws_page \<Rightarrow> ws_page" where
  "showProposeChange i p = set_vis [(''pc'' @ i, False), (''hc'' @ i, True), (''pt'' @ i, True)]
     (p\<lparr>forms := (forms p)(i := (forms p i)\<lparr>f_proposal := proposal_source p i\<rparr>)\<rparr>)"

definition hideProposeChange :: "string \<Rightarrow> ws_page \<Rightarrow> ws_page" where
  "hideProposeChange i p = set_vis [(''hc'' @ i, False), (''pc'' @ i, True), (''pt'' @ i, False)]
     (p\<lparr>forms := (forms p)(i := (forms p i)\<lparr>f_proposal := []\<rparr>)\<rparr>)"

definition toggleCommentMarkupBox :: "string \<Rightarrow> ws_page \<Rightarrow> ws_page" where
  "toggleCommentMarkupBox i p = set_vis [(''mb'' @ i, \<not> vis p (''mb'' @ i))] p"

text \<open>
  \<open>addComment\<close>: a form is that of a node (\<open>node\<close> set) or of a reply to a comment
  (\<open>parent\<close> set); it is known by that id.
\<close>

definition form_key :: "string \<Rightarrow> string \<Rightarrow> string" where
  "form_key node parent = (if node \<noteq> [] then node else parent)"

definition addComment :: "string \<Rightarrow> string \<Rightarrow> ws_page \<Rightarrow> ws_page" where
  "addComment node parent p = (let k = form_key node parent; f = forms p k in
     if f_text f = [] then showError ''Please enter a comment.'' p
     else send (AddComment node parent (f_text f) (f_proposal f))
       (p\<lparr>forms := (forms p)(k := f\<lparr>f_disabled := True\<rparr>)\<rparr>))"

definition addComment_success ::
  "heap \<Rightarrow> (string \<Rightarrow> bool) \<Rightarrow> ws_opts \<Rightarrow> string \<Rightarrow> string \<Rightarrow> comment \<Rightarrow> ws_page \<Rightarrow> ws_page" where
  "addComment_success h css opts node parent c p0 =
     (let k = form_key node parent;
          p1 = (if node \<noteq> [] then hideProposeChange node p0 else p0);
          p2 = p1\<lparr>forms := (forms p1)(k := empty_form)\<rparr>;
          p3 = (if ul_empty p2 k then p2\<lparr>uls := change_ul k (\<lambda>xs. []) (uls p2), ul_empty := (ul_empty p2)(k := False)\<rparr> else p2);
          p4 = insertComment h css opts c p3 in
      if node \<noteq> [] then set_vis [(''ca'' @ node, False)] p4 else p4)"

definition addComment_error :: "string \<Rightarrow> string \<Rightarrow> ws_page \<Rightarrow> ws_page" where
  "addComment_error node parent p = (let k = form_key node parent in
     showError ''Oops, there was a problem adding the comment.'' (p\<lparr>forms := (forms p)(k := (forms p k)\<lparr>f_disabled := False\<rparr>)\<rparr>))"

definition acceptComment :: "string \<Rightarrow> ws_page \<Rightarrow> ws_page" where
  "acceptComment i p = send (AcceptComment i) p"

definition acceptComment_success :: "string \<Rightarrow> ws_page \<Rightarrow> ws_page" where
  "acceptComment_success i p = change_comment i (\<lambda>c m kids. CommentLi c False kids) (set_vis [(''cm'' @ i, False)] p)"

definition acceptComment_error :: "ws_page \<Rightarrow> ws_page" where
  "acceptComment_error p = showError ''Oops, there was a problem accepting the comment.'' p"

definition deleteComment :: "string \<Rightarrow> ws_page \<Rightarrow> ws_page" where
  "deleteComment i p = send (DeleteComment i) p"

text \<open>
  The reply \<open>delete\<close> removes the box, and leaves its item; otherwise the comment is
  marked as deleted and loses its links.
\<close>

definition deleteComment_success :: "string \<Rightarrow> string \<Rightarrow> ws_page \<Rightarrow> ws_page" where
  "deleteComment_success i data p =
     (if data = ''delete'' then change_comment i (\<lambda>c m kids. EmptyLi) p
      else change_comment i (\<lambda>c m kids. CommentLi (c\<lparr>c_username := ''[deleted]'', c_text := ''[deleted]''\<rparr>) m kids)
        (set_vis (map (\<lambda>e. (e @ i, False)) [''cm'', ''dc'', ''ac'', ''rc'', ''sp'', ''hp'', ''cr'', ''rl'']) p))"

definition deleteComment_error :: "ws_page \<Rightarrow> ws_page" where
  "deleteComment_error p = showError ''Oops, there was a problem deleting the comment.'' p"

text \<open>\<open>handleReSort\<close>: the new order, its cookie, and every list rebuilt from its comments.\<close>

definition resort_by :: "string list \<Rightarrow> string \<Rightarrow> string" where
  "resort_by classes by = foldl (\<lambda>b c. if c \<noteq> ''sort-option'' then drop 2 c else b) by classes"

fun resort_uls ::
  "heap \<Rightarrow> (string \<Rightarrow> bool) \<Rightarrow> ws_opts \<Rightarrow> string \<Rightarrow> (string \<times> li list) list \<Rightarrow> ws_page \<Rightarrow> (string \<times> li list) list \<times> ws_page" where
  "resort_uls h css opts by [] p = ([], p)"
| "resort_uls h css opts by ((i, xs) # us) p =
     (let (items, p1) = appendComments css opts (sortComments h by (getChildren xs)) p;
          (us', p2) = resort_uls h css opts by us p1 in ((i, items) # us', p2))"

definition handleReSort :: "heap \<Rightarrow> (string \<Rightarrow> bool) \<Rightarrow> ws_opts \<Rightarrow> string \<Rightarrow> ws_page \<Rightarrow> ws_page" where
  "handleReSort h css opts class_attr p =
     (let by = resort_by (split_spaces [] False class_attr) (ws_by p);
          p1 = p\<lparr>ws_by := by, cookies := set_cookie ''sortBy'' (escape by) (cookies p)\<rparr>;
          (us, p2) = resort_uls h css opts by (uls p1) p1 in
      p2\<lparr>uls := us\<rparr>)"

text \<open>
  \<open>handleVote\<close>: the first letter of the link's id is the arrow, the second says whether
  the click takes a vote back.
\<close>

definition vote_value :: "string \<Rightarrow> int" where
  "vote_value lid = (if take 1 (drop 1 lid) \<noteq> ''u'' then (if take 1 lid = ''u'' then 1 else -1) else 0)"

definition cast_vote :: "int \<Rightarrow> comment \<Rightarrow> comment" where
  "cast_vote v c = c\<lparr>c_rating := c_rating c + (if c_vote c = 0 then v else v - c_vote c), c_vote := v\<rparr>"

text \<open>The comment of the first box with the given id.\<close>

fun find_comment :: "string \<Rightarrow> thread list \<Rightarrow> comment option" where
  "find_comment i [] = None"
| "find_comment i (Thread c kids # ts) = (if c_id c = i then Some c
     else (case find_comment i kids of Some d \<Rightarrow> Some d | None \<Rightarrow> find_comment i ts))"

definition page_comment :: "string \<Rightarrow> ws_page \<Rightarrow> comment option" where
  "page_comment i p = find_comment i (concat (map (getChildren \<circ> snd) (uls p)))"

text \<open>
  The changes of visibility: the vote and unvote links are swapped, and the other arrow is
  released when it was pressed and this is not an unvote.
\<close>

definition vote_arrows :: "string \<Rightarrow> int \<Rightarrow> (string \<times> bool) list" where
  "vote_arrows lid old = (let v = vote_value lid; i = drop 2 lid; other = (if v = 1 then ''d'' else ''u'') in
     [(lid, False), (take 1 lid @ (if take 1 (drop 1 lid) = ''u'' then ''v'' else ''u'') @ i, True)]
     @ (if v \<noteq> 0 \<and> old = v * -1 then [(other @ ''u'' @ i, False), (other @ ''v'' @ i, True)] else []))"

definition handleVote :: "ws_opts \<Rightarrow> string \<Rightarrow> ws_page \<Rightarrow> jsexn + ws_page" where
  "handleVote opts lid p =
     (if \<not> voting opts then Inr (showError ''You'll need to login to vote.'' p)
      else if lid = [] then Inr p
      else (let v = vote_value lid; i = drop 2 lid in
        case page_comment i p of
          None \<Rightarrow> Inl (TypeErr ''cannot read property of null or undefined'')
        | Some c \<Rightarrow> Inr (send (ProcessVote i v)
            ((change_comment i (\<lambda>c m kids. CommentLi (cast_vote v c) m kids) (set_vis (vote_arrows lid (c_vote c)) p))
             \<lparr>ratings_shown := (ratings_shown p)(i := pretty_rating (c_rating (cast_vote v c)))\<rparr>))))"

definition handleVote_error :: "ws_page \<Rightarrow> ws_page" where
  "handleVote_error p = showError ''Oops, there was a problem casting that vote.'' p"

definition openReply :: "string \<Rightarrow> ws_page \<Rightarrow> ws_page" where
  "openReply i p = (set_vis [(''rl'' @ i, False), (''cr'' @ i, True)] p)
     \<lparr>uls := change_ul i (\<lambda>xs. ReplyLi i # xs) (uls p), forms := (forms p)(i := empty_form)\<rparr>"

fun drop_reply :: "string \<Rightarrow> li \<Rightarrow> li" where
  "drop_reply i (ReplyLi j) = (if j = i then EmptyLi else ReplyLi j)"
| "drop_reply i (CommentLi c m kids) = CommentLi c m (map (drop_reply i) kids)"
| "drop_reply i x = x"

definition closeReply :: "string \<Rightarrow> ws_page \<Rightarrow> ws_page" where
  "closeReply i p = set_vis [(''cr'' @ i, False), (''rl'' @ i, True)]
     (p\<lparr>uls := map (\<lambda>(j, xs). (j, map (drop_reply i) xs)) (uls p)\<rparr>)"

text \<open>The submit handler of the form of a reply.\<close>

definition submitReply :: "string \<Rightarrow> ws_page \<Rightarrow> ws_page" where
  "submitReply i p = closeReply i (addComment [] i p)"

text \<open>\<open>$.fn.comment\<close>: the title, the image and the class of the link of a node.\<close>

definition comment_link :: "nat \<Rightarrow> string \<times> string \<times> string" where
  "comment_link n =
     (show_nat n @ '' comment'' @ (if n = 1 then [] else ''s''),
      (if n > 0 then ''/static/_static/comment-bright.png'' else ''/static/_static/comment.png''),
      ''sphinx-comment-open'' @ (if n = 0 then '' nocomment'' else []))"

text \<open>\<open>initEvents\<close>: what a click on a link does, by the link's class.\<close>

definition click :: "heap \<Rightarrow> (string \<Rightarrow> bool) \<Rightarrow> ws_opts \<Rightarrow> string \<Rightarrow> string \<Rightarrow> string \<Rightarrow> ws_page \<Rightarrow> jsexn + ws_page" where
  "click h css opts link_class lid class_attr p = (let i = drop 2 lid in
     if link_class = ''comment-close'' then Inr (hide_popup i p)
     else if link_class = ''vote'' then handleVote opts lid p
     else if link_class = ''reply'' then Inr (openReply i p)
     else if link_class = ''close-reply'' then Inr (closeReply i p)
     else if link_class = ''sort-option'' then Inr (handleReSort h css opts class_attr p)
     else if link_class = ''show-proposal'' then Inr (showProposal i p)
     else if link_class = ''hide-proposal'' then Inr (hideProposal i p)
     else if link_class = ''show-propose-change'' then Inr (showProposeChange i p)
     else if link_class = ''hide-propose-change'' then Inr (hideProposeChange i p)
     else if link_class = ''accept-comment'' then Inr (acceptComment i p)
     else if link_class = ''delete-comment'' then Inr (deleteComment i p)
     else if link_class = ''comment-markup'' then Inr (toggleCommentMarkupBox i p)
     else Inr p)"

section \<open>The templates of the page\<close>

definition popupTemplate :: string where
  \<open>popupTemplate = concat [
     ''    <div class="sphinx-comments" id="sc<%id%>">'',
     ''      <p class="sort-options">'',
     ''        Sort by:'',
     ''        <a href="#" class="sort-option byrating">best rated</a>'',
     ''        <a href="#" class="sort-option byascage">newest</a>'',
     ''        <a href="#" class="sort-option byage">oldest</a>'',
     ''      </p>'',
     ''      <div class="comment-header">Comments</div>'',
     ''      <div class="comment-loading" id="cn<%id%>">'',
     ''        loading comments... <img src="<%loadingImage%>" alt="" /></div>'',
     ''      <ul id="cl<%id%>" class="comment-ul"></ul>'',
     ''      <div id="ca<%id%>">'',
     ''      <p class="add-a-comment">Add a comment'',
     ''        (<a href="#" class="comment-markup" id="ab<%id%>">markup</a>):</p>'',
     ''      <div class="comment-markup-box" id="mb<%id%>">'',
     ''        reStructured text markup: <i>*emph*</i>, <b>**strong**</b>, '',
     ''        <code>``code``</code>, '',
     ''        code blocks: <code>::</code> and an indented block after blank line</div>'',
     ''      <form method="post" id="cf<%id%>" class="comment-form" action="">'',
     ''        <textarea name="comment" cols="80"></textarea>'',
     ''        <p class="propose-button">'',
     ''          <a href="#" id="pc<%id%>" class="show-propose-change">'',
     ''            Propose a change &#9657;'',
     ''          </a>'',
     ''          <a href="#" id="hc<%id%>" class="hide-propose-change">'',
     ''            Propose a change &#9663;'',
     ''          </a>'',
     ''        </p>'',
     ''        <textarea name="proposal" id="pt<%id%>" cols="80"'',
     ''                  spellcheck="false"></textarea>'',
     ''        <input type="submit" value="Add comment" />'',
     ''        <input type="hidden" name="node" value="<%id%>" />'',
     ''        <input type="hidden" name="parent" value="" />'',
     ''      </form>'',
     ''      </div>'',
     ''    </div>'']\<close>

definition commentTemplate :: string where
  \<open>commentTemplate = concat [
     ''    <div id="cd<%id%>" class="sphinx-comment<%css_class%>">'',
     ''      <div class="vote">'',
     ''        <div class="arrow">'',
     ''          <a href="#" id="uv<%id%>" class="vote" title="vote up">'',
     ''            <img src="<%upArrow%>" />'',
     ''          </a>'',
     ''          <a href="#" id="uu<%id%>" class="un vote" title="vote up">'',
     ''            <img src="<%upArrowPressed%>" />'',
     ''          </a>'',
     ''        </div>'',
     ''        <div class="arrow">'',
     ''          <a href="#" id="dv<%id%>" class="vote" title="vote down">'',
     ''            <img src="<%downArrow%>" id="da<%id%>" />'',
     ''          </a>'',
     ''          <a href="#" id="du<%id%>" class="un vote" title="vote down">'',
     ''            <img src="<%downArrowPressed%>" />'',
     ''          </a>'',
     ''        </div>'',
     ''      </div>'',
     ''      <div class="comment-content">'',
     ''        <p class="tagline comment">'',
     ''          <span class="user-id"><%username%></span>'',
     ''          <span class="rating"><%pretty_rating%></span>'',
     ''          <span class="delta"><%time.delta%></span>'',
     ''        </p>'',
     ''        <div class="comment-text comment"><#text#></div>'',
     ''        <p class="comment-opts comment">'',
     ''          <a href="#" class="reply hidden" id="rl<%id%>">reply &#9657;</a>'',
     ''          <a href="#" class="close-reply" id="cr<%id%>">reply &#9663;</a>'',
     ''          <a href="#" id="sp<%id%>" class="show-proposal">proposal &#9657;</a>'',
     ''          <a href="#" id="hp<%id%>" class="hide-proposal">proposal &#9663;</a>'',
     ''          <a href="#" id="dc<%id%>" class="delete-comment hidden">delete</a>'',
     ''          <span id="cm<%id%>" class="moderation hidden">'',
     ''            <a href="#" id="ac<%id%>" class="accept-comment">accept</a>'',
     ''          </span>'',
     ''        </p>'',
     ''        <pre class="proposal" id="pr<%id%>">'',
     ''<#proposal_diff#>'',
     ''        </pre>'',
     ''          <ul class="comment-children" id="cl<%id%>"></ul>'',
     ''        </div>'',
     ''        <div class="clearleft"></div>'',
     ''      </div>'',
     ''    </div>'']\<close>

definition replyTemplate :: string where
  \<open>replyTemplate = concat [
     ''    <li>'',
     ''      <div class="reply-div" id="rd<%id%>">'',
     ''        <form id="rf<%id%>">'',
     ''          <textarea name="comment" cols="80"></textarea>'',
     ''          <input type="submit" value="Add reply" />'',
     ''          <input type="button" value="Cancel" />'',
     ''          <input type="hidden" name="parent" value="<%id%>" />'',
     ''          <input type="hidden" name="node" value="" />'',
     ''        </form>'',
     ''      </div>'',
     ''    </li>'']\<close>

section \<open>When the page is ready\<close>

text \<open>The words of the query are highlighted in every result that a search has listed.\<close>

definition context_terms :: "props \<Rightarrow> string list" where
  "context_terms params = (case map_of params (Name ''q'') of
      Some (Arr (Str s # _)) \<Rightarrow> split_spaces [] False s
    | _ \<Rightarrow> [])"

definition highlight_context :: "nat \<Rightarrow> props \<Rightarrow> node \<Rightarrow> node" where
  "highlight_context depth params result =
     foldl (\<lambda>r t. highlight depth (toLowerCase t) ''highlighted'' r) result (context_terms params)"

text \<open>The comments that the address asks for are opened: the link to click and the new hash.\<close>

definition requested_popup :: "string \<Rightarrow> (string \<times> string) option" where
  "requested_popup hash = (if take 9 hash = ''#comment-'' then Some (''ao'' @ drop 9 hash, ''#s'' @ drop 9 hash) else None)"

end
