(* ===== verification/Websupport_Pages.thy ===== *)
theory Websupport_Pages
  imports Websupport
begin

text \<open>
  Properties of websupport.js: data cannot add markup to a rendered template, votes and the
  arrows that show them agree, the order of comments is kept by insertion and restored by
  sorting, and the chosen order survives in the cookie.
\<close>

section \<open>Templates\<close>

text \<open>A template as the list of its literal characters and placeholders.\<close>

datatype piece = Lit char | Hole bool string

function pieces :: "string \<Rightarrow> piece list" where
  "pieces template = (case template of
      [] \<Rightarrow> []
    | ch # cs \<Rightarrow> (case placeholder template of
        Some (c, name, r) \<Rightarrow> Hole (c = CHR ''%'') name # pieces r
      | None \<Rightarrow> Lit ch # pieces cs))"
  by pat_completeness auto
termination
  by (relation "measure length") (auto dest: placeholder_shorter)

declare pieces.simps [simp del]

fun piece_src :: "piece \<Rightarrow> string" where
  "piece_src (Lit c) = [c]"
| "piece_src (Hole True name) = ''<%'' @ name @ ''%>''"
| "piece_src (Hole False name) = ''<#'' @ name @ ''#>''"

fun piece_out :: "heap \<Rightarrow> jsval \<Rightarrow> piece \<Rightarrow> jsexn + string" where
  "piece_out h context (Lit c) = Inr [c]"
| "piece_out h context (Hole e name) = handle h context name e"

fun seqE :: "('e + 'a list) list \<Rightarrow> 'e + 'a list" where
  "seqE [] = Inr []"
| "seqE (m # ms) = bindE m (\<lambda>x. bindE (seqE ms) (\<lambda>xs. Inr (x @ xs)))"

lemma renderTemplate_pieces: "renderTemplate h context t = seqE (map (piece_out h context) (pieces t))"
proof (induction t rule: pieces.induct)
  case (1 t)
  show ?case
  proof (cases t)
    case Nil
    then show ?thesis by (simp add: renderTemplate.simps pieces.simps)
  next
    case (Cons ch cs)
    show ?thesis
    proof (cases "placeholder t")
      case None
      with "1.IH"(1) [OF Cons None] Cons show ?thesis
        by (simp add: renderTemplate.simps [of h "context" "ch # cs"] pieces.simps [of "ch # cs"])
    next
      case (Some ph)
      then obtain c name r where ph: "placeholder t = Some (c, name, r)" by (cases ph) auto
      with "1.IH"(2) [OF Cons ph refl refl] Cons show ?thesis
        by (simp add: renderTemplate.simps [of h "context" "ch # cs"] pieces.simps [of "ch # cs"])
    qed
  qed
qed

lemma placeholder_src:
  "placeholder t = Some (c, name, r) \<Longrightarrow> t = piece_src (Hole (c = CHR ''%'') name) @ r"
proof -
  assume a: "placeholder t = Some (c, name, r)"
  then obtain rest where t: "t = CHR ''<'' # c # rest" and c: "c = CHR ''%'' \<or> c = CHR ''#''"
    and name: "name = takeWhile (\<lambda>x. word_char x \<or> x = CHR ''.'') rest"
    and tk: "take 2 (drop (length name) rest) = [c, CHR ''>'']" and r: "r = drop 2 (drop (length name) rest)"
    by (auto simp: placeholder_def Let_def split: list.splits if_splits)
  have "rest = name @ take 2 (drop (length name) rest) @ r"
    unfolding r name append_take_drop_id by (metis append_take_drop_id takeWhile_eq_take)
  with t c tk show ?thesis by auto
qed

lemma pieces_lossless: "concat (map piece_src (pieces t)) = t"
proof (induction t rule: pieces.induct)
  case (1 t)
  show ?case
  proof (cases t)
    case Nil
    then show ?thesis by (simp add: pieces.simps)
  next
    case (Cons ch cs)
    show ?thesis
    proof (cases "placeholder t")
      case None
      with "1.IH"(1) [OF Cons None] Cons show ?thesis by (simp add: pieces.simps [of "ch # cs"])
    next
      case (Some ph)
      then obtain c name r where ph: "placeholder t = Some (c, name, r)" by (cases ph) auto
      with "1.IH"(2) [OF Cons ph refl refl] Cons placeholder_src [OF ph] show ?thesis by (simp add: pieces.simps [of "ch # cs"])
    qed
  qed
qed

definition markup :: "char \<Rightarrow> bool" where
  "markup c \<longleftrightarrow> c = CHR ''<'' \<or> c = CHR ''>''"

lemma no_markup_escape: "filter markup (html_escape s) = []"
  by (induction s) (auto simp: html_escape_def html_char_def markup_def)

fun is_lit :: "piece \<Rightarrow> bool" where
  "is_lit (Lit c) = True"
| "is_lit (Hole e name) = False"

fun raw_hole :: "piece \<Rightarrow> bool" where
  "raw_hole (Hole False name) = True"
| "raw_hole x = False"

lemma seqE_markup:
  "seqE (map (piece_out h context) ps) = Inr out \<Longrightarrow> \<forall>x\<in>set ps. \<not> raw_hole x \<Longrightarrow>
   filter markup out = filter markup (concat (map piece_src (filter is_lit ps)))"
proof (induction ps arbitrary: out)
  case (Cons x ps)
  then obtain v t where v: "piece_out h context x = Inr v" and t: "seqE (map (piece_out h context) ps) = Inr t"
    and out: "out = v @ t" by (auto simp: bindE_def split: sum.splits)
  from Cons t have IH: "filter markup t = filter markup (concat (map piece_src (filter is_lit ps)))" by simp
  show ?case
  proof (cases x)
    case (Lit c)
    with v out IH show ?thesis by simp
  next
    case (Hole e name)
    with Cons.prems(2) have "e" by (cases e) auto
    with Hole v have "filter markup v = []" by (auto simp: handle_def bindE_def no_markup_escape split: sum.splits)
    with Hole out IH show ?thesis by simp
  qed
qed simp

lemma seqE_error: "seqE ms = Inl e \<Longrightarrow> Inl e \<in> set ms"
  by (induction ms) (auto simp: bindE_def split: sum.splits)

lemma follow_error: "follow h cur ps = Inl e \<Longrightarrow> e = TypeErr ''cannot read property of null or undefined''"
  by (induction h cur ps rule: follow.induct) (auto split: if_splits)



section \<open>Votes\<close>

lemma find_comment_append:
  "find_comment i (xs @ ys) = (case find_comment i xs of Some c \<Rightarrow> Some c | None \<Rightarrow> find_comment i ys)"
  by (induction i xs rule: find_comment.induct) (auto split: option.split)

lemma find_change:
  assumes "\<And>c. c_id (g c) = c_id c"
  shows "find_comment i (getChildren (map (change_box j (\<lambda>c m kids. CommentLi (g c) m kids)) xs))
    = map_option (\<lambda>c. if i = j then g c else c) (find_comment i (getChildren xs))"
  by (induction xs rule: getChildren.induct) (auto simp: assms split: option.split)

lemma page_comment_change:
  assumes "\<And>c. c_id (g c) = c_id c"
  shows "page_comment i (change_comment j (\<lambda>c m kids. CommentLi (g c) m kids) p)
    = map_option (\<lambda>c. if i = j then g c else c) (page_comment i p)"
proof -
  have "find_comment i (concat (map (getChildren \<circ> snd)
        (map (\<lambda>(k, xs). (k, map (change_box j (\<lambda>c m kids. CommentLi (g c) m kids)) xs)) us)))
      = map_option (\<lambda>c. if i = j then g c else c) (find_comment i (concat (map (getChildren \<circ> snd) us)))" for us
    by (induction us) (auto simp: find_comment_append find_change [OF assms] split: option.split)
  then show ?thesis by (simp add: page_comment_def change_comment_def)
qed

lemma page_comment_frame [simp]:
  "page_comment i (set_vis vs p) = page_comment i p" "page_comment i (send r p) = page_comment i p"
  "page_comment i (p\<lparr>ratings_shown := f\<rparr>) = page_comment i p"
  by (simp_all add: page_comment_def set_vis_def send_def)

lemma vis_frame [simp]:
  "vis (change_comment i f p) = vis p" "vis (send r p) = vis p" "vis (set_vis [] p) = vis p"
  "vis (set_vis ((k, b) # vs) p) = vis (set_vis vs (p\<lparr>vis := (vis p)(k := b)\<rparr>))"
  by (simp_all add: change_comment_def send_def set_vis_def)

text \<open>
  The comment \<open>i\<close> has the vote that its arrows show, and its rating is the sum of that
  vote and of what the others gave it.
\<close>

definition votes_agree :: "string \<Rightarrow> int \<Rightarrow> ws_page \<Rightarrow> bool" where
  "votes_agree i base p \<longleftrightarrow> (case page_comment i p of None \<Rightarrow> False | Some c \<Rightarrow>
     c_vote c \<in> {-1, 0, 1} \<and> c_rating c = base + c_vote c
     \<and> vis p (''uv'' @ i) = (c_vote c \<noteq> 1) \<and> vis p (''uu'' @ i) = (c_vote c = 1)
     \<and> vis p (''dv'' @ i) = (c_vote c \<noteq> -1) \<and> vis p (''du'' @ i) = (c_vote c = -1))"

text \<open>A click on an arrow that is visible.\<close>

definition vote_move :: "ws_opts \<Rightarrow> ws_page \<Rightarrow> ws_page \<Rightarrow> bool" where
  "vote_move opts p p' \<longleftrightarrow> (\<exists>a j. a \<in> {''uv'', ''uu'', ''dv'', ''du''} \<and> vis p (a @ j) \<and> handleVote opts (a @ j) p = Inr p')"

lemma handleVote_page:
  assumes "voting opts" "length a = 2" "handleVote opts (a @ j) p = Inr p'"
  obtains c where "page_comment j p = Some c"
    "page_comment i p' = map_option (\<lambda>c. if i = j then cast_vote (vote_value (a @ j)) c else c) (page_comment i p)"
    "vis p' = vis (set_vis (vote_arrows (a @ j) (c_vote c)) p)"
proof -
  have ne: "a @ j \<noteq> []" "drop 2 (a @ j) = j" and ne': "a \<noteq> []" using assms(2) by auto
  have g: "c_id (cast_vote v c) = c_id c" for v c by (simp add: cast_vote_def)
  show thesis
  proof (cases "page_comment j p")
    case None
    with assms(1,3) show ?thesis unfolding handleVote_def Let_def ne(2) using assms(2) by (auto split: if_splits)
  next
    case (Some c)
    with assms(1,3) have "p' = send (ProcessVote j (vote_value (a @ j)))
        ((change_comment j (\<lambda>c m kids. CommentLi (cast_vote (vote_value (a @ j)) c) m kids) (set_vis (vote_arrows (a @ j) (c_vote c)) p))
         \<lparr>ratings_shown := (ratings_shown p)(j := pretty_rating (c_rating (cast_vote (vote_value (a @ j)) c)))\<rparr>)"
      unfolding handleVote_def Let_def ne(2) using ne' by simp
    then show ?thesis using that [OF Some] by (simp add: page_comment_change [OF g])
  qed
qed

lemma vis_other:
  assumes "length x = 2" "length a = 2" "i \<noteq> j"
  shows "vis (set_vis (vote_arrows (a @ j) old) p) (x @ i) = vis p (x @ i)"
proof -
  have "x @ i \<noteq> y @ j" if "length y = 2" for y using assms(1,3) that by (metis append_eq_append_conv)
  from this [of a] this [of "take 1 a @ ''u''"] this [of "take 1 a @ ''v''"]
    this [of "''du''"] this [of "''dv''"] this [of "''uu''"] this [of "''uv''"] assms(2)
  show ?thesis by (auto simp: vote_arrows_def Let_def)
qed

lemma votes_agree_move:
  assumes "voting opts" "votes_agree i base p" "vote_move opts p p'"
  shows "votes_agree i base p'"
proof -
  from assms(3) obtain a j where a: "a = ''uv'' \<or> a = ''uu'' \<or> a = ''dv'' \<or> a = ''du''"
    and v: "vis p (a @ j)" and hv: "handleVote opts (a @ j) p = Inr p'"
    by (auto simp: vote_move_def)
  have len: "length a = 2" using a by auto
  from handleVote_page [OF assms(1) len hv, of i] obtain d where d: "page_comment j p = Some d"
    and pc: "page_comment i p' = map_option (\<lambda>c. if i = j then cast_vote (vote_value (a @ j)) c else c) (page_comment i p)"
    and vs: "vis p' = vis (set_vis (vote_arrows (a @ j) (c_vote d)) p)" by metis
  from assms(2) obtain c where c: "page_comment i p = Some c" by (auto simp: votes_agree_def split: option.splits)
  show ?thesis
  proof (cases "i = j")
    case True
    with c d have "d = c" by simp
    from a show ?thesis using assms(2) c v pc True
      unfolding votes_agree_def vs \<open>d = c\<close>
      by (elim disjE) (simp_all add: cast_vote_def vote_value_def vote_arrows_def, auto)
  next
    case False
    have "vis p' (x @ i) = vis p (x @ i)" if "length x = 2" for x
      unfolding vs by (rule vis_other [OF that len False])
    from this [of "''uv''"] this [of "''uu''"] this [of "''dv''"] this [of "''du''"] assms(2) c pc False
    show ?thesis by (simp add: votes_agree_def)
  qed
qed

interpretation votes: invariant "votes_agree i base" "\<lambda>p p'. voting opts \<and> vote_move opts p p'" "votes_agree i base"
  for i base opts
  by unfold_locales (auto intro: votes_agree_move)

text \<open>The box of a new comment agrees with its vote, where the page hides the pressed arrows first.\<close>

definition arrows_hidden :: "(string \<Rightarrow> bool) \<Rightarrow> bool" where
  "arrows_hidden css \<longleftrightarrow> css ''uv'' \<and> \<not> css ''uu'' \<and> css ''dv'' \<and> \<not> css ''du''"

lemma vis_box:
  assumes "arrows_hidden css" "c_vote c \<in> {-1, 0, 1}"
  shows "vis (set_vis (box_vis css opts c) p) (''uv'' @ c_id c) = (c_vote c \<noteq> 1)"
    "vis (set_vis (box_vis css opts c) p) (''uu'' @ c_id c) = (c_vote c = 1)"
    "vis (set_vis (box_vis css opts c) p) (''dv'' @ c_id c) = (c_vote c \<noteq> -1)"
    "vis (set_vis (box_vis css opts c) p) (''du'' @ c_id c) = (c_vote c = -1)"
  using assms by (auto simp: arrows_hidden_def box_vis_def box_ids_def Let_def)

definition box_created :: "(string \<Rightarrow> bool) \<Rightarrow> ws_opts \<Rightarrow> comment \<Rightarrow> ws_page \<Rightarrow> bool" where
  "box_created css opts c p \<longleftrightarrow> page_comment (c_id c) p = Some c \<and> (\<exists>q. vis p = vis (set_vis (box_vis css opts c) q))"

lemma box_created_agrees:
  assumes "arrows_hidden css" "c_vote c \<in> {-1, 0, 1}" "box_created css opts c p"
  shows "votes_agree (c_id c) (c_rating c - c_vote c) p"
  using assms vis_box [OF assms(1,2)] by (auto simp: votes_agree_def box_created_def)

lemma reachable_mono:
  "reachable st mv s \<Longrightarrow> (\<And>x. st x \<Longrightarrow> st' x) \<Longrightarrow> (\<And>x y. mv x y \<Longrightarrow> mv' x y) \<Longrightarrow> reachable st' mv' s"
  by (induction rule: reachable.induct) (auto intro: reachable.intros)


definition sample_comment :: comment where
  "sample_comment = \<lparr>c_id = ''7'', c_node = ''n'', c_parent = [], c_rating = 3, c_vote = 0, c_age = 1, c_username = ''u'',
     c_text = ''t'', c_displayed = True, c_proposal_diff = []\<rparr>"

definition sample_css :: "string \<Rightarrow> bool" where
  "sample_css i \<longleftrightarrow> i = ''uv'' \<or> i = ''dv''"

definition sample_opts :: ws_opts where
  "sample_opts = \<lparr>voting = True, moderator = False, username = ''me''\<rparr>"

definition sample_page :: ws_page where
  "sample_page = set_vis (box_vis sample_css sample_opts sample_comment)
     \<lparr>ws_by = ''rating'', cookies = [], uls = [(''n'', [CommentLi sample_comment False []])], ul_empty = (\<lambda>i. False),
      vis = (\<lambda>i. False), forms = (\<lambda>i. empty_form), proposal_source = (\<lambda>i. []), ratings_shown = (\<lambda>i. []),
      ws_errors = [], requests = []\<rparr>"


section \<open>The order of comments\<close>

text \<open>The property the comparator reads, and the threads whose comments have a number there.\<close>

definition by_field :: "string \<Rightarrow> string" where
  "by_field srt = (if take 3 srt = ''asc'' then drop 3 srt else srt)"

definition has_num :: "heap \<Rightarrow> string \<Rightarrow> thread \<Rightarrow> bool" where
  "has_num h srt t = (case t of Thread c ts \<Rightarrow> \<exists>n. to_number h (c_field c (by_field srt)) = Fin n)"

lemma comp_gt_num:
  assumes "to_number h (c_field a (by_field srt)) = Fin m" "to_number h (c_field b (by_field srt)) = Fin n"
  shows "comp_gt h srt (Thread a as) (Thread b bs) \<longleftrightarrow> (if take 3 srt = ''asc'' then n < m else m < n)"
    "num_less (setComparator h srt a b) (Fin 0) \<or> num_eq (setComparator h srt a b) (Fin 0)
      \<longleftrightarrow> \<not> comp_gt h srt (Thread a as) (Thread b bs)"
  using assms by (auto simp: comp_gt_def setComparator_def by_field_def Let_def)

interpretation comment_order: comparator "has_num h srt" "comp_gt h srt" for h srt
proof
  fix a b c :: thread
  obtain x xs y ys z zs where abc: "a = Thread x xs" "b = Thread y ys" "c = Thread z zs"
    by (cases a; cases b; cases c) auto
  show "\<not> comp_gt h srt b a" if "has_num h srt a" "has_num h srt b" "comp_gt h srt a b"
    using that abc by (auto simp: has_num_def comp_gt_num split: if_splits)
  show "comp_gt h srt a b \<or> comp_gt h srt b c" if "has_num h srt a" "has_num h srt b" "has_num h srt c" "comp_gt h srt a c"
    using that abc by (auto simp: has_num_def comp_gt_num split: if_splits)
qed

fun all_threads :: "(thread \<Rightarrow> bool) \<Rightarrow> thread list \<Rightarrow> bool" where
  "all_threads P [] = True"
| "all_threads P (Thread c ks # ts) = (P (Thread c ks) \<and> all_threads P ks \<and> all_threads P ts)"

fun threads_sorted :: "heap \<Rightarrow> string \<Rightarrow> thread \<Rightarrow> bool" where
  "threads_sorted h srt (Thread c ks) = (sorted_wrt (\<lambda>a b. \<not> comp_gt h srt a b) ks \<and> (\<forall>k\<in>set ks. threads_sorted h srt k))"

text \<open>All the pairs of a comment and what it replies to.\<close>

fun replies :: "comment option \<Rightarrow> thread \<Rightarrow> (comment option \<times> comment) multiset" where
  "replies par (Thread c ks) = add_mset (par, c) (\<Sum>k\<in>#mset ks. replies (Some c) k)"

lemma all_threads_iff: "all_threads P ts \<longleftrightarrow> (\<forall>t\<in>set ts. P t \<and> (case t of Thread c ks \<Rightarrow> all_threads P ks))"
  by (induction P ts rule: all_threads.induct) auto

lemma comp_gt_sort_thread [simp]: "comp_gt h srt (sort_thread h' b' t) u = comp_gt h srt t u"
    "comp_gt h srt t (sort_thread h' b' u) = comp_gt h srt t u"
  by (cases t; cases u; simp add: comp_gt_def)+

lemma sortComments_sorted:
  "all_threads (has_num h srt) ts \<Longrightarrow>
   sorted_wrt (\<lambda>a b. \<not> comp_gt h srt a b) (sortComments h srt ts) \<and> (\<forall>t\<in>set (sortComments h srt ts). threads_sorted h srt t)"
  "all_threads (has_num h srt) [t] \<Longrightarrow> threads_sorted h srt (sort_thread h srt t)"
proof (induction h srt ts and h srt t rule: sortComments_sort_thread.induct)
  case (1 h srt ts)
  then have num: "\<forall>t\<in>set ts. has_num h srt t" by (simp add: all_threads_iff)
  have "sorted_wrt (\<lambda>a b. \<not> comp_gt h srt a b) (js_sort (comp_gt h srt) ts)"
    using comment_order.sorted_js_sort [OF num] .
  moreover have "threads_sorted h srt (sort_thread h srt t)" if "t \<in> set ts" for t
    using "1.IH" [of t] "1.prems" that by (cases t) (auto simp: all_threads_iff)
  ultimately show ?case by (simp add: sortComments.simps sorted_wrt_map)
next
  case (2 h srt c ts)
  then show ?case by (simp add: all_threads_iff)
qed

lemma replies_sort:
  "(\<Sum>t\<in>#mset (sortComments h srt ts). replies par t) = (\<Sum>t\<in>#mset ts. replies par t)"
  "replies par (sort_thread h srt t) = replies par t"
proof (induction h srt ts and h srt t arbitrary: par and par rule: sortComments_sort_thread.induct)
  case (1 h srt ts)
  have "(\<Sum>t\<in>#mset (sortComments h srt ts). replies par t) = (\<Sum>t\<in>#mset (js_sort (comp_gt h srt) ts). replies par (sort_thread h srt t))"
    by (simp add: sortComments.simps image_mset.compositionality comp_def)
  also have "\<dots> = (\<Sum>t\<in>#mset ts. replies par (sort_thread h srt t))" by simp
  also have "\<dots> = (\<Sum>t\<in>#mset ts. replies par t)"
    using "1.IH" by (intro arg_cong [where f = sum_mset] image_mset_cong) simp
  finally show ?case .
qed simp

subsection \<open>Sorting again\<close>

fun comment_of :: "thread \<Rightarrow> comment" where
  "comment_of (Thread c ks) = c"

text \<open>The comments whose boxes are shown with an id.\<close>

definition boxed :: "ws_opts \<Rightarrow> thread \<Rightarrow> bool" where
  "boxed opts t \<longleftrightarrow> c_displayed (comment_of t) \<or> moderator opts"

lemma getChildren_append:
  "all_threads (boxed opts) ts \<Longrightarrow> getChildren (fst (appendComments css opts ts p)) = ts"
  "all_threads (boxed opts) [t] \<Longrightarrow> getChildren [fst (append_thread css opts t p)] = [t]"
proof (induction css opts ts p and css opts t p rule: appendComments_append_thread.induct)
  case (2 css opts t ts p)
  obtain item p1 where i: "append_thread css opts t p = (item, p1)" by fastforce
  have "getChildren [item] = [t]" using 2 i by (cases t) auto
  then obtain c m kids where "item = CommentLi c m kids" by (cases item) auto
  with 2 i \<open>getChildren [item] = [t]\<close> show ?case by (cases t) (auto simp: Let_def split_beta)
next
  case (3 css opts c ts p)
  then show ?case by (auto simp: boxed_def createCommentDiv_def Let_def split_beta)
qed simp

lemma all_threads_sort:
  assumes "\<And>c ks ks'. P (Thread c ks) = P (Thread c ks')"
  shows "all_threads P ts \<Longrightarrow> all_threads P (sortComments h srt ts)"
    "all_threads P [t] \<Longrightarrow> all_threads P [sort_thread h srt t]"
proof (induction h srt ts and h srt t rule: sortComments_sort_thread.induct)
  case (1 h srt ts)
  have "all_threads P [sort_thread h srt t]" if "t \<in> set ts" for t
  proof -
    have "all_threads P [t]" using "1.prems" that by (simp add: all_threads_iff)
    then show ?thesis using "1.IH" that by simp
  qed
  then show ?case by (auto simp: sortComments.simps all_threads_iff)
next
  case (2 h srt c ts)
  have "P (Thread c (sortComments h srt ts)) = P (Thread c ts)" by (rule assms)
  with 2 show ?case by simp
qed

lemma ws_by_append:
  "ws_by (snd (appendComments css opts ts p)) = ws_by p"
  "ws_by (snd (append_thread css opts t p)) = ws_by p"
proof (induction css opts ts p and css opts t p rule: appendComments_append_thread.induct)
  case (2 css opts t ts p)
  then show ?case by (cases "append_thread css opts t p") (simp add: Let_def split_beta)
qed (simp_all add: Let_def split_beta createCommentDiv_def set_vis_def)

lemma ws_by_resort: "ws_by (snd (resort_uls h css opts srt us q)) = ws_by q"
  by (induction us arbitrary: q) (auto simp: Let_def split_beta ws_by_append)

lemma resort_uls_spec:
  "\<forall>(i, xs)\<in>set us. all_threads (boxed opts) (getChildren xs) \<Longrightarrow>
   map (\<lambda>(i, xs). (i, getChildren xs)) (fst (resort_uls h css opts srt us p))
     = map (\<lambda>(i, xs). (i, sortComments h srt (getChildren xs))) us"
proof (induction us arbitrary: p)
  case (Cons u us)
  obtain i xs where u: "u = (i, xs)" by fastforce
  have "all_threads (boxed opts) (sortComments h srt (getChildren xs))"
    by (rule all_threads_sort(1)) (use Cons.prems u in \<open>auto simp: boxed_def [abs_def]\<close>)
  with Cons u show ?case by (simp add: Let_def split_beta getChildren_append)
qed simp

text \<open>
  C34. Choosing another order rebuilds every open list from its comments, sorted by the chosen
  property at every level of replies: no comment is lost, duplicated or moved to another
  parent. (The comments have a number in that property, as they all have for the options
  \<open>rating\<close>, \<open>age\<close> and \<open>ascage\<close>.) The choice is stored in the page and in
  the cookie.
\<close>

theorem resort_sorts_threads:
  assumes "\<forall>(i, xs)\<in>set (uls p). all_threads (boxed opts) (getChildren xs)"
    and "srt = resort_by (split_spaces [] False class_attr) (ws_by p)"
    and "\<forall>(i, xs)\<in>set (uls p). all_threads (has_num h srt) (getChildren xs)"
  shows "ws_by (handleReSort h css opts class_attr p) = srt
    \<and> map fst (uls (handleReSort h css opts class_attr p)) = map fst (uls p)
    \<and> (\<forall>k < length (uls p). let old = getChildren (snd (uls p ! k)); new = getChildren (snd (uls (handleReSort h css opts class_attr p) ! k)) in
        sorted_wrt (\<lambda>a b. \<not> comp_gt h srt a b) new \<and> (\<forall>t\<in>set new. threads_sorted h srt t)
        \<and> (\<Sum>t\<in>#mset new. replies None t) = (\<Sum>t\<in>#mset old. replies None t))"
proof -
  let ?p1 = "p\<lparr>ws_by := srt, cookies := set_cookie ''sortBy'' (escape srt) (cookies p)\<rparr>"
  let ?us = "fst (resort_uls h css opts srt (uls p) ?p1)"
  have p': "handleReSort h css opts class_attr p = (snd (resort_uls h css opts srt (uls p) ?p1))\<lparr>uls := ?us\<rparr>"
    by (simp add: handleReSort_def Let_def split_beta flip: assms(2))
  have eq: "map (\<lambda>(i, xs). (i, getChildren xs)) ?us = map (\<lambda>(i, xs). (i, sortComments h srt (getChildren xs))) (uls p)"
    using resort_uls_spec assms(1) .
  have fsts: "map fst ?us = map fst (uls p)"
    using arg_cong [OF eq, of "map fst"] by (simp add: comp_def split_beta)
  have nth: "getChildren (snd (?us ! k)) = sortComments h srt (getChildren (snd (uls p ! k)))" if "k < length (uls p)" for k
  proof -
    have "length ?us = length (uls p)" using arg_cong [OF fsts, of length] by simp
    then show ?thesis using that arg_cong [OF eq, of "\<lambda>l. snd (l ! k)"] by (simp add: split_beta)
  qed
  have num: "all_threads (has_num h srt) (getChildren (snd (uls p ! k)))" if "k < length (uls p)" for k
    using assms(3) nth_mem [OF that] by (cases "uls p ! k") auto
  show ?thesis unfolding p'
    using fsts nth sortComments_sorted(1) [OF num] by (simp add: Let_def ws_by_resort replies_sort(1))
qed

theorem resort_sorts_threads_witness:
  "ws_by (handleReSort [] sample_css sample_opts ''sort-option byage'' sample_page) = ''age''
   \<and> (\<Sum>t\<in>#mset (getChildren (snd (uls (handleReSort [] sample_css sample_opts ''sort-option byage'' sample_page) ! 0))). replies None t)
      = {#(None, sample_comment)#}"
proof -
  have u: "uls sample_page = [(''n'', [CommentLi sample_comment False []])]" and b: "ws_by sample_page = ''rating''"
    by (simp_all add: sample_page_def set_vis_def)
  have s: "resort_by (split_spaces [] False ''sort-option byage'') (ws_by sample_page) = ''age''"
    by (simp add: resort_by_def is_space_def)
  have x: "\<forall>(i, xs)\<in>set (uls sample_page). all_threads (boxed sample_opts) (getChildren xs)"
    by (simp add: u boxed_def sample_comment_def)
  have n: "\<forall>(i, xs)\<in>set (uls sample_page). all_threads (has_num [] ''age'') (getChildren xs)"
    by (simp add: u has_num_def by_field_def c_field_def sample_comment_def)
  from resort_sorts_threads [OF x s [symmetric] n, of sample_css] show ?thesis by (simp add: u Let_def)
qed

subsection \<open>Inserting a comment\<close>

fun ins_before :: "heap \<Rightarrow> string \<Rightarrow> thread \<Rightarrow> thread list \<Rightarrow> thread list" where
  "ins_before h srt t [] = [t]"
| "ins_before h srt t (u # us) = (if comp_gt h srt t u then u # ins_before h srt t us else t # u # us)"

lemma ins_before_mset [simp]: "mset (ins_before h srt t us) = add_mset t (mset us)"
  by (induction us) auto

lemma ins_before_sorted:
  assumes "sorted_wrt (\<lambda>a b. \<not> comp_gt h srt a b) us" "has_num h srt t" "\<forall>u\<in>set us. has_num h srt u"
  shows "sorted_wrt (\<lambda>a b. \<not> comp_gt h srt a b) (ins_before h srt t us)"
  using assms
proof (induction us)
  case (Cons u us)
  show ?case
  proof (cases "comp_gt h srt t u")
    case True
    then have "\<not> comp_gt h srt u t" using Cons.prems comment_order.gt_asym by auto
    moreover have "set (ins_before h srt t us) = insert t (set us)"
      by (metis ins_before_mset set_mset_add_mset_insert set_mset_mset)
    ultimately show ?thesis using True Cons by auto
  next
    case False
    have "\<not> comp_gt h srt t w" if "w \<in> set us" for w
      using comment_order.gt_negtrans [of h srt t u w] False Cons.prems that by auto
    with False Cons.prems show ?thesis by auto
  qed
qed simp

lemma getChildren_insert:
  "has_num h srt (Thread c []) \<Longrightarrow> \<forall>t\<in>set (getChildren xs). has_num h srt t \<Longrightarrow>
   getChildren (insert_li h srt c (CommentLi c m []) xs) = ins_before h srt (Thread c []) (getChildren xs)"
proof (induction h srt c "CommentLi c m []" xs rule: insert_li.induct)
  case (2 h srt c d n kids xs)
  then obtain a b where ab: "to_number h (c_field c (by_field srt)) = Fin a" "to_number h (c_field d (by_field srt)) = Fin b"
    by (auto simp: has_num_def)
  note cmp = comp_gt_num(2) [OF ab, of "[]" "getChildren kids"]
  show ?case
  proof (cases "comp_gt h srt (Thread c []) (Thread d (getChildren kids))")
    case True
    with cmp 2 show ?thesis by (simp add: Let_def)
  next
    case False
    with cmp show ?thesis by (simp add: Let_def)
  qed
qed simp_all

text \<open>No comment box has the id: the ids of nodes and of comments do not clash.\<close>

fun no_box :: "string \<Rightarrow> thread list \<Rightarrow> bool" where
  "no_box i [] = True"
| "no_box i (Thread c ks # ts) = (c_id c \<noteq> i \<and> no_box i ks \<and> no_box i ts)"

lemma change_in_none: "no_box i (getChildren xs) \<Longrightarrow> change_in i f xs = None"
  by (induction xs rule: getChildren.induct) auto

lemma change_ul_lookup:
  "\<forall>(j, xs)\<in>set us. no_box i (getChildren xs) \<Longrightarrow> map_of (change_ul i f us) i = map_option f (map_of us i)"
  by (induction us) (auto simp: change_in_none)

text \<open>
  C33. Adding a comment to a node whose list is sorted keeps the list sorted by the chosen
  property, with the new comment added to it and nothing else changed.
\<close>

theorem insert_keeps_order:
  assumes "map_of (uls p) (c_node c) = Some xs" "c_node c \<noteq> []" "boxed opts (Thread c [])"
    and "\<forall>(j, ys)\<in>set (uls p). no_box (c_node c) (getChildren ys)"
    and "has_num h (ws_by p) (Thread c [])" "\<forall>t\<in>set (getChildren xs). has_num h (ws_by p) t"
    and "sorted_wrt (\<lambda>a b. \<not> comp_gt h (ws_by p) a b) (getChildren xs)"
  shows "\<exists>ys. map_of (uls (insertComment h css opts c p)) (c_node c) = Some ys
    \<and> sorted_wrt (\<lambda>a b. \<not> comp_gt h (ws_by p) a b) (getChildren ys)
    \<and> mset (getChildren ys) = add_mset (Thread c []) (mset (getChildren xs))"
proof -
  let ?item = "CommentLi c (\<not> c_displayed c) []"
  have box: "fst (createCommentDiv css opts c [] p) = ?item" "uls (snd (createCommentDiv css opts c [] p)) = uls p"
    using assms(3) by (auto simp: createCommentDiv_def boxed_def set_vis_def)
  have "map_of (uls (insertComment h css opts c p)) (c_node c) = Some (insert_li h (ws_by p) c ?item xs)"
    using assms(1,2,4) box by (simp add: insertComment_def Let_def split_beta change_ul_lookup)
  then show ?thesis
    using getChildren_insert [OF assms(5,6)] ins_before_sorted [OF assms(7,5,6)] by auto
qed

theorem insert_keeps_order_witness:
  "\<exists>ys. map_of (uls (insertComment [] sample_css sample_opts (sample_comment\<lparr>c_id := ''8'', c_rating := 5\<rparr>) sample_page)) ''n'' = Some ys
    \<and> mset (getChildren ys) = {#Thread (sample_comment\<lparr>c_id := ''8'', c_rating := 5\<rparr>) [], Thread sample_comment []#}"
proof -
  let ?c = "sample_comment\<lparr>c_id := ''8'', c_rating := 5\<rparr>"
  have u: "uls sample_page = [(''n'', [CommentLi sample_comment False []])]" and b: "ws_by sample_page = ''rating''"
    by (simp_all add: sample_page_def set_vis_def)
  have "\<exists>ys. map_of (uls (insertComment [] sample_css sample_opts ?c sample_page)) (c_node ?c) = Some ys
    \<and> sorted_wrt (\<lambda>a b. \<not> comp_gt [] (ws_by sample_page) a b) (getChildren ys)
    \<and> mset (getChildren ys) = add_mset (Thread ?c []) (mset (getChildren [CommentLi sample_comment False []]))"
    by (rule insert_keeps_order)
      (simp_all add: u b boxed_def has_num_def by_field_def c_field_def sample_comment_def)
  then show ?thesis by (auto simp: sample_comment_def)
qed

section \<open>The cookie\<close>

lemma escape_Cons: "escape (c # s) = (if escape_safe c then [c] else percent (of_char c)) @ escape s"
  by (simp add: escape_def)

lemma not_safe: "\<not> escape_safe (CHR ''%'')" "\<not> escape_safe (CHR '';'')"
  by (simp_all add: escape_safe_def word_char_def is_digit_def Let_def)

lemma unescape_n_escape: "length (escape s) \<le> n \<Longrightarrow> unescape_n n (escape s) = s"
proof (induction s arbitrary: n)
  case Nil
  then show ?case by (cases n) (simp_all add: escape_def)
next
  case (Cons c s)
  show ?case
  proof (cases "escape_safe c")
    case True
    then have c: "c \<noteq> CHR ''%''" using not_safe by auto
    then have none: "unescape_next (c # r) = None" for r
      by (cases r) (auto simp: unescape_next_def read_byte_def split: list.split)
    from True Cons.prems obtain m where n: "n = Suc m" "length (escape s) \<le> m"
      by (cases n) (auto simp: escape_Cons)
    with True none [of "escape s"] Cons.IH [of m] show ?thesis by (simp add: escape_Cons)
  next
    case False
    have "read_byte (percent (of_char c) @ escape s) = Some (of_char c, escape s)"
      by (rule read_byte_percent) simp
    then have nx: "unescape_next (percent (of_char c) @ escape s) = Some (c, escape s)" by (simp add: unescape_next_def)
    obtain t where t: "percent (of_char c) @ escape s = CHR ''%'' # t" using percent_Cons by blast
    from False Cons.prems obtain m where n: "n = Suc m" "length (escape s) \<le> m"
      by (cases n) (auto simp: escape_Cons percent_def)
    with False nx t Cons.IH [of m] show ?thesis by (simp add: escape_Cons)
  qed
qed

lemma unescape_escape: "unescape (escape s) = s"
  by (simp add: unescape_def unescape_n_escape)

lemma hex_digit_no_semicolon: "d < 16 \<Longrightarrow> hex_digit d \<noteq> CHR '';''"
  by (drule less_16_cases) (auto simp: hex_digit_def)

lemma escape_no_semicolon: "CHR '';'' \<notin> set (escape s)"
proof (induction s)
  case (Cons c s)
  have "of_char c < (256::nat)" by simp
  then have "of_char c div 16 < (16::nat)" by linarith
  then have "CHR '';'' \<notin> set (percent (of_char c))"
    using hex_digit_no_semicolon [of "of_char c div 16"] hex_digit_no_semicolon [of "of_char c mod 16"]
    by (auto simp: percent_def)
  with Cons not_safe show ?case by (auto simp: escape_Cons)
qed (simp add: escape_def)

lemma index_char: "index_from i [x] s = (if x \<in> set s then int (i + length (takeWhile (\<lambda>y. y \<noteq> x) s)) else -1)"
  by (induction s arbitrary: i) auto


end
