(* ===== verification/JQuery_Callbacks.thy ===== *)
theory JQuery_Callbacks
  imports JS_Values
begin

text \<open>
  jQuery's callback lists, deferred objects and \<open>jQuery.when\<close> (jquery.js). A callback may
  call every operation of every list while the list that calls it is firing, so the model is a
  machine whose second component is the JavaScript call stack: what is still to be done, the
  innermost call first. The functions in the lists are those that jquery.js itself creates,
  and functions of the page (\<open>User\<close>), whose body is a parameter: the calls it makes and
  what it returns.
\<close>

section \<open>Options\<close>

record cb_options =
  opt_once :: bool
  opt_memory :: bool
  opt_unique :: bool
  opt_stopOnFalse :: bool

text \<open>\<open>options.match(/\S+/g)\<close>\<close>

fun nonblank_words :: "string \<Rightarrow> string \<Rightarrow> string list" where
  "nonblank_words acc [] = (if acc = [] then [] else [rev acc])"
| "nonblank_words acc (c # cs) =
     (if is_space c then (if acc = [] then nonblank_words [] cs else rev acc # nonblank_words [] cs)
      else nonblank_words (c # acc) cs)"

definition createOptions :: "string \<Rightarrow> cb_options" where
  "createOptions options = (let flags = nonblank_words [] options in
     \<lparr>opt_once = ''once'' \<in> set flags, opt_memory = ''memory'' \<in> set flags,
      opt_unique = ''unique'' \<in> set flags, opt_stopOnFalse = ''stopOnFalse'' \<in> set flags\<rparr>)"

section \<open>Values\<close>

text \<open>
  What \<open>this\<close> is in a call: the promise of a deferred, an ordinary value, or the array of
  contexts that \<open>jQuery.when\<close> collects.
\<close>

datatype ctx = Promise nat | This jsval | Contexts "ctx list"

type_synonym data = "ctx \<times> jsval list"

text \<open>
  The functions a list can hold. \<open>SetState\<close> is the closure of \<open>Deferred\<close> that sets
  the state; \<open>DisableFn\<close> and \<open>LockFn\<close> are the methods of another list;
  \<open>Settle l\<close> is \<open>resolve\<close>, \<open>reject\<close> or \<open>notify\<close> of the deferred
  whose list is \<open>l\<close>; \<open>Forward\<close> is the closure of \<open>then\<close>; \<open>Update\<close>
  is the closure of \<open>when\<close>.
\<close>

datatype fn = User nat | SetState nat string | DisableFn nat | LockFn nat | Settle nat
  | Forward nat nat "nat option" nat | Update nat nat bool

record callbacks =
  options :: cb_options
  firing :: bool
  memory :: "data option"
  fired :: bool
  firingLength :: int
  firingIndex :: int
  firingStart :: nat
  cb_list :: "fn list option"
  cb_stack :: "data list option"

text \<open>\<open>jQuery.Callbacks(options)\<close>\<close>

definition Callbacks :: "cb_options \<Rightarrow> callbacks" where
  "Callbacks opts = \<lparr>options = opts, firing = False, memory = None, fired = False, firingLength = 0,
     firingIndex = 0, firingStart = 0, cb_list = Some [], cb_stack = (if opt_once opts then None else Some [])\<rparr>"

section \<open>The operations of a list\<close>

text \<open>The functions among the arguments of \<open>add\<close>, which may be nested in arrays.\<close>

datatype cb_arg = FnArg fn | ArrArg "cb_arg list" | OtherArg

fun add_args :: "cb_arg \<Rightarrow> fn list" where
  "add_args (FnArg f) = [f]"
| "add_args (ArrArg xs) = concat (map add_args xs)"
| "add_args OtherArg = []"

definition cb_push :: "cb_options \<Rightarrow> fn list \<Rightarrow> fn \<Rightarrow> fn list" where
  "cb_push opts xs f = (if opt_unique opts \<and> f \<in> set xs then xs else xs @ [f])"

text \<open>\<open>add\<close>; the second result is the value to fire the new callbacks with, at once.\<close>

definition cb_add :: "fn list \<Rightarrow> callbacks \<Rightarrow> callbacks \<times> data option" where
  "cb_add fns c = (case cb_list c of
      None \<Rightarrow> (c, None)
    | Some xs \<Rightarrow> (let xs' = foldl (cb_push (options c)) xs fns in
        if firing c then (c\<lparr>cb_list := Some xs', firingLength := int (length xs')\<rparr>, None)
        else (case memory c of
            Some m \<Rightarrow> (c\<lparr>cb_list := Some xs', firingStart := length xs\<rparr>, Some m)
          | None \<Rightarrow> (c\<lparr>cb_list := Some xs'\<rparr>, None))))"

text \<open>\<open>jQuery.inArray(arg, list, i)\<close>\<close>

definition inArray_from :: "fn \<Rightarrow> fn list \<Rightarrow> nat \<Rightarrow> nat option" where
  "inArray_from f xs i = find (\<lambda>j. xs ! j = f) [i..<length xs]"

lemma inArray_from_Some: "inArray_from f xs i = Some j \<Longrightarrow> i \<le> j \<and> j < length xs \<and> xs ! j = f"
  by (auto simp: inArray_from_def find_Some_iff)

definition shift_firing :: "nat \<Rightarrow> callbacks \<Rightarrow> callbacks" where
  "shift_firing j c = (if firing c then c\<lparr>
       firingLength := (if int j \<le> firingLength c then firingLength c - 1 else firingLength c),
       firingIndex := (if int j \<le> firingIndex c then firingIndex c - 1 else firingIndex c)\<rparr> else c)"

function remove_loop :: "fn \<Rightarrow> nat \<Rightarrow> fn list \<Rightarrow> callbacks \<Rightarrow> callbacks" where
  "remove_loop f i xs c = (case inArray_from f xs i of
      None \<Rightarrow> c\<lparr>cb_list := Some xs\<rparr>
    | Some j \<Rightarrow> remove_loop f j (take j xs @ drop (Suc j) xs) (shift_firing j c))"
  by pat_completeness auto
termination
  by (relation "measure (\<lambda>(f, i, xs, c). length xs)") (auto dest: inArray_from_Some)

declare remove_loop.simps [simp del]

definition cb_remove :: "fn list \<Rightarrow> callbacks \<Rightarrow> callbacks" where
  "cb_remove fns c = foldl (\<lambda>c f. case cb_list c of None \<Rightarrow> c | Some xs \<Rightarrow> remove_loop f 0 xs c) c fns"

definition cb_has :: "fn option \<Rightarrow> callbacks \<Rightarrow> bool" where
  "cb_has f c = (case f of
      Some g \<Rightarrow> (case cb_list c of Some xs \<Rightarrow> inArray_from g xs 0 \<noteq> None | None \<Rightarrow> False)
    | None \<Rightarrow> cb_list c \<noteq> None \<and> cb_list c \<noteq> Some [])"

definition cb_empty :: "callbacks \<Rightarrow> callbacks" where
  "cb_empty c = c\<lparr>cb_list := Some [], firingLength := 0\<rparr>"

definition cb_disable :: "callbacks \<Rightarrow> callbacks" where
  "cb_disable c = c\<lparr>cb_list := None, cb_stack := None, memory := None\<rparr>"

definition cb_disabled :: "callbacks \<Rightarrow> bool" where
  "cb_disabled c \<longleftrightarrow> cb_list c = None"

definition cb_lock :: "callbacks \<Rightarrow> callbacks" where
  "cb_lock c = (let c' = c\<lparr>cb_stack := None\<rparr> in if memory c' = None then cb_disable c' else c')"

definition cb_locked :: "callbacks \<Rightarrow> bool" where
  "cb_locked c \<longleftrightarrow> cb_stack c = None"

text \<open>\<open>fireWith\<close>; the second result is the value to call \<open>fire\<close> with.\<close>

definition cb_fireWith :: "data \<Rightarrow> callbacks \<Rightarrow> callbacks \<times> data option" where
  "cb_fireWith d c =
     (if cb_list c \<noteq> None \<and> (\<not> fired c \<or> cb_stack c \<noteq> None) then
        (if firing c then (c\<lparr>cb_stack := map_option (\<lambda>st. st @ [d]) (cb_stack c)\<rparr>, None)
         else (c, Some d))
      else (c, None))"

text \<open>The three parts of \<open>fire\<close>: before the loop, the loop's step, and after the loop.\<close>

definition fire_begin :: "data \<Rightarrow> callbacks \<Rightarrow> callbacks" where
  "fire_begin d c = c\<lparr>memory := (if opt_memory (options c) then Some d else None), fired := True,
     firingIndex := int (firingStart c), firingStart := 0,
     firingLength := (case cb_list c of Some xs \<Rightarrow> int (length xs) | None \<Rightarrow> 0), firing := True\<rparr>"

definition fire_end :: "callbacks \<Rightarrow> callbacks \<times> data option" where
  "fire_end c0 = (let c = c0\<lparr>firing := False\<rparr> in
     if cb_list c = None then (c, None)
     else (case cb_stack c of
         Some (d # ds) \<Rightarrow> (c\<lparr>cb_stack := Some ds\<rparr>, Some d)
       | Some [] \<Rightarrow> (c, None)
       | None \<Rightarrow> if memory c \<noteq> None then (c\<lparr>cb_list := Some []\<rparr>, None) else (cb_disable c, None)))"

section \<open>The machine\<close>

text \<open>
  The calls a callback can make. Callback lists have addresses in a store; a deferred is the
  address \<open>d\<close> of the first of its three lists: \<open>d\<close> (resolve, done),
  \<open>d + 1\<close> (reject, fail) and \<open>d + 2\<close> (notify, progress).
\<close>

datatype when_arg = Plain jsval | Sub nat

datatype act = Add nat "fn list" | Remove nat "fn list" | Empty nat | Disable nat | Lock nat
  | FireWith nat data | SetSt nat string | NewCallbacks string | NewDeferred | Then nat "nat option list"
  | When "when_arg list" | UpdateW nat nat bool data | DecW nat | EndW nat

datatype task = Fire nat data | Loop nat data | Next nat data bool | Finish nat | Do act

record when_state =
  master :: nat
  remaining :: int
  resolveValues :: "jsval list"
  resolveContexts :: "ctx list option"
  progressValues :: "jsval list"
  progressContexts :: "ctx list"

text \<open>
  \<open>adds\<close> and \<open>calls\<close> record the history: the functions that \<open>add\<close> has
  put into the lists and the calls of callbacks, the latest last.
\<close>

record sys =
  lists :: "callbacks list"
  dstate :: "nat \<Rightarrow> string"
  whens :: "when_state list"
  adds :: "(nat \<times> fn) list"
  calls :: "(nat \<times> fn \<times> data) list"

text \<open>What a function of the page returns: a value, or a promise.\<close>

datatype ret = Value jsval | PromiseOf nat

type_synonym code = "nat \<Rightarrow> data \<Rightarrow> act list \<times> ret"

definition upd :: "nat \<Rightarrow> callbacks \<Rightarrow> sys \<Rightarrow> sys" where
  "upd l c s = s\<lparr>lists := (lists s)[l := c]\<rparr>"

subsection \<open>Deferred\<close>

definition Deferred :: "sys \<Rightarrow> sys" where
  "Deferred s = (let d = length (lists s);
       once_memory = createOptions ''once memory'';
       done = fst (cb_add [SetState d ''resolved'', DisableFn (d + 1), LockFn (d + 2)] (Callbacks once_memory));
       fail = fst (cb_add [SetState d ''rejected'', DisableFn d, LockFn (d + 2)] (Callbacks once_memory));
       progress = Callbacks (createOptions ''memory'') in
     s\<lparr>lists := lists s @ [done, fail, progress], dstate := (dstate s)(d := ''pending'')\<rparr>)"

text \<open>\<open>then\<close>: the function for each list, if it is one, and the new deferred.\<close>

definition then_acts :: "nat \<Rightarrow> nat option list \<Rightarrow> nat \<Rightarrow> act list" where
  "then_acts d fns newDefer = map (\<lambda>i. Add (d + i)
     [Forward d i (if i < length fns then fns ! i else None) newDefer]) [0..<3]"

definition forward_ctx :: "nat \<Rightarrow> nat \<Rightarrow> ctx \<Rightarrow> ctx" where
  "forward_ctx d newDefer c = (if c = Promise d then Promise newDefer else c)"

definition adopt_acts :: "nat \<Rightarrow> nat \<Rightarrow> act list" where
  "adopt_acts p newDefer = map (\<lambda>i. Add (p + i) [Settle (newDefer + i)]) [0..<3]"

subsection \<open>The bodies of the functions\<close>

definition returns_false :: "ret \<Rightarrow> bool" where
  "returns_false r \<longleftrightarrow> r = Value (Bool False)"

fun body :: "code \<Rightarrow> fn \<Rightarrow> data \<Rightarrow> act list \<times> bool" where
  "body code (User u) d = (case code u d of (acts, r) \<Rightarrow> (acts, returns_false r))"
| "body code (SetState i st) d = ([SetSt i st], False)"
| "body code (DisableFn l) d = ([Disable l], False)"
| "body code (LockFn l) d = ([Lock l], False)"
| "body code (Settle l) d = ([FireWith l d], False)"
| "body code (Forward i k None new) d = ([FireWith (new + k) (forward_ctx i new (fst d), snd d)], False)"
| "body code (Forward i k (Some u) new) d = (case code u d of (acts, r) \<Rightarrow>
     (acts @ (case r of
          PromiseOf p \<Rightarrow> adopt_acts p new
        | Value v \<Rightarrow> [FireWith (new + k) (forward_ctx i new (fst d), [v])]), False))"
| "body code (Update w i prog) d = ([UpdateW w i prog d], False)"

subsection \<open>When\<close>

definition plain_val :: "when_arg \<Rightarrow> jsval" where
  "plain_val a = (case a of Plain v \<Rightarrow> v | Sub d \<Rightarrow> Undef)"

text \<open>\<open>jQuery.when\<close> with anything but exactly one deferred, for which it returns that one.\<close>

definition when_acts :: "nat \<Rightarrow> nat \<Rightarrow> when_arg list \<Rightarrow> act list" where
  "when_acts w m args =
     (if length args > 1 then concat (map (\<lambda>(i, a). case a of
          Sub d \<Rightarrow> [Add d [Update w i False], Add (d + 1) [Settle (m + 1)],
                    Add (d + 2) [Update w i True]]
        | Plain v \<Rightarrow> [DecW w]) (indexed args)) else []) @ [EndW w]"

definition new_when :: "when_arg list \<Rightarrow> sys \<Rightarrow> sys \<times> task list" where
  "new_when args s = (let n = length args; m = length (lists s); w = length (whens s);
       st = \<lparr>master = m, remaining = (if n \<noteq> 1 then int n else 0), resolveValues = map plain_val args,
             resolveContexts = (if n > 1 then Some (replicate n (This Undef)) else None),
             progressValues = replicate n Undef, progressContexts = replicate n (This Undef)\<rparr> in
     ((Deferred s)\<lparr>whens := whens s @ [st]\<rparr>, map Do (when_acts w m args)))"

definition start_when :: "when_arg list \<Rightarrow> sys \<Rightarrow> sys \<times> task list" where
  "start_when args s = (case args of [Sub d] \<Rightarrow> (s, []) | _ \<Rightarrow> new_when args s)"

definition passed :: "jsval list \<Rightarrow> jsval" where
  "passed args = (if length args > 1 then Arr args else arg args 0)"

definition contexts_of :: "ctx list option \<Rightarrow> ctx" where
  "contexts_of cs = (case cs of Some xs \<Rightarrow> Contexts xs | None \<Rightarrow> This Undef)"

definition updateFunc :: "nat \<Rightarrow> bool \<Rightarrow> data \<Rightarrow> when_state \<Rightarrow> when_state \<times> act list" where
  "updateFunc i prog d w =
     (if prog then
        (let w' = w\<lparr>progressContexts := (progressContexts w)[i := fst d],
                    progressValues := (progressValues w)[i := passed (snd d)]\<rparr> in
         (w', [FireWith (master w' + 2) (Contexts (progressContexts w'), progressValues w')]))
      else
        (let w' = w\<lparr>resolveContexts := map_option (\<lambda>cs. cs[i := fst d]) (resolveContexts w),
                    resolveValues := (resolveValues w)[i := passed (snd d)], remaining := remaining w - 1\<rparr> in
         (w', if remaining w' = 0 then [FireWith (master w') (contexts_of (resolveContexts w'), resolveValues w')]
              else [])))"

definition end_when :: "when_state \<Rightarrow> act list" where
  "end_when w = (if remaining w = 0
     then [FireWith (master w) (contexts_of (resolveContexts w), resolveValues w)] else [])"

definition on_when :: "nat \<Rightarrow> (when_state \<Rightarrow> when_state \<times> act list) \<Rightarrow> sys \<Rightarrow> sys \<times> task list" where
  "on_when w f s = (if w < length (whens s)
     then (case f (whens s ! w) of (st, acts) \<Rightarrow> (s\<lparr>whens := (whens s)[w := st]\<rparr>, map Do acts)) else (s, []))"

subsection \<open>Steps\<close>

text \<open>
  An operation on the list at an address, and the call of \<open>fire\<close> it ends in.
\<close>

definition on_list :: "nat \<Rightarrow> (callbacks \<Rightarrow> callbacks \<times> data option) \<Rightarrow> sys \<Rightarrow> sys \<times> task list" where
  "on_list l f s = (if l < length (lists s)
     then (let r = f (lists s ! l) in (upd l (fst r) s, case snd r of Some d \<Rightarrow> [Fire l d] | None \<Rightarrow> []))
     else (s, []))"

definition pushed :: "nat \<Rightarrow> fn list \<Rightarrow> sys \<Rightarrow> (nat \<times> fn) list" where
  "pushed l fns s = (if l < length (lists s) then (case cb_list (lists s ! l) of
       Some xs \<Rightarrow> map (Pair l) (drop (length xs) (foldl (cb_push (options (lists s ! l))) xs fns))
     | None \<Rightarrow> []) else [])"

fun do_act :: "act \<Rightarrow> sys \<Rightarrow> sys \<times> task list" where
  "do_act (Add l fns) s = (case on_list l (cb_add fns) s of (s', ts) \<Rightarrow> (s'\<lparr>adds := adds s @ pushed l fns s\<rparr>, ts))"
| "do_act (Remove l fns) s = on_list l (\<lambda>c. (cb_remove fns c, None)) s"
| "do_act (Empty l) s = on_list l (\<lambda>c. (cb_empty c, None)) s"
| "do_act (Disable l) s = on_list l (\<lambda>c. (cb_disable c, None)) s"
| "do_act (Lock l) s = on_list l (\<lambda>c. (cb_lock c, None)) s"
| "do_act (FireWith l d) s = on_list l (cb_fireWith d) s"
| "do_act (SetSt d st) s = (s\<lparr>dstate := (dstate s)(d := st)\<rparr>, [])"
| "do_act (NewCallbacks opts) s = (s\<lparr>lists := lists s @ [Callbacks (createOptions opts)]\<rparr>, [])"
| "do_act NewDeferred s = (Deferred s, [])"
| "do_act (Then d fns) s = (Deferred s, map Do (then_acts d fns (length (lists s))))"
| "do_act (When args) s = start_when args s"
| "do_act (UpdateW w i prog d) s = on_when w (updateFunc i prog d) s"
| "do_act (DecW w) s = on_when w (\<lambda>st. (st\<lparr>remaining := remaining st - 1\<rparr>, [])) s"
| "do_act (EndW w) s = on_when w (\<lambda>st. (st, end_when st)) s"

type_synonym config = "sys \<times> task list"

text \<open>
  One step of the innermost call. The call \<open>list[firingIndex].apply\<close> is a TypeError
  when there is no such entry.
\<close>

fun cb_step :: "code \<Rightarrow> config \<Rightarrow> jsexn + config" where
  "cb_step code (s, []) = Inr (s, [])"
| "cb_step code (s, Fire l d # ts) = Inr (upd l (fire_begin d (lists s ! l)) s, Loop l d # ts)"
| "cb_step code (s, Loop l d # ts) = (let c = lists s ! l in
     case cb_list c of
       None \<Rightarrow> Inr (s, Finish l # ts)
     | Some xs \<Rightarrow>
         if firingIndex c < firingLength c then
           (if 0 \<le> firingIndex c \<and> firingIndex c < int (length xs) then
              (let f = xs ! nat (firingIndex c) in
               case body code f d of (acts, stop) \<Rightarrow>
                 Inr (s\<lparr>calls := calls s @ [(l, f, d)]\<rparr>, map Do acts @ Next l d stop # ts))
            else Inl (TypeErr ''list[firingIndex] is undefined''))
         else Inr (s, Finish l # ts))"
| "cb_step code (s, Next l d stop # ts) = (let c = lists s ! l in
     if stop \<and> opt_stopOnFalse (options c) then Inr (upd l (c\<lparr>memory := None\<rparr>) s, Finish l # ts)
     else Inr (upd l (c\<lparr>firingIndex := firingIndex c + 1\<rparr>) s, Loop l d # ts))"
| "cb_step code (s, Finish l # ts) = (let r = fire_end (lists s ! l) in
     Inr (upd l (fst r) s, (case snd r of Some d \<Rightarrow> [Fire l d] | None \<Rightarrow> []) @ ts))"
| "cb_step code (s, Do a # ts) = (case do_act a s of (s', ts') \<Rightarrow> Inr (s', ts' @ ts))"

primrec cb_run :: "nat \<Rightarrow> code \<Rightarrow> config \<Rightarrow> jsexn + config" where
  "cb_run 0 code cfg = Inr cfg"
| "cb_run (Suc n) code cfg = (case cb_step code cfg of Inl e \<Rightarrow> Inl e | Inr cfg' \<Rightarrow> cb_run n code cfg')"

definition sys0 :: sys where
  "sys0 = \<lparr>lists = [], dstate = (\<lambda>d. []), whens = [], adds = [], calls = []\<rparr>"

section \<open>Firing is safe\<close>

text \<open>
  A page: whenever the call stack is empty it may make any call that \<open>P\<close> allows.
\<close>

definition cb_move :: "code \<Rightarrow> (act \<Rightarrow> bool) \<Rightarrow> config \<Rightarrow> config \<Rightarrow> bool" where
  "cb_move code P cfg cfg' \<longleftrightarrow>
     (if snd cfg = [] then \<exists>a. P a \<and> cfg' = (fst cfg, [Do a]) else cb_step code cfg = Inr cfg')"

definition cb_start :: "config \<Rightarrow> bool" where
  "cb_start cfg \<longleftrightarrow> cfg = (sys0, [])"

definition list_ok :: "callbacks \<Rightarrow> bool" where
  "list_ok c \<longleftrightarrow> (firing c \<longrightarrow> -1 \<le> firingIndex c)
     \<and> (\<forall>xs. firing c \<longrightarrow> cb_list c = Some xs \<longrightarrow> firingLength c = int (length xs))"

fun deep :: "task \<Rightarrow> bool" where
  "deep (Next l d b) = True"
| "deep (Do a) = True"
| "deep t = False"

fun in_list :: "nat \<Rightarrow> task \<Rightarrow> bool" where
  "in_list l (Loop m d) = (m = l)"
| "in_list l (Next m d b) = (m = l)"
| "in_list l (Finish m) = (m = l)"
| "in_list l t = False"

definition is_firing :: "sys \<Rightarrow> nat \<Rightarrow> bool" where
  "is_firing s l \<longleftrightarrow> l < length (lists s) \<and> firing (lists s ! l)"

fun head_ok :: "sys \<Rightarrow> task list \<Rightarrow> bool" where
  "head_ok s (Fire l d # ts) = (l < length (lists s) \<and> \<not> is_firing s l)"
| "head_ok s (Loop l d # ts) = (0 \<le> firingIndex (lists s ! l))"
| "head_ok s ts = True"

definition cb_inv :: "config \<Rightarrow> bool" where
  "cb_inv = (\<lambda>(s, ts). list_all deep (tl ts) \<and> head_ok s ts \<and> list_all list_ok (lists s)
     \<and> (\<forall>l. length (filter (in_list l) ts) = (if is_firing s l then 1 else 0)))"

text \<open>What every operation on a list keeps.\<close>

definition op_ok :: "(callbacks \<Rightarrow> callbacks \<times> data option) \<Rightarrow> bool" where
  "op_ok f \<longleftrightarrow> (\<forall>c. list_ok c \<longrightarrow> list_ok (fst (f c)) \<and> firing (fst (f c)) = firing c \<and> (snd (f c) \<noteq> None \<longrightarrow> \<not> firing c))"

lemma op_ok_add: "op_ok (cb_add fns)"
  by (auto simp: op_ok_def cb_add_def list_ok_def Let_def split: option.split)

lemma op_ok_fireWith: "op_ok (cb_fireWith d)"
  by (auto simp: op_ok_def cb_fireWith_def list_ok_def)

lemma op_ok_empty: "op_ok (\<lambda>c. (cb_empty c, None))"
  by (simp add: op_ok_def cb_empty_def list_ok_def)

lemma op_ok_disable: "op_ok (\<lambda>c. (cb_disable c, None))"
  by (simp add: op_ok_def cb_disable_def list_ok_def)

lemma op_ok_lock: "op_ok (\<lambda>c. (cb_lock c, None))"
  by (simp add: op_ok_def cb_lock_def cb_disable_def list_ok_def Let_def)

lemma shift_firing_ok:
  assumes "j < n" "firing c \<longrightarrow> -1 \<le> firingIndex c \<and> firingLength c = int n"
  shows "firing (shift_firing j c) \<longrightarrow> -1 \<le> firingIndex (shift_firing j c) \<and> firingLength (shift_firing j c) = int (n - 1)"
proof (cases "firing c")
  case True
  with assms have "-1 \<le> firingIndex c" "firingLength c = int n" by simp_all
  with True assms(1) show ?thesis by (simp add: shift_firing_def)
next
  case False
  then show ?thesis by (simp add: shift_firing_def)
qed

lemma firing_shift [simp]: "firing (shift_firing j c) = firing c"
  by (simp add: shift_firing_def)

lemma remove_loop_ok:
  "firing c \<longrightarrow> -1 \<le> firingIndex c \<and> firingLength c = int (length xs) \<Longrightarrow>
   list_ok (remove_loop f i xs c) \<and> firing (remove_loop f i xs c) = firing c"
proof (induction f i xs c rule: remove_loop.induct)
  case (1 f i xs c)
  show ?case
  proof (cases "inArray_from f xs i")
    case None
    then have "remove_loop f i xs c = c\<lparr>cb_list := Some xs\<rparr>"
      by (subst remove_loop.simps) (simp only: option.case)
    with "1.prems" show ?thesis by (simp add: list_ok_def)
  next
    case (Some j)
    have j: "j < length xs" using inArray_from_Some [OF Some] by simp
    have eq: "remove_loop f i xs c = remove_loop f j (take j xs @ drop (Suc j) xs) (shift_firing j c)"
      by (subst remove_loop.simps) (simp only: Some option.case)
    have len: "length (take j xs @ drop (Suc j) xs) = length xs - 1" using j by simp
    show ?thesis unfolding eq
      using "1.IH" [OF Some] shift_firing_ok [OF j "1.prems"] unfolding len firing_shift by blast
  qed
qed

lemma op_ok_remove: "op_ok (\<lambda>c. (cb_remove fns c, None))"
proof -
  have "list_ok (cb_remove fns c) \<and> firing (cb_remove fns c) = firing c" if "list_ok c" for c
    using that
  proof (induction fns arbitrary: c)
    case Nil
    then show ?case by (simp add: cb_remove_def)
  next
    case (Cons f fns)
    let ?c = "case cb_list c of None \<Rightarrow> c | Some xs \<Rightarrow> remove_loop f 0 xs c"
    have "list_ok ?c \<and> firing ?c = firing c"
      using remove_loop_ok [of c] Cons.prems by (auto simp: list_ok_def split: option.split)
    with Cons.IH [of ?c] show ?case by (simp add: cb_remove_def)
  qed
  then show ?thesis by (simp add: op_ok_def)
qed

lemmas op_oks = op_ok_add op_ok_fireWith op_ok_empty op_ok_disable op_ok_lock op_ok_remove

text \<open>What every call keeps: the flags of the lists, and what it pushes on the call stack.\<close>

definition frame_ok :: "sys \<Rightarrow> sys \<times> task list \<Rightarrow> bool" where
  "frame_ok s r \<longleftrightarrow> list_all list_ok (lists (fst r))
     \<and> (\<exists>k. map firing (lists (fst r)) = map firing (lists s) @ replicate k False)
     \<and> ((\<exists>acts. snd r = map Do acts)
        \<or> (\<exists>l d. snd r = [Fire l d] \<and> l < length (lists s) \<and> \<not> is_firing s l))"

lemma frame_ok_on_list:
  assumes "op_ok f" "list_all list_ok (lists s)"
  shows "frame_ok s (on_list l f s)"
proof (cases "l < length (lists s)")
  case True
  with assms have f: "list_ok (fst (f (lists s ! l)))" "firing (fst (f (lists s ! l))) = firing (lists s ! l)"
    "snd (f (lists s ! l)) \<noteq> None \<longrightarrow> \<not> firing (lists s ! l)"
    by (auto simp: op_ok_def list_all_length)
  have "map firing ((lists s)[l := fst (f (lists s ! l))]) = map firing (lists s) @ replicate 0 False"
    using f(2) True by (simp add: map_update list_update_same_conv)
  moreover have "list_all list_ok ((lists s)[l := fst (f (lists s ! l))])"
    using assms(2) f(1) True by (auto simp: list_all_length nth_list_update)
  ultimately show ?thesis
    using True f(3) by (auto simp: frame_ok_def on_list_def upd_def is_firing_def Let_def split: option.split)
next
  case False
  with assms(2) show ?thesis by (auto simp: frame_ok_def on_list_def intro: exI [of _ 0])
qed

lemma frame_ok_same: "list_all list_ok (lists s) \<Longrightarrow> lists s' = lists s \<Longrightarrow> frame_ok s (s', map Do acts)"
  by (auto simp: frame_ok_def intro: exI [of _ 0])

lemma list_ok_Callbacks: "list_ok (Callbacks opts)" "\<not> firing (Callbacks opts)"
  by (simp_all add: list_ok_def Callbacks_def)

lemma fresh_list_ok:
  "list_ok (fst (cb_add fns (Callbacks opts)))" "\<not> firing (fst (cb_add fns (Callbacks opts)))"
  using op_ok_add [of fns] list_ok_Callbacks [of opts] by (auto simp: op_ok_def)

lemma lists_Deferred:
  "lists (Deferred s) = lists s @ [
     fst (cb_add [SetState (length (lists s)) ''resolved'', DisableFn (length (lists s) + 1), LockFn (length (lists s) + 2)]
       (Callbacks (createOptions ''once memory''))),
     fst (cb_add [SetState (length (lists s)) ''rejected'', DisableFn (length (lists s)), LockFn (length (lists s) + 2)]
       (Callbacks (createOptions ''once memory''))),
     Callbacks (createOptions ''memory'')]"
  by (simp add: Deferred_def Let_def)

lemma frame_ok_Deferred:
  "list_all list_ok (lists s) \<Longrightarrow> lists s' = lists (Deferred s) \<Longrightarrow> frame_ok s (s', map Do acts)"
  unfolding frame_ok_def lists_Deferred
  by (auto simp: fresh_list_ok list_ok_Callbacks numeral_3_eq_3 intro!: exI [of _ 3])

lemma frame_ok_do_act:
  assumes "list_all list_ok (lists s)"
  shows "frame_ok s (do_act a s)"
proof (cases a)
  case (Add l fns)
  have "frame_ok s (on_list l (cb_add fns) s)" using assms by (simp add: frame_ok_on_list op_oks)
  with Add show ?thesis by (auto simp: frame_ok_def split_beta)
next
  case (NewCallbacks opts)
  with assms show ?thesis
    by (auto simp: frame_ok_def list_ok_Callbacks intro!: exI [of _ 1])
next
  case NewDeferred
  with assms frame_ok_Deferred [OF assms, of "Deferred s" "[]"] show ?thesis by simp
next
  case (Then d fns)
  with frame_ok_Deferred [OF assms, of "Deferred s"] show ?thesis by simp
next
  case (When args)
  have "start_when args s = (s, []) \<or> start_when args s = new_when args s"
    by (simp add: start_when_def split: list.split when_arg.split)
  moreover have "\<exists>s' acts. new_when args s = (s', map Do acts) \<and> lists s' = lists (Deferred s)"
    by (auto simp: new_when_def Let_def)
  ultimately show ?thesis
    using When frame_ok_same [OF assms refl, of "[]"] frame_ok_Deferred [OF assms] by auto
next
  case (SetSt d st)
  then show ?thesis using frame_ok_same [OF assms, of "s\<lparr>dstate := (dstate s)(d := st)\<rparr>" "[]"] by simp
qed (use assms in \<open>auto simp: on_when_def op_oks intro!: frame_ok_on_list frame_ok_same
    frame_ok_same [where acts = "[]", simplified] split: prod.split\<close>)

lemma is_firing_upd: "l < length (lists s) \<Longrightarrow> is_firing (upd l c s) m = (if m = l then firing c else is_firing s m)"
  by (auto simp: is_firing_def upd_def)

lemma list_ok_upd:
  "list_all list_ok (lists s) \<Longrightarrow> list_ok c \<Longrightarrow> list_all list_ok (lists (upd l c s))"
  by (auto simp: upd_def list_all_iff dest: set_update_subset_insert [THEN subsetD])

lemma length_lists_upd [simp]: "length (lists (upd l c s)) = length (lists s)"
  by (simp add: upd_def)

lemma nth_upd: "l < length (lists s) \<Longrightarrow> lists (upd l c s) ! m = (if m = l then c else lists s ! m)"
  by (simp add: upd_def nth_list_update)

lemma deep_Do: "list_all deep (map Do acts)" "filter (in_list l) (map Do acts) = []"
  by (induction acts) auto

lemma list_all_tl: "list_all P xs \<Longrightarrow> list_all P (tl xs)"
  by (cases xs) auto

lemma head_ok_deep: "list_all deep ts \<Longrightarrow> head_ok s ts"
  by (cases "(s, ts)" rule: head_ok.cases) auto

lemma cb_inv_top:
  assumes "cb_inv (s, t # ts)" "in_list l t"
  shows "is_firing s l" "filter (in_list l) ts = []"
proof -
  from assms(1) have "length (filter (in_list l) (t # ts)) = (if is_firing s l then 1 else 0)"
    by (simp only: cb_inv_def prod.case)
  with assms(2) have "Suc (length (filter (in_list l) ts)) = (if is_firing s l then 1 else 0)" by simp
  then show "is_firing s l" "filter (in_list l) ts = []" by (auto split: if_splits)
qed

lemma list_ok_at: "cb_inv (s, ts) \<Longrightarrow> l < length (lists s) \<Longrightarrow> list_ok (lists s ! l)"
  by (simp add: cb_inv_def list_all_length)

lemma cb_inv_Do:
  assumes "cb_inv (s, Do a # ts)"
  shows "cb_inv (fst (do_act a s), snd (do_act a s) @ ts)"
proof -
  from assms have lo: "list_all list_ok (lists s)" and dp: "list_all deep ts"
    and cnt: "\<And>l. length (filter (in_list l) ts) = (if is_firing s l then 1 else 0)"
    by (auto simp: cb_inv_def)
  obtain s' ts' where r: "do_act a s = (s', ts')" by fastforce
  from frame_ok_do_act [OF lo, of a] r obtain k where
    lo': "list_all list_ok (lists s')" and fl: "map firing (lists s') = map firing (lists s) @ replicate k False"
    and ts': "(\<exists>acts. ts' = map Do acts) \<or> (\<exists>l d. ts' = [Fire l d] \<and> l < length (lists s) \<and> \<not> is_firing s l)"
    by (auto simp: frame_ok_def)
  have len: "length (lists s') = length (lists s) + k" using arg_cong [OF fl, of length] by simp
  have fir: "is_firing s' l = is_firing s l" for l
  proof (cases "l < length (lists s')")
    case True
    then have "firing (lists s' ! l) = (map firing (lists s) @ replicate k False) ! l" by (simp flip: fl)
    with True len show ?thesis by (auto simp: is_firing_def nth_append)
  qed (simp add: is_firing_def len)
  have "list_all deep (tl (ts' @ ts)) \<and> head_ok s' (ts' @ ts)"
    using ts' dp fir len
    by (elim disjE exE conjE) (simp_all add: deep_Do list_all_tl head_ok_deep)
  moreover have "filter (in_list l) ts' = []" for l using ts' by (elim disjE exE conjE) (simp_all add: deep_Do)
  ultimately show ?thesis using lo' cnt fir r by (simp add: cb_inv_def)
qed

lemma fire_end_facts:
  "list_ok c \<Longrightarrow> list_ok (fst (fire_end c)) \<and> \<not> firing (fst (fire_end c))"
  by (auto simp: fire_end_def cb_disable_def list_ok_def Let_def split: option.split list.split)

lemma cb_inv_Fire:
  assumes "cb_inv (s, Fire l d # ts)"
  shows "cb_inv (upd l (fire_begin d (lists s ! l)) s, Loop l d # ts)"
proof -
  from assms have l: "l < length (lists s)" "\<not> is_firing s l" and lo: "list_all list_ok (lists s)" and dp: "list_all deep ts"
    and cnt: "\<And>m. length (filter (in_list m) ts) = (if is_firing s m then 1 else 0)"
    by (auto simp: cb_inv_def)
  have "list_ok (fire_begin d (lists s ! l))" by (auto simp: list_ok_def fire_begin_def split: option.split)
  moreover have "\<not> is_firing s m \<Longrightarrow> filter (in_list m) ts = []" for m using cnt by (simp flip: length_0_conv)
  ultimately show ?thesis using lo l dp cnt
    by (simp add: cb_inv_def list_ok_upd is_firing_upd nth_upd) (simp add: fire_begin_def)
qed

lemma cb_inv_replace:
  assumes "cb_inv (s, t # ts)" "in_list l t" "list_ok c" "firing c" "\<And>m. in_list m t' = (m = l)"
    "head_ok (upd l c s) (map Do acts @ t' # ts)" "acts = [] \<or> deep t'"
  shows "cb_inv (upd l c s, map Do acts @ t' # ts)"
proof -
  have l: "l < length (lists s)" using cb_inv_top(1) [OF assms(1,2)] by (simp add: is_firing_def)
  from assms(1) have lo: "list_all list_ok (lists s)" and dp: "list_all deep ts"
    and cnt: "\<And>m. length (filter (in_list m) (t # ts)) = (if is_firing s m then 1 else 0)"
    by (auto simp: cb_inv_def)
  have "length (filter (in_list m) (t' # ts)) = (if is_firing (upd l c s) m then 1 else 0)" for m
  proof (cases "m = l")
    case True
    with cb_inv_top(2) [OF assms(1,2)] assms(4,5) l show ?thesis by (simp add: is_firing_upd)
  next
    case False
    moreover have "\<not> in_list m t" using assms(2) False by (cases t) auto
    ultimately show ?thesis using cnt [of m] assms(5) l by (simp add: is_firing_upd)
  qed
  moreover have "list_all deep (tl (map Do acts @ t' # ts))"
    using assms(7) dp by (cases acts) (auto simp: deep_Do)
  ultimately show ?thesis
    using lo assms(3,6) by (simp add: cb_inv_def list_ok_upd deep_Do)
qed

lemma cb_inv_Finish:
  assumes "cb_inv (s, Finish l # ts)"
  shows "cb_inv (upd l (fst (fire_end (lists s ! l))) s,
    (case snd (fire_end (lists s ! l)) of Some d \<Rightarrow> [Fire l d] | None \<Rightarrow> []) @ ts)"
proof -
  have top: "is_firing s l" "filter (in_list l) ts = []" using cb_inv_top [OF assms] by simp_all
  then have l: "l < length (lists s)" by (simp add: is_firing_def)
  from assms have lo: "list_all list_ok (lists s)" and dp: "list_all deep ts"
    and cnt: "\<And>m. length (filter (in_list m) (Finish l # ts)) = (if is_firing s m then 1 else 0)"
    by (auto simp: cb_inv_def)
  note fe = fire_end_facts [OF list_ok_at [OF assms l]]
  have "length (filter (in_list m) ts) = (if is_firing (upd l (fst (fire_end (lists s ! l))) s) m then 1 else 0)" for m
    using cnt [of m] top(2) fe l by (simp add: is_firing_upd split: if_splits)
  with lo fe dp l show ?thesis
    by (cases "snd (fire_end (lists s ! l))")
      (simp_all add: cb_inv_def list_ok_upd list_all_tl head_ok_deep is_firing_upd)
qed

lemma cb_inv_step:
  assumes "cb_inv (s, t # ts)"
  shows "\<exists>cfg. cb_step code (s, t # ts) = Inr cfg \<and> cb_inv cfg"
proof (cases t)
  case (Fire l d)
  with cb_inv_Fire assms show ?thesis by simp
next
  case (Do a)
  with cb_inv_Do [of s a ts] assms show ?thesis by (simp add: split_beta)
next
  case (Finish l)
  with cb_inv_Finish assms show ?thesis by (simp add: Let_def)
next
  case (Next l d stop)
  with assms have fi: "is_firing s l" using cb_inv_top(1) [of s t ts l] by simp
  let ?c = "lists s ! l"
  have l: "l < length (lists s)" "firing ?c" using fi by (simp_all add: is_firing_def)
  have lo: "list_ok ?c" using list_ok_at [OF assms l(1)] .
  have "cb_inv (upd l (?c\<lparr>memory := None\<rparr>) s, Finish l # ts)"
    using cb_inv_replace [OF assms, of l "?c\<lparr>memory := None\<rparr>" "Finish l" "[]"] Next lo l by (simp add: list_ok_def eq_commute)
  moreover have "cb_inv (upd l (?c\<lparr>firingIndex := firingIndex ?c + 1\<rparr>) s, Loop l d # ts)"
    using cb_inv_replace [OF assms, of l "?c\<lparr>firingIndex := firingIndex ?c + 1\<rparr>" "Loop l d" "[]"] Next lo l
    by (simp add: list_ok_def eq_commute nth_upd)
  ultimately show ?thesis using Next by (simp add: Let_def)
next
  case (Loop l d)
  with assms have fi: "is_firing s l" using cb_inv_top(1) [of s t ts l] by simp
  let ?c = "lists s ! l"
  have l: "l < length (lists s)" "firing ?c" using fi by (simp_all add: is_firing_def)
  have lo: "list_ok ?c" using list_ok_at [OF assms l(1)] .
  have idx: "0 \<le> firingIndex ?c" using assms Loop by (simp add: cb_inv_def)
  have rep: "cb_inv (upd l ?c s, map Do acts @ t' # ts)"
    if "\<And>m. in_list m t' = (m = l)" "head_ok (upd l ?c s) (map Do acts @ t' # ts)" "acts = [] \<or> deep t'" for acts t'
    using cb_inv_replace [OF assms _ lo l(2) that(1) that(2,3)] Loop by simp
  have same: "upd l ?c s = s" by (simp add: upd_def)
  have fin: "cb_inv (s, Finish l # ts)" using rep [of "Finish l" "[]"] by (simp add: same eq_commute)
  have nxt: "cb_inv (s\<lparr>calls := cl\<rparr>, map Do acts @ Next l d stop # ts)" for cl acts stop
  proof -
    have "cb_inv (s, map Do acts @ Next l d stop # ts)"
      using rep [of "Next l d stop" acts] by (cases acts) (simp_all add: same eq_commute)
    then show ?thesis by (cases acts) (simp_all add: cb_inv_def is_firing_def)
  qed
  show ?thesis
    using Loop fin nxt idx lo l by (auto simp: list_ok_def Let_def split_beta split: option.split)
qed

interpretation cb_machine: invariant cb_start "cb_move code P" cb_inv for code P
proof
  show "cb_inv cfg" if "cb_start cfg" for cfg
    using that by (simp add: cb_start_def cb_inv_def sys0_def is_firing_def)
next
  fix cfg cfg' assume inv: "cb_inv cfg" and move: "cb_move code P cfg cfg'"
  obtain s ts where c: "cfg = (s, ts)" by fastforce
  show "cb_inv cfg'"
  proof (cases ts)
    case Nil
    with inv c have "\<not> is_firing s l" for l by (auto simp: cb_inv_def dest: spec [of _ l] split: if_splits)
    with Nil inv move c show ?thesis by (auto simp: cb_move_def cb_inv_def)
  next
    case (Cons t ts')
    with inv move c cb_inv_step [of s t ts' code] show ?thesis by (auto simp: cb_move_def)
  qed
qed



end
