(* ===== verification/JQuery_Deferred.thy ===== *)
theory JQuery_Deferred
  imports JQuery_Callbacks
begin

text \<open>
  The contract of \<open>jQuery.Deferred\<close>, for pages that use deferreds through their
  methods: a deferred settles at most once, either way but not both; the callbacks of the
  other way never run; and the callbacks of the way it went run exactly once each, in the
  order in which they were added, all with the same value, whether they were added before or
  after. First the life of one of its lists (once, with memory), as an inductive predicate,
  then of the pair of lists and the state.
\<close>

section \<open>The life of a list that fires once and remembers\<close>

fun about :: "nat \<Rightarrow> task \<Rightarrow> bool" where
  "about l (Fire m d) = (m = l)"
| "about l (Loop m d) = (m = l)"
| "about l (Next m d b) = (m = l)"
| "about l (Finish m) = (m = l)"
| "about l (Do a) = False"

text \<open>The part of the call stack that is about a list.\<close>

definition view :: "nat \<Rightarrow> task list \<Rightarrow> task list" where
  "view l ts = filter (about l) ts"

definition om_const :: "callbacks \<Rightarrow> bool" where
  "om_const c \<longleftrightarrow> options c = createOptions ''once memory'' \<and> cb_stack c = None \<and> firingStart c = 0"

text \<open>
  \<open>om_state l c vw T cs\<close>: the list \<open>c\<close> at address \<open>l\<close>, where the call stack
  has \<open>vw\<close> about it, \<open>T\<close> are all the functions it was given so far, and
  \<open>cs\<close> the calls it has made.
\<close>

inductive om_state :: "nat \<Rightarrow> callbacks \<Rightarrow> task list \<Rightarrow> fn list \<Rightarrow> (fn \<times> data) list \<Rightarrow> bool" where
  Disabled: "om_const c \<Longrightarrow> cb_list c = None \<Longrightarrow> \<not> fired c \<Longrightarrow> \<not> firing c \<Longrightarrow> om_state l c [] T []"
| Idle: "om_const c \<Longrightarrow> cb_list c = Some T \<Longrightarrow> \<not> fired c \<Longrightarrow> \<not> firing c \<Longrightarrow> memory c = None \<Longrightarrow>
    vw = [] \<or> vw = [Fire l v] \<Longrightarrow> om_state l c vw T []"
| Looping: "om_const c \<Longrightarrow> cb_list c = Some xs \<Longrightarrow> fired c \<Longrightarrow> firing c \<Longrightarrow> memory c = Some v \<Longrightarrow>
    firingLength c = int (length xs) \<Longrightarrow> firingIndex c = int n \<Longrightarrow> n \<le> length xs \<Longrightarrow>
    om_state l c [Loop l v] (pre @ xs) (map (\<lambda>f. (f, v)) (pre @ take n xs))"
| Calling: "om_const c \<Longrightarrow> cb_list c = Some xs \<Longrightarrow> fired c \<Longrightarrow> firing c \<Longrightarrow> memory c = Some v \<Longrightarrow>
    firingLength c = int (length xs) \<Longrightarrow> firingIndex c = int n \<Longrightarrow> n < length xs \<Longrightarrow>
    om_state l c [Next l v b] (pre @ xs) (map (\<lambda>f. (f, v)) (pre @ take (Suc n) xs))"
| Finishing: "om_const c \<Longrightarrow> cb_list c = Some xs \<Longrightarrow> fired c \<Longrightarrow> firing c \<Longrightarrow> memory c = Some v \<Longrightarrow>
    om_state l c [Finish l] T (map (\<lambda>f. (f, v)) T)"
| Settled: "om_const c \<Longrightarrow> cb_list c = Some xs \<Longrightarrow> fired c \<Longrightarrow> \<not> firing c \<Longrightarrow> memory c = Some v \<Longrightarrow>
    vw = [] \<and> xs = [] \<or> vw = [Fire l v] \<Longrightarrow> om_state l c vw (pre @ xs) (map (\<lambda>f. (f, v)) pre)"

inductive_cases om_nil: "om_state l c [] T cs"
inductive_cases om_fire: "om_state l c [Fire l d] T cs"
inductive_cases om_loop: "om_state l c [Loop l d] T cs"
inductive_cases om_next: "om_state l c [Next l d b] T cs"
inductive_cases om_finish: "om_state l c [Finish l] T cs"

lemma options_once_memory:
  "createOptions ''once memory'' = \<lparr>opt_once = True, opt_memory = True, opt_unique = False, opt_stopOnFalse = False\<rparr>"
  by (simp add: createOptions_def is_space_def Let_def)

lemma foldl_push: "\<not> opt_unique opts \<Longrightarrow> foldl (cb_push opts) xs fns = xs @ fns"
  by (induction fns arbitrary: xs) (simp_all add: cb_push_def)

lemma om_push: "om_const c \<Longrightarrow> foldl (cb_push (options c)) xs fns = xs @ fns"
  by (rule foldl_push) (simp add: om_const_def options_once_memory)

lemma om_set: "om_const (c\<lparr>cb_list := xs\<rparr>) = om_const c"
  by (simp add: om_const_def)

text \<open>What every operation does to such a list.\<close>

definition with_fire :: "nat \<Rightarrow> task list \<Rightarrow> data option \<Rightarrow> task list" where
  "with_fire l vw r = (case r of Some d \<Rightarrow> [Fire l d] | None \<Rightarrow> []) @ vw"

lemma om_add:
  assumes "om_state l c vw T cs" "\<forall>t\<in>set vw. deep t"
  shows "om_state l (fst (cb_add fns c)) (with_fire l vw (snd (cb_add fns c)))
    (T @ (case cb_list c of Some xs \<Rightarrow> fns | None \<Rightarrow> [])) cs"
  using assms
proof cases
  case Disabled
  then show ?thesis by (auto simp: cb_add_def with_fire_def intro!: om_state.Disabled)
next
  case (Idle v)
  then have "vw = []" using assms(2) by auto
  with Idle show ?thesis
    by (auto simp: cb_add_def with_fire_def om_push om_set Let_def intro!: om_state.Idle)
next
  case (Calling xs v n b pre)
  then have "om_state l (c\<lparr>cb_list := Some (xs @ fns), firingLength := int (length (xs @ fns))\<rparr>) [Next l v b]
      (pre @ xs @ fns) (map (\<lambda>f. (f, v)) (pre @ take (Suc n) (xs @ fns)))"
    by (intro om_state.Calling) (auto simp: om_const_def)
  with Calling show ?thesis by (simp add: cb_add_def with_fire_def om_push Let_def)
next
  case (Settled xs v pre)
  then have "xs = []" "vw = []" using assms(2) by auto
  with Settled have "om_state l (c\<lparr>cb_list := Some fns, firingStart := 0\<rparr>) [Fire l v] (pre @ fns) (map (\<lambda>f. (f, v)) pre)"
    by (intro om_state.Settled) (auto simp: om_const_def)
  with Settled \<open>xs = []\<close> \<open>vw = []\<close> show ?thesis by (simp add: cb_add_def with_fire_def om_push Let_def)
qed auto

lemma om_fireWith:
  assumes "om_state l c vw T cs" "\<forall>t\<in>set vw. deep t"
  shows "om_state l (fst (cb_fireWith d c)) (with_fire l vw (snd (cb_fireWith d c))) T cs"
  using assms
proof cases
  case (Idle v)
  then have "vw = []" using assms(2) by auto
  with Idle show ?thesis by (auto simp: cb_fireWith_def with_fire_def intro!: om_state.Idle)
next
  case (Settled xs v pre)
  then have "xs = []" "vw = []" using assms(2) by auto
  with Settled assms(1) show ?thesis by (auto simp: cb_fireWith_def with_fire_def om_const_def)
qed (use assms(1) in \<open>auto simp: cb_fireWith_def with_fire_def om_const_def\<close>)

lemma om_disable: "om_state l c [] T [] \<Longrightarrow> \<not> fired c \<Longrightarrow> om_state l (cb_disable c) [] T []"
  by (erule om_nil) (auto simp: cb_disable_def om_const_def intro!: om_state.Disabled)

lemma om_fire_begin:
  assumes "om_state l c [Fire l d] T cs"
  shows "om_state l (fire_begin d c) [Loop l d] T cs"
proof -
  from assms obtain pre xs where a: "om_const c" "cb_list c = Some xs" "T = pre @ xs" "cs = map (\<lambda>f. (f, d)) pre"
    by (elim om_fire) force+
  then have "om_state l (fire_begin d c) [Loop l d] (pre @ xs) (map (\<lambda>f. (f, d)) (pre @ take 0 xs))"
    by (intro om_state.Looping) (auto simp: fire_begin_def om_const_def options_once_memory)
  with a show ?thesis by simp
qed

lemma om_loop_step:
  assumes "om_state l c [Loop l d] T cs" "cb_list c = Some xs"
  shows "firingIndex c < firingLength c \<Longrightarrow> length cs < length T \<and> xs ! nat (firingIndex c) = T ! length cs
      \<and> om_state l c [Next l d b] T (cs @ [(xs ! nat (firingIndex c), d)])"
    and "\<not> firingIndex c < firingLength c \<Longrightarrow> om_state l c [Finish l] T cs"
proof -
  from assms obtain n pre where c: "om_const c" "fired c" "firing c" "memory c = Some d" "firingLength c = int (length xs)"
    "firingIndex c = int n" "n \<le> length xs" "T = pre @ xs" "cs = map (\<lambda>f. (f, d)) (pre @ take n xs)"
    by (auto elim!: om_loop)
  show "length cs < length T \<and> xs ! nat (firingIndex c) = T ! length cs
      \<and> om_state l c [Next l d b] T (cs @ [(xs ! nat (firingIndex c), d)])" if "firingIndex c < firingLength c"
  proof -
    from that c have n: "n < length xs" by simp
    with c assms(2) have "om_state l c [Next l d b] (pre @ xs) (map (\<lambda>f. (f, d)) (pre @ take (Suc n) xs))"
      by (intro om_state.Calling) auto
    with c n show ?thesis by (simp add: take_Suc_conv_app_nth nth_append)
  qed
  show "om_state l c [Finish l] T cs" if "\<not> firingIndex c < firingLength c"
  proof -
    from that c have cs: "cs = map (\<lambda>f. (f, d)) T" by simp
    show ?thesis unfolding cs using c(1-4) assms(2) by (intro om_state.Finishing)
  qed
qed

lemma om_next_step:
  assumes "om_state l c [Next l d b] T cs"
  shows "om_state l (c\<lparr>firingIndex := firingIndex c + 1\<rparr>) [Loop l d] T cs"
proof -
  from assms obtain xs n pre where a: "om_const c" "cb_list c = Some xs" "fired c" "firing c" "memory c = Some d"
    "firingLength c = int (length xs)" "firingIndex c = int n" "n < length xs"
    "T = pre @ xs" "cs = map (\<lambda>f. (f, d)) (pre @ take (Suc n) xs)"
    by (elim om_next) force+
  show ?thesis unfolding a(9,10) by (rule om_state.Looping) (use a in \<open>auto simp: om_const_def\<close>)
qed

lemma om_finish_step:
  assumes "om_state l c [Finish l] T cs"
  shows "om_state l (fst (fire_end c)) [] T cs" "snd (fire_end c) = None"
proof -
  from assms obtain xs v where a: "om_const c" "cb_list c = Some xs" "fired c" "firing c" "memory c = Some v" "cs = map (\<lambda>f. (f, v)) T"
    by (auto elim: om_finish)
  then have "om_state l (fst (fire_end c)) [] (T @ []) (map (\<lambda>f. (f, v)) T)"
    by (intro om_state.Settled) (auto simp: fire_end_def om_const_def Let_def)
  with a show "om_state l (fst (fire_end c)) [] T cs" "snd (fire_end c) = None"
    by (simp_all add: fire_end_def om_const_def Let_def)
qed

text \<open>What the states of a list have in common.\<close>

lemma om_single: "om_state l c (t # vs) T cs \<Longrightarrow> vs = []"
  by (auto elim: om_state.cases)

lemma om_options: "om_state l c vw T cs \<Longrightarrow> options c = createOptions ''once memory''"
  by (auto elim: om_state.cases simp: om_const_def)

lemma om_off: "om_state l c vw T cs \<Longrightarrow> cb_list c = None \<Longrightarrow> cs = [] \<and> \<not> fired c \<and> vw = []"
  by (auto elim: om_state.cases)

lemma om_unfired: "om_state l c vw T cs \<Longrightarrow> \<not> fired c \<Longrightarrow> cs = []"
  by (auto elim: om_state.cases)

lemma om_fired: "om_state l c vw T cs \<Longrightarrow> fired c \<Longrightarrow> cb_list c \<noteq> None"
  by (auto elim: om_state.cases)

lemma om_in_loop: "om_state l c (t # vs) T cs \<Longrightarrow> in_list l t \<Longrightarrow> fired c"
  by (auto elim: om_state.cases)

lemma om_calls:
  assumes "om_state l c vw T cs"
  shows "\<exists>v. cs = map (\<lambda>f. (f, v)) (take (length cs) T)"
  using assms
proof cases
  case (Looping xs v n pre)
  then show ?thesis by (intro exI [of _ v]) (simp add: min_def)
next
  case (Calling xs v n b pre)
  then show ?thesis by (intro exI [of _ v]) (simp add: min_def)
qed auto

lemma om_quiet: "om_state l c [] T cs \<Longrightarrow> fired c \<Longrightarrow> \<exists>v. memory c = Some v \<and> cs = map (\<lambda>f. (f, v)) T"
  by (auto elim: om_nil)

section \<open>The two ways of a deferred\<close>

text \<open>
  The list for \<open>done\<close> (\<open>True\<close>) or \<open>fail\<close> (\<open>False\<close>) of the deferred
  \<open>d\<close>, the state it leads to, and the functions it has from the start.
\<close>

definition side :: "nat \<Rightarrow> bool \<Rightarrow> nat" where
  "side d b = (if b then d else d + 1)"

definition way :: "bool \<Rightarrow> string" where
  "way b = (if b then ''resolved'' else ''rejected'')"

definition builtins :: "nat \<Rightarrow> bool \<Rightarrow> fn list" where
  "builtins d b = [SetState d (way b), DisableFn (side d (\<not> b)), LockFn (d + 2)]"

lemma length_builtins [simp]: "length (builtins d b) = 3"
  by (simp add: builtins_def)

definition added :: "sys \<Rightarrow> nat \<Rightarrow> fn list" where
  "added s l = map snd (filter (\<lambda>p. fst p = l) (adds s))"

definition called :: "sys \<Rightarrow> nat \<Rightarrow> (fn \<times> data) list" where
  "called s l = map snd (filter (\<lambda>p. fst p = l) (calls s))"

definition is_deferred :: "sys \<Rightarrow> nat \<Rightarrow> bool" where
  "is_deferred s d \<longleftrightarrow> dstate s d \<noteq> []"

definition way_inv :: "sys \<Rightarrow> task list \<Rightarrow> nat \<Rightarrow> bool \<Rightarrow> bool" where
  "way_inv s ts d b \<longleftrightarrow> om_state (side d b) (lists s ! side d b) (view (side d b) ts)
     (builtins d b @ added s (side d b)) (called s (side d b))"

definition open_way :: "sys \<Rightarrow> nat \<Rightarrow> bool \<Rightarrow> bool" where
  "open_way s d b \<longleftrightarrow> cb_list (lists s ! side d b) \<noteq> None \<and> \<not> fired (lists s ! side d b)"

definition closed_way :: "sys \<Rightarrow> nat \<Rightarrow> bool \<Rightarrow> bool" where
  "closed_way s d b \<longleftrightarrow> cb_list (lists s ! side d b) = None"

definition at_list :: "nat \<Rightarrow> task list \<Rightarrow> bool" where
  "at_list l ts \<longleftrightarrow> (\<exists>t ts'. ts = t # ts' \<and> in_list l t \<and> t \<noteq> Finish l)"

definition calling :: "act \<Rightarrow> nat \<Rightarrow> task list \<Rightarrow> bool" where
  "calling a l ts \<longleftrightarrow> (\<exists>v b ts'. ts = Do a # Next l v b # ts')"

text \<open>
  While the first three functions run the call stack shows how far they are; nothing else can
  run in between.
\<close>

definition pending :: "sys \<Rightarrow> nat \<Rightarrow> bool" where
  "pending s d \<longleftrightarrow> open_way s d True \<and> open_way s d False \<and> dstate s d = ''pending''"

definition settling :: "sys \<Rightarrow> task list \<Rightarrow> nat \<Rightarrow> bool \<Rightarrow> bool" where
  "settling s ts d b \<longleftrightarrow> fired (lists s ! side d b) \<and> (let n = length (called s (side d b)) in
     open_way s d (\<not> b) \<and> dstate s d = ''pending'' \<and> (n = 0 \<and> at_list (side d b) ts \<or> n = 1 \<and> calling (SetSt d (way b)) (side d b) ts)
   \<or> open_way s d (\<not> b) \<and> dstate s d = way b \<and>
       (n = 1 \<and> at_list (side d b) ts \<or> n = 2 \<and> calling (Disable (side d (\<not> b))) (side d b) ts)
   \<or> closed_way s d (\<not> b) \<and> dstate s d = way b \<and> n = 2 \<and> at_list (side d b) ts)"

definition settled :: "sys \<Rightarrow> nat \<Rightarrow> bool \<Rightarrow> bool" where
  "settled s d b \<longleftrightarrow> fired (lists s ! side d b) \<and> closed_way s d (\<not> b) \<and> dstate s d = way b
     \<and> 3 \<le> length (called s (side d b))"

definition pair_inv :: "sys \<Rightarrow> task list \<Rightarrow> nat \<Rightarrow> bool" where
  "pair_inv s ts d \<longleftrightarrow> (\<forall>b. way_inv s ts d b)
     \<and> (pending s d \<or> (\<exists>b. settling s ts d b) \<or> (\<exists>b. settled s d b))"

text \<open>What a page may do: everything but to take the lists of a deferred apart.\<close>

fun user_fn :: "fn \<Rightarrow> bool" where
  "user_fn (SetState d st) = False"
| "user_fn (DisableFn l) = False"
| "user_fn (LockFn l) = False"
| "user_fn f = True"

fun pub :: "act \<Rightarrow> bool" where
  "pub (Add l fns) = list_all user_fn fns"
| "pub (Remove l fns) = False"
| "pub (Empty l) = False"
| "pub (Disable l) = False"
| "pub (Lock l) = False"
| "pub (SetSt d st) = False"
| "pub a = True"

definition good_code :: "code \<Rightarrow> bool" where
  "good_code code \<longleftrightarrow> (\<forall>u d. list_all pub (fst (code u d)))"

text \<open>A call of the page, or the one that a builtin function of a deferred makes.\<close>

definition priv_ok :: "sys \<Rightarrow> act \<Rightarrow> bool" where
  "priv_ok s a \<longleftrightarrow> (\<exists>d b. is_deferred s d \<and> fired (lists s ! side d b) \<and> (
     a = SetSt d (way b) \<and> length (called s (side d b)) = 1
   \<or> a = Disable (side d (\<not> b)) \<and> length (called s (side d b)) = 2
   \<or> a = Lock (d + 2) \<and> length (called s (side d b)) = 3))"

fun pub_task :: "task \<Rightarrow> bool" where
  "pub_task (Do a) = pub a"
| "pub_task t = True"

definition stack_ok :: "sys \<Rightarrow> task list \<Rightarrow> bool" where
  "stack_ok s ts \<longleftrightarrow> list_all pub_task (tl ts) \<and> (case ts of Do a # ts' \<Rightarrow> pub a \<or> priv_ok s a | _ \<Rightarrow> True)"

definition store_ok :: "sys \<Rightarrow> bool" where
  "store_ok s \<longleftrightarrow> (\<forall>d. is_deferred s d \<longrightarrow> d + 2 < length (lists s))
     \<and> (\<forall>d d'. is_deferred s d \<longrightarrow> is_deferred s d' \<longrightarrow> d < d' \<longrightarrow> d + 3 \<le> d')
     \<and> (\<forall>l f. (l, f) \<in> set (adds s) \<longrightarrow> l < length (lists s) \<and> user_fn f)
     \<and> (\<forall>l x. (l, x) \<in> set (calls s) \<longrightarrow> l < length (lists s))
     \<and> (\<forall>l < length (lists s). (\<forall>d b. is_deferred s d \<longrightarrow> l \<noteq> side d b) \<longrightarrow>
          (\<forall>xs. cb_list (lists s ! l) = Some xs \<longrightarrow> list_all user_fn xs))"

definition deferred_inv :: "config \<Rightarrow> bool" where
  "deferred_inv = (\<lambda>(s, ts). store_ok s \<and> stack_ok s ts \<and> (\<forall>d. is_deferred s d \<longrightarrow> pair_inv s ts d))"

section \<open>Shared facts\<close>

lemma side_other [simp]: "side d (\<not> b) \<noteq> side d b" "side d b \<noteq> side d (\<not> b)" "side d b \<noteq> d + 2" "d + 2 \<noteq> side d b"
  by (simp_all add: side_def)

lemma side_inj:
  assumes "store_ok s" "is_deferred s d" "is_deferred s d'" "side d b = side d' b'"
  shows "d' = d \<and> b' = b"
proof -
  have "d + 3 \<le> d'" if "d < d'" using assms(1-3) that by (auto simp: store_ok_def)
  moreover have "d' + 3 \<le> d" if "d' < d" using assms(1-3) that by (auto simp: store_ok_def)
  ultimately have "d' = d" using assms(4) by (cases d d' rule: linorder_cases) (auto simp: side_def split: if_splits)
  with assms(4) show ?thesis by (auto simp: side_def split: if_splits)
qed

lemma side_progress:
  assumes "store_ok s" "is_deferred s d" "is_deferred s d'"
  shows "d + 2 \<noteq> side d' b"
proof -
  have "d + 3 \<le> d'" if "d < d'" using assms(1-3) that by (auto simp: store_ok_def)
  moreover have "d' + 3 \<le> d" if "d' < d" using assms(1-3) that by (auto simp: store_ok_def)
  ultimately show ?thesis by (cases d d' rule: linorder_cases) (auto simp: side_def split: if_splits)
qed

lemma side_less: "store_ok s \<Longrightarrow> is_deferred s d \<Longrightarrow> side d b < length (lists s)"
  by (auto simp: store_ok_def side_def)

lemma view_Cons [simp]: "view l (t # ts) = (if about l t then t # view l ts else view l ts)"
  by (simp add: view_def)

lemma view_append [simp]: "view l (ts @ ts') = view l ts @ view l ts'"
  by (simp add: view_def)

lemma view_Do [simp]: "view l (map Do acts) = []"
  by (induction acts) (simp_all add: view_def)

lemma view_deep: "list_all deep ts \<Longrightarrow> \<forall>t\<in>set (view l ts). deep t"
  by (auto simp: view_def list_all_iff)

lemma view_Nil [simp]: "view l [] = []"
  by (simp add: view_def)

lemma in_about: "in_list l t \<Longrightarrow> about l t"
  by (cases t) auto

lemma upd_fields [simp]: "adds (upd l c s) = adds s" "calls (upd l c s) = calls s" "dstate (upd l c s) = dstate s"
  by (simp_all add: upd_def)

lemma nth_upd_other [simp]: "m \<noteq> l \<Longrightarrow> lists (upd l c s) ! m = lists s ! m"
  by (simp add: upd_def)

lemma hist_upd [simp]: "added (upd l c s) = added s" "called (upd l c s) = called s"
  by (auto simp: added_def called_def)

lemma is_deferred_cong: "dstate s' = dstate s \<Longrightarrow> is_deferred s' = is_deferred s"
  by (auto simp: is_deferred_def)

lemma called_snoc:
  "called (s\<lparr>calls := calls s @ [(l, f, v)]\<rparr>) m = (if m = l then called s l @ [(f, v)] else called s m)"
  by (simp add: called_def)

lemma way_not_pending [simp]: "way b \<noteq> ''pending''" "''pending'' \<noteq> way b" "way b \<noteq> []"
  by (simp_all add: way_def)

lemma settling_busy:
  assumes "settling s (t # ts) d b"
  shows "in_list (side d b) t \<or> t = Do (SetSt d (way b)) \<or> t = Do (Disable (side d (\<not> b)))"
  using assms by (auto simp: settling_def at_list_def calling_def Let_def)

text \<open>A step that is not about a deferred leaves it alone.\<close>

lemma phase_cong:
  assumes "\<And>b. lists s' ! side d b = lists s ! side d b" "\<And>b. called s' (side d b) = called s (side d b)" "dstate s' d = dstate s d"
  shows "pending s' d = pending s d" "settled s' d b = settled s d b"
  using assms by (simp_all add: pending_def settled_def open_way_def closed_way_def)

lemma pair_frame:
  assumes inv: "pair_inv s (t # ts) d"
    and t: "\<And>b. \<not> about (side d b) t" "\<And>b. t \<noteq> Do (SetSt d (way b))" "\<And>b. t \<noteq> Do (Disable (side d b))"
    and l: "\<And>b. lists s' ! side d b = lists s ! side d b" "\<And>b. view (side d b) ts' = view (side d b) ts"
    and h: "\<And>b. added s' (side d b) = added s (side d b)" "\<And>b. called s' (side d b) = called s (side d b)" "dstate s' d = dstate s d"
  shows "pair_inv s' ts' d"
proof -
  from t have "\<not> settling s (t # ts) d b" for b using settling_busy in_about by blast
  with inv have "pending s d \<or> (\<exists>b. settled s d b)" by (simp add: pair_inv_def)
  moreover have "way_inv s' ts' d b" for b using inv t l h by (simp add: pair_inv_def way_inv_def)
  ultimately show ?thesis using phase_cong [of s' d s] l h by (auto simp: pair_inv_def)
qed

lemma way_frame:
  assumes "way_inv s ts d b" "lists s' ! side d b = lists s ! side d b" "view (side d b) ts' = view (side d b) ts"
    "added s' (side d b) = added s (side d b)" "called s' (side d b) = called s (side d b)"
  shows "way_inv s' ts' d b"
  using assms by (simp add: way_inv_def)

lemma pair_inv_cases:
  assumes "pair_inv s ts d"
  obtains (pending) "pending s d" | (settling) b where "settling s ts d b" | (settled) b where "settled s d b"
  using assms by (auto simp: pair_inv_def)

lemma pair_way: "pair_inv s ts d \<Longrightarrow> way_inv s ts d b"
  by (simp add: pair_inv_def)

lemma pair_invI:
  assumes "way_inv s ts d b" "way_inv s ts d (\<not> b)" "pending s d \<or> (\<exists>b. settling s ts d b) \<or> (\<exists>b. settled s d b)"
  shows "pair_inv s ts d"
proof -
  have "way_inv s ts d b'" for b' using assms(1,2) by (cases "b' = b") auto
  with assms(3) show ?thesis by (simp add: pair_inv_def)
qed

section \<open>Steps of the lists of a deferred\<close>

text \<open>How far a deferred is that runs one of its lists.\<close>

definition progress_at :: "sys \<Rightarrow> nat \<Rightarrow> bool \<Rightarrow> nat \<Rightarrow> bool" where
  "progress_at s d b n \<longleftrightarrow> fired (lists s ! side d b) \<and>
     (if n \<le> 1 then open_way s d (\<not> b) else closed_way s d (\<not> b)) \<and> dstate s d = (if n = 0 then ''pending'' else way b)"

lemma closed_unfired: "pair_inv s ts d \<Longrightarrow> closed_way s d b \<Longrightarrow> \<not> fired (lists s ! side d b) \<and> view (side d b) ts = []"
  using om_off pair_way [of s ts d b] by (auto simp: way_inv_def closed_way_def)

lemma fired_way:
  assumes "pair_inv s ts d" "fired (lists s ! side d b)"
  shows "settling s ts d b \<or> settled s d b"
  using assms(1)
proof (cases rule: pair_inv_cases)
  case pending
  with assms(2) show ?thesis by (cases b) (auto simp: pending_def open_way_def)
next
  case (settling b')
  then have "\<not> fired (lists s ! side d (\<not> b'))"
    using closed_unfired [OF assms(1)] by (auto simp: settling_def open_way_def Let_def)
  with assms(2) have "b' = b" by (cases b; cases b') auto
  with settling show ?thesis by simp
next
  case (settled b')
  then have "\<not> fired (lists s ! side d (\<not> b'))" using closed_unfired [OF assms(1)] by (auto simp: settled_def)
  with assms(2) have "b' = b" by (cases b; cases b') auto
  with settled show ?thesis by simp
qed

lemma unfired_way:
  assumes "pair_inv s ts d" "open_way s d b" "\<And>b. \<not> settling s ts d b"
  shows "pending s d"
  using assms(1)
proof (cases rule: pair_inv_cases)
  case (settled b')
  with assms(2) show ?thesis by (cases b; cases b') (auto simp: settled_def open_way_def closed_way_def)
qed (use assms(3) in auto)

lemma at_progress:
  assumes "pair_inv s (t # ts) d" "in_list (side d b) t" "t \<noteq> Finish (side d b)"
  shows "progress_at s d b (length (called s (side d b)))"
proof -
  have "about (side d b) t" using assms(2) by (rule in_about)
  with pair_way [OF assms(1), of b] assms(2) have "fired (lists s ! side d b)" by (auto simp: way_inv_def intro: om_in_loop)
  moreover from fired_way [OF assms(1) this] have "settling s (t # ts) d b \<or> settled s d b" .
  moreover have "\<not> calling a (side d b) (t # ts)" for a using assms(2) by (auto simp: calling_def)
  ultimately show ?thesis by (auto simp: settling_def settled_def progress_at_def Let_def)
qed

lemma progress_at_list:
  assumes "progress_at s d b (length (called s (side d b)))" "at_list (side d b) ts"
  shows "settling s ts d b \<or> settled s d b"
proof -
  consider "length (called s (side d b)) = 0" | "length (called s (side d b)) = 1" | "length (called s (side d b)) = 2"
    | "3 \<le> length (called s (side d b))" by linarith
  then show ?thesis using assms by cases (auto simp: progress_at_def settling_def settled_def)
qed

lemma pair_Fire:
  assumes inv: "pair_inv s (Fire l v # ts) d" and l: "l = side d b" "l < length (lists s)"
  shows "pair_inv (upd l (fire_begin v (lists s ! l)) s) (Loop l v # ts) d"
proof (rule pair_invI)
  let ?s = "upd l (fire_begin v (lists s ! l)) s" and ?ts = "Loop l v # ts"
  have om: "om_state l (lists s ! l) (Fire l v # view l ts) (builtins d b @ added s l) (called s l)"
    using pair_way [OF inv, of b] l by (simp add: way_inv_def)
  then have vw: "view l ts = []" by (rule om_single)
  show "way_inv ?s ?ts d b" using om_fire_begin om vw l by (simp add: way_inv_def nth_upd)
  show "way_inv ?s ?ts d (\<not> b)"
    using pair_way [OF inv] by (rule way_frame) (simp_all add: l(1))
  have nset: "\<not> settling s (Fire l v # ts) d b'" for b' using settling_busy [of s "Fire l v" ts d b'] by auto
  have fl: "fired (fire_begin v (lists s ! l))" "cb_list (fire_begin v (lists s ! l)) = cb_list (lists s ! l)"
    by (simp_all add: fire_begin_def)
  have on: "cb_list (lists s ! l) \<noteq> None" using om_off [OF om] by auto
  show "pending ?s d \<or> (\<exists>b. settling ?s ?ts d b) \<or> (\<exists>b. settled ?s d b)"
  proof (cases "fired (lists s ! l)")
    case True
    then have "settled s d b" using fired_way [OF inv] nset l by auto
    then have "settled ?s d b" using l fl by (auto simp: settled_def closed_way_def nth_upd)
    then show ?thesis by blast
  next
    case False
    then have "pending s d" using unfired_way [OF inv, of b] nset on l by (auto simp: open_way_def)
    moreover have "called s l = []" using om_unfired [OF om False] .
    moreover have "open_way s d (\<not> b)" "dstate s d = ''pending''" using \<open>pending s d\<close> by (cases b; simp add: pending_def)+
    ultimately have "settling ?s ?ts d b"
      using l fl by (auto simp: settling_def open_way_def nth_upd at_list_def Let_def)
    then show ?thesis by blast
  qed
qed

lemma pair_Next:
  assumes inv: "pair_inv s (Next l v stop # ts) d" and l: "l = side d b" "l < length (lists s)"
  defines "c \<equiv> lists s ! l"
  shows "pair_inv (upd l (c\<lparr>firingIndex := firingIndex c + 1\<rparr>) s) (Loop l v # ts) d"
    and "\<not> opt_stopOnFalse (options c)"
proof -
  let ?s = "upd l (c\<lparr>firingIndex := firingIndex c + 1\<rparr>) s" and ?ts = "Loop l v # ts"
  have om: "om_state l c (Next l v stop # view l ts) (builtins d b @ added s l) (called s l)"
    using pair_way [OF inv, of b] l by (simp add: way_inv_def c_def)
  then have vw: "view l ts = []" by (rule om_single)
  show "\<not> opt_stopOnFalse (options c)" using om_options [OF om] by (simp add: options_once_memory)
  show "pair_inv ?s ?ts d"
  proof (rule pair_invI)
    show "way_inv ?s ?ts d b" using om_next_step om vw l by (simp add: way_inv_def nth_upd)
    show "way_inv ?s ?ts d (\<not> b)"
      using pair_way [OF inv] by (rule way_frame) (simp_all add: l(1))
    have "progress_at s d b (length (called s l))" using at_progress [OF inv] l by simp
    then have "progress_at ?s d b (length (called ?s l))"
      using l by (auto simp: progress_at_def open_way_def closed_way_def nth_upd c_def)
    then show "pending ?s d \<or> (\<exists>b. settling ?s ?ts d b) \<or> (\<exists>b. settled ?s d b)"
      using progress_at_list [of ?s d b ?ts] l by (auto simp: at_list_def)
  qed
qed

lemma pair_Finish:
  assumes inv: "pair_inv s (Finish l # ts) d" and l: "l = side d b" "l < length (lists s)"
  shows "pair_inv (upd l (fst (fire_end (lists s ! l))) s) ts d" "snd (fire_end (lists s ! l)) = None"
proof -
  let ?c = "fst (fire_end (lists s ! l))" let ?s = "upd l ?c s"
  have om: "om_state l (lists s ! l) (Finish l # view l ts) (builtins d b @ added s l) (called s l)"
    using pair_way [OF inv, of b] l by (simp add: way_inv_def)
  then have vw: "view l ts = []" by (rule om_single)
  show "snd (fire_end (lists s ! l)) = None" using om_finish_step(2) om vw by simp
  have "fired (lists s ! l)" using om_in_loop [OF om] by simp
  moreover have "\<not> settling s (Finish l # ts) d b" using l by (auto simp: settling_def at_list_def calling_def Let_def)
  ultimately have "settled s d b" using fired_way [OF inv] l by auto
  moreover have "fired ?c" using \<open>fired (lists s ! l)\<close>
    by (auto simp: fire_end_def cb_disable_def Let_def split: option.split list.split)
  ultimately have "settled ?s d b" using l by (auto simp: settled_def closed_way_def nth_upd)
  then show "pair_inv ?s ts d"
  proof (intro pair_invI)
    show "way_inv ?s ts d b" using om_finish_step(1) om vw l by (simp add: way_inv_def nth_upd)
    show "way_inv ?s ts d (\<not> b)"
      using pair_way [OF inv] by (rule way_frame) (simp_all add: l(1))
  qed blast
qed

lemma builtin_body:
  assumes "T = builtins d b @ fs"
  shows "body code (T ! 0) v = ([SetSt d (way b)], False)"
    "body code (T ! 1) v = ([Disable (side d (\<not> b))], False)"
    "body code (T ! 2) v = ([Lock (d + 2)], False)"
  using assms by (simp_all add: builtins_def)

lemma pair_call:
  assumes inv: "pair_inv s (Loop l v # ts) d" and l: "l = side d b"
    and xs: "cb_list (lists s ! l) = Some xs" "firingIndex (lists s ! l) < firingLength (lists s ! l)"
  defines "f \<equiv> xs ! nat (firingIndex (lists s ! l))" and "n \<equiv> length (called s l)" and "T \<equiv> builtins d b @ added s l"
  assumes body: "body code f v = (acts, stop)"
  shows "n < length T \<and> f = T ! n"
    and "pair_inv (s\<lparr>calls := calls s @ [(l, f, v)]\<rparr>) (map Do acts @ Next l v stop # ts) d"
proof -
  let ?s = "s\<lparr>calls := calls s @ [(l, f, v)]\<rparr>" and ?ts = "map Do acts @ Next l v stop # ts"
  have om: "om_state l (lists s ! l) (Loop l v # view l ts) T (called s l)"
    using pair_way [OF inv, of b] l by (simp add: way_inv_def T_def)
  then have vw: "view l ts = []" by (rule om_single)
  note st = om_loop_step(1) [OF om [unfolded vw] xs(1) xs(2), of stop]
  show nf: "n < length T \<and> f = T ! n" using st by (simp add: f_def n_def)
  have om': "om_state l (lists s ! l) [Next l v stop] T (called s l @ [(f, v)])"
    using st unfolding f_def by blast
  have n: "length (called ?s l) = Suc n" by (simp add: called_snoc n_def)
  have prog: "progress_at s d b n" using at_progress [OF inv] l by (simp add: n_def)
  show "pair_inv ?s ?ts d"
  proof (rule pair_invI)
    show "way_inv ?s ?ts d b"
      using om' vw l by (simp add: way_inv_def called_snoc T_def added_def)
    show "way_inv ?s ?ts d (\<not> b)"
      using pair_way [OF inv] by (rule way_frame) (simp_all add: called_snoc added_def l)
    consider "n = 0" | "n = 1" | "2 \<le> n" by linarith
    then show "pending ?s d \<or> (\<exists>b. settling ?s ?ts d b) \<or> (\<exists>b. settled ?s d b)"
    proof cases
      case 1
      with body nf builtin_body(1) [OF T_def [THEN meta_eq_to_obj_eq]] have "acts = [SetSt d (way b)]" by simp
      with 1 prog n l have "settling ?s ?ts d b"
        by (auto simp: settling_def progress_at_def open_way_def calling_def Let_def)
      then show ?thesis by blast
    next
      case 2
      with body nf builtin_body(2) [OF T_def [THEN meta_eq_to_obj_eq]] have "acts = [Disable (side d (\<not> b))]" by simp
      with 2 prog n l have "settling ?s ?ts d b"
        by (auto simp: settling_def progress_at_def open_way_def calling_def Let_def)
      then show ?thesis by blast
    next
      case 3
      with prog n l have "settled ?s d b" by (auto simp: settled_def progress_at_def closed_way_def)
      then show ?thesis by blast
    qed
  qed
qed

lemma pair_last:
  assumes inv: "pair_inv s (Loop l v # ts) d" and l: "l = side d b"
    and xs: "cb_list (lists s ! l) = Some xs" "\<not> firingIndex (lists s ! l) < firingLength (lists s ! l)"
  shows "pair_inv s (Finish l # ts) d"
proof (rule pair_invI)
  have om: "om_state l (lists s ! l) (Loop l v # view l ts) (builtins d b @ added s l) (called s l)"
    using pair_way [OF inv, of b] l by (simp add: way_inv_def)
  then have vw: "view l ts = []" by (rule om_single)
  note fin = om_loop_step(2) [OF om [unfolded vw] xs]
  then show "way_inv s (Finish l # ts) d b" using vw l by (simp add: way_inv_def)
  show "way_inv s (Finish l # ts) d (\<not> b)" using pair_way [OF inv, of "\<not> b"] l by (simp add: way_inv_def)
  have "3 \<le> length (called s l)" using fin by (elim om_finish) (auto simp: builtins_def)
  moreover have "progress_at s d b (length (called s l))" using at_progress [OF inv] l by simp
  ultimately have "settled s d b" using l by (auto simp: progress_at_def settled_def)
  then show "pending s d \<or> (\<exists>b. settling s (Finish l # ts) d b) \<or> (\<exists>b. settled s d b)" by blast
qed

text \<open>The calls that the builtin functions make.\<close>

lemma busy_Do:
  assumes "pair_inv s (Do a # ts) d" "fired (lists s ! side d b)" "length (called s (side d b)) = n" "n < 3"
  shows "(n = 1 \<and> calling (SetSt d (way b)) (side d b) (Do a # ts) \<and> open_way s d (\<not> b)
     \<or> n = 2 \<and> calling (Disable (side d (\<not> b))) (side d b) (Do a # ts) \<and> dstate s d = way b)
     \<and> open_way s d (\<not> b)"
  using fired_way [OF assms(1,2)] assms(3,4) by (auto simp: settling_def settled_def at_list_def Let_def)

lemma pair_SetSt:
  assumes inv: "pair_inv s (Do (SetSt d (way b)) # ts) d" "fired (lists s ! side d b)" "length (called s (side d b)) = 1"
  shows "pair_inv (s\<lparr>dstate := (dstate s)(d := way b)\<rparr>) ts d"
proof (rule pair_invI)
  let ?s = "s\<lparr>dstate := (dstate s)(d := way b)\<rparr>"
  show "way_inv ?s ts d b" "way_inv ?s ts d (\<not> b)"
    by (rule way_frame [OF pair_way [OF inv(1)]]; simp add: added_def called_def)+
  from busy_Do [OF inv(1,2,3)] have "at_list (side d b) ts" "open_way s d (\<not> b)"
    by (auto simp: calling_def at_list_def)
  with inv(2,3) have "settling ?s ts d b" by (simp add: settling_def open_way_def called_def)
  then show "pending ?s d \<or> (\<exists>b. settling ?s ts d b) \<or> (\<exists>b. settled ?s d b)" by blast
qed

lemma pair_Disable:
  assumes inv: "pair_inv s (Do (Disable (side d (\<not> b))) # ts) d" "fired (lists s ! side d b)" "length (called s (side d b)) = 2"
    and m: "side d (\<not> b) < length (lists s)" "list_all deep ts"
  shows "pair_inv (upd (side d (\<not> b)) (cb_disable (lists s ! side d (\<not> b))) s) ts d"
proof (rule pair_invI)
  let ?m = "side d (\<not> b)" let ?s = "upd ?m (cb_disable (lists s ! ?m)) s"
  show "way_inv ?s ts d b" by (rule way_frame [OF pair_way [OF inv(1)]]) simp_all
  from busy_Do [OF inv(1,2,3)] have b: "at_list (side d b) ts" "open_way s d (\<not> b)" "dstate s d = way b"
    by (auto simp: calling_def at_list_def)
  have om: "om_state ?m (lists s ! ?m) (view ?m ts) (builtins d (\<not> b) @ added s ?m) (called s ?m)"
    using pair_way [OF inv(1), of "\<not> b"] by (simp add: way_inv_def)
  have uf: "\<not> fired (lists s ! ?m)" using b(2) by (simp add: open_way_def)
  have "\<forall>t\<in>set (view ?m ts). deep t" using m(2) by (rule view_deep)
  with om uf have "view ?m ts = []" by cases auto
  moreover have "called s ?m = []" using om_unfired [OF om uf] .
  ultimately show "way_inv ?s ts d (\<not> b)" using om_disable [of ?m "lists s ! ?m"] om uf m(1)
    by (simp add: way_inv_def nth_upd)
  have "settling ?s ts d b"
    using b inv(2,3) m(1) by (simp add: settling_def closed_way_def nth_upd cb_disable_def)
  then show "pending ?s d \<or> (\<exists>b. settling ?s ts d b) \<or> (\<exists>b. settled ?s d b)" by blast
qed

text \<open>The calls of the page.\<close>

definition keeps_ways :: "callbacks \<Rightarrow> callbacks \<Rightarrow> bool" where
  "keeps_ways c c' \<longleftrightarrow> fired c' = fired c \<and> (cb_list c' = None) = (cb_list c = None)"

lemma keeps_add: "keeps_ways c (fst (cb_add fns c))"
  by (auto simp: keeps_ways_def cb_add_def Let_def split: option.split)

lemma keeps_fireWith: "keeps_ways c (fst (cb_fireWith d c))"
  by (simp add: keeps_ways_def cb_fireWith_def)

lemma pair_op:
  assumes inv: "pair_inv s (Do a # ts) d" "pub a" and l: "l = side d b" "l < length (lists s)"
    and k: "keeps_ways (lists s ! l) c" and L: "lists s' = (lists s)[l := c]"
    and om: "om_state l c (view l ts') (builtins d b @ added s' l) (called s l)"
    and f: "called s' = called s" "dstate s' = dstate s" "\<And>m. m \<noteq> l \<Longrightarrow> added s' m = added s m" "\<And>m. m \<noteq> l \<Longrightarrow> view m ts' = view m ts"
  shows "pair_inv s' ts' d"
proof (rule pair_invI)
  show "way_inv s' ts' d b" using om l L f(1) by (simp add: way_inv_def)
  show "way_inv s' ts' d (\<not> b)" by (rule way_frame [OF pair_way [OF inv(1)]]) (simp_all add: l L f)
  have "\<not> settling s (Do a # ts) d b'" for b' using settling_busy [of s "Do a" ts d b'] inv(2) by auto
  with inv(1) have "pending s d \<or> (\<exists>b. settled s d b)" by (auto simp: pair_inv_def)
  moreover have "fired (lists s' ! m) = fired (lists s ! m)" "(cb_list (lists s' ! m) = None) = (cb_list (lists s ! m) = None)" for m
    using k l(2) by (cases "m = l"; simp add: L keeps_ways_def)+
  ultimately show "pending s' d \<or> (\<exists>b. settling s' ts' d b) \<or> (\<exists>b. settled s' d b)"
    using f by (auto simp: pending_def settled_def open_way_def closed_way_def)
qed

section \<open>Every step keeps the invariant\<close>

lemma stack_ok_pub: "list_all pub_task ts \<Longrightarrow> stack_ok s ts"
  by (cases ts) (auto simp: stack_ok_def split: task.splits)

lemma stack_ok_tl: "stack_ok s (t # ts) \<Longrightarrow> list_all pub_task ts"
  by (simp add: stack_ok_def)

lemma pub_task_Do [simp]: "list_all pub_task (map Do acts) = list_all pub acts"
  by (induction acts) auto

definition keeps_user :: "callbacks \<Rightarrow> callbacks \<Rightarrow> bool" where
  "keeps_user c c' \<longleftrightarrow> ((\<forall>xs. cb_list c = Some xs \<longrightarrow> list_all user_fn xs) \<longrightarrow> (\<forall>xs. cb_list c' = Some xs \<longrightarrow> list_all user_fn xs))"

lemma store_ok_step:
  assumes ok: "store_ok s" and L: "lists s' = (lists s)[l := c]" and k: "keeps_user (lists s ! l) c"
    and D: "is_deferred s' = is_deferred s"
    and h: "set (adds s') \<subseteq> set (adds s) \<union> {(m, f). m < length (lists s) \<and> user_fn f}"
      "set (calls s') \<subseteq> set (calls s) \<union> {(m, x). m < length (lists s)}"
  shows "store_ok s'"
proof -
  have user: "list_all user_fn xs" if "m < length (lists s)" "\<forall>d b. is_deferred s d \<longrightarrow> m \<noteq> side d b" "cb_list (lists s' ! m) = Some xs" for m xs
  proof (cases "m = l")
    case True
    then have "\<forall>xs. cb_list (lists s ! l) = Some xs \<longrightarrow> list_all user_fn xs" using ok that(1,2) unfolding store_ok_def by blast
    with k True that show ?thesis by (auto simp: keeps_user_def L)
  next
    case False
    then have "cb_list (lists s ! m) = Some xs" using that(3) by (simp add: L)
    with ok that(1,2) show ?thesis unfolding store_ok_def by blast
  qed
  have len: "length (lists s') = length (lists s)" by (simp add: L)
  show ?thesis unfolding store_ok_def D len
  proof (intro conjI)
    show "\<forall>l f. (l, f) \<in> set (adds s') \<longrightarrow> l < length (lists s) \<and> user_fn f" using ok h(1) unfolding store_ok_def by blast
    show "\<forall>l x. (l, x) \<in> set (calls s') \<longrightarrow> l < length (lists s)" using ok h(2) unfolding store_ok_def by blast
  qed (use ok user in \<open>simp_all add: store_ok_def\<close>)
qed

lemma store_ok_user:
  "store_ok s \<Longrightarrow> m < length (lists s) \<Longrightarrow> (\<And>d b. is_deferred s d \<Longrightarrow> m \<noteq> side d b) \<Longrightarrow> cb_list (lists s ! m) = Some xs \<Longrightarrow>
   list_all user_fn xs"
  unfolding store_ok_def by blast

lemma store_ok_fresh:
  assumes "store_ok s" "length (lists s) \<le> l"
  shows "added s l = []" "called s l = []"
proof -
  have "fst p \<noteq> l" if "p \<in> set (adds s)" for p using assms that unfolding store_ok_def by (metis linorder_not_le prod.collapse)
  then show "added s l = []" by (simp add: added_def filter_empty_conv)
  have "fst p \<noteq> l" if "p \<in> set (calls s)" for p using assms that unfolding store_ok_def by (metis linorder_not_le prod.collapse)
  then show "called s l = []" by (simp add: called_def filter_empty_conv)
qed

lemma keeps_user_same: "cb_list c' = cb_list c \<or> cb_list c' = None \<or> cb_list c' = Some [] \<Longrightarrow> keeps_user c c'"
  by (auto simp: keeps_user_def)

lemma fire_end_list: "cb_list (fst (fire_end c)) = cb_list c \<or> cb_list (fst (fire_end c)) = None \<or> cb_list (fst (fire_end c)) = Some []"
  by (auto simp: fire_end_def cb_disable_def Let_def split: option.split list.split)

lemma store_ok_upd:
  assumes "store_ok s" "cb_list c = cb_list (lists s ! l) \<or> cb_list c = None \<or> cb_list c = Some []"
  shows "store_ok (upd l c s)"
  using assms(1) by (rule store_ok_step) (auto simp: upd_def is_deferred_def intro: keeps_user_same [OF assms(2)])

lemma deferred_invI:
  assumes "store_ok s" "stack_ok s ts" "\<And>d. is_deferred s d \<Longrightarrow> pair_inv s ts d"
  shows "deferred_inv (s, ts)"
  using assms by (simp add: deferred_inv_def)

lemma deferred_invD:
  assumes "deferred_inv (s, ts)"
  shows "store_ok s" "stack_ok s ts" "is_deferred s d \<Longrightarrow> pair_inv s ts d"
  using assms by (simp_all add: deferred_inv_def)

lemma cb_inv_deep: "cb_inv (s, t # ts) \<Longrightarrow> list_all deep ts"
  by (simp add: cb_inv_def)

text \<open>A step of one list, when it keeps the pair of every deferred the list belongs to.\<close>

lemma deferred_inv_list:
  assumes inv: "deferred_inv (s, t # ts)"
    and own: "\<And>d b. l = side d b \<Longrightarrow> is_deferred s d \<Longrightarrow> pair_inv (upd l c s) (ts0 @ ts) d"
    and c: "cb_list c = cb_list (lists s ! l) \<or> cb_list c = None \<or> cb_list c = Some []"
    and t: "\<And>m. about m t \<Longrightarrow> m = l" "\<And>a. t \<noteq> Do a"
    and ts0: "\<And>m. m \<noteq> l \<Longrightarrow> view m ts0 = []" "list_all pub_task ts0"
  shows "deferred_inv (upd l c s, ts0 @ ts)"
proof (rule deferred_invI)
  note iD = deferred_invD [OF inv]
  show "store_ok (upd l c s)" using iD(1) c by (rule store_ok_upd)
  show "stack_ok (upd l c s) (ts0 @ ts)" using iD(2) ts0(2) by (intro stack_ok_pub) (simp add: stack_ok_tl)
  fix d assume "is_deferred (upd l c s) d"
  then have d: "is_deferred s d" by (simp add: is_deferred_def)
  show "pair_inv (upd l c s) (ts0 @ ts) d"
  proof (cases "\<exists>b. l = side d b")
    case True
    with own d show ?thesis by blast
  next
    case False
    show ?thesis by (rule pair_frame [OF iD(3) [OF d]]) (use t False ts0(1) in \<open>auto simp: eq_commute\<close>)
  qed
qed

lemma deferred_Fire:
  assumes "cb_inv (s, Fire l v # ts)" "deferred_inv (s, Fire l v # ts)"
  shows "deferred_inv (upd l (fire_begin v (lists s ! l)) s, Loop l v # ts)"
proof -
  have l: "l < length (lists s)" using assms(1) by (simp add: cb_inv_def)
  have "deferred_inv (upd l (fire_begin v (lists s ! l)) s, [Loop l v] @ ts)"
  proof (rule deferred_inv_list [OF assms(2)])
    show "pair_inv (upd l (fire_begin v (lists s ! l)) s) ([Loop l v] @ ts) d" if "l = side d b" "is_deferred s d" for d b
      using pair_Fire [OF deferred_invD(3) [OF assms(2) that(2)] that(1) l] by simp
  qed (auto simp: fire_begin_def)
  then show ?thesis by simp
qed

lemma deferred_Next:
  assumes "cb_inv (s, Next l v stop # ts)" "deferred_inv (s, Next l v stop # ts)"
    and "cb_step code (s, Next l v stop # ts) = Inr cfg"
  shows "deferred_inv cfg"
proof -
  let ?c = "lists s ! l"
  have l: "l < length (lists s)" using cb_inv_top(1) [OF assms(1)] by (simp add: is_firing_def)
  note pD = deferred_invD(3) [OF assms(2)]
  have own: "pair_inv (upd l (?c\<lparr>firingIndex := firingIndex ?c + 1\<rparr>) s) ([Loop l v] @ ts) d"
    "\<not> opt_stopOnFalse (options ?c)" if "l = side d b" "is_deferred s d" for d b
    using pair_Next [OF pD [OF that(2)] that(1) l] by simp_all
  show ?thesis
  proof (cases "stop \<and> opt_stopOnFalse (options ?c)")
    case True
    then have "deferred_inv (upd l (?c\<lparr>memory := None\<rparr>) s, [Finish l] @ ts)"
      using own(2) by (intro deferred_inv_list [OF assms(2)]) auto
    with True assms(3) show ?thesis by (auto simp: Let_def)
  next
    case False
    have "deferred_inv (upd l (?c\<lparr>firingIndex := firingIndex ?c + 1\<rparr>) s, [Loop l v] @ ts)"
      using own(1) by (intro deferred_inv_list [OF assms(2)]) auto
    with False assms(3) show ?thesis by (auto simp: Let_def)
  qed
qed

lemma deferred_Finish:
  assumes "cb_inv (s, Finish l # ts)" "deferred_inv (s, Finish l # ts)"
    and "cb_step code (s, Finish l # ts) = Inr cfg"
  shows "deferred_inv cfg"
proof -
  let ?r = "fire_end (lists s ! l)"
  have l: "l < length (lists s)" using cb_inv_top(1) [OF assms(1)] by (simp add: is_firing_def)
  note pD = deferred_invD(3) [OF assms(2)]
  have "deferred_inv (upd l (fst ?r) s, (case snd ?r of Some d \<Rightarrow> [Fire l d] | None \<Rightarrow> []) @ ts)"
  proof (rule deferred_inv_list [OF assms(2) _ fire_end_list])
    show "pair_inv (upd l (fst ?r) s) ((case snd ?r of Some d \<Rightarrow> [Fire l d] | None \<Rightarrow> []) @ ts) d"
      if "l = side d b" "is_deferred s d" for d b
      using pair_Finish [OF pD [OF that(2)] that(1) l] by simp
  qed (auto split: option.split)
  with assms(3) show ?thesis by (simp add: Let_def)
qed

lemma user_body:
  assumes "good_code code" "user_fn f" "body code f v = (acts, stop)"
  shows "list_all pub acts"
proof -
  have code: "list_all pub as" if "code u v = (as, r)" for u as r
    using assms(1) that unfolding good_code_def by (metis fst_conv)
  have "list_all pub (fst (body code f v))"
  proof (cases f)
    case (Forward i k u new)
    then show ?thesis using code
      by (cases u) (auto simp: adopt_acts_def list_all_iff split: prod.split ret.split)
  qed (use assms(2) code in \<open>auto split: prod.split\<close>)
  with assms(3) show ?thesis by simp
qed

lemma upd_same: "upd l (lists s ! l) s = s"
  by (simp add: upd_def)

lemma deferred_call:
  assumes inv: "deferred_inv (s, Loop l v # ts)" and code: "good_code code" and l: "l < length (lists s)"
    and xs: "cb_list (lists s ! l) = Some xs" "firingIndex (lists s ! l) < firingLength (lists s ! l)"
      "0 \<le> firingIndex (lists s ! l)" "firingIndex (lists s ! l) < int (length xs)"
  defines "f \<equiv> xs ! nat (firingIndex (lists s ! l))"
  assumes body: "body code f v = (acts, stop)"
  shows "deferred_inv (s\<lparr>calls := calls s @ [(l, f, v)]\<rparr>, map Do acts @ Next l v stop # ts)"
proof (rule deferred_invI)
  let ?s = "s\<lparr>calls := calls s @ [(l, f, v)]\<rparr>" and ?ts = "map Do acts @ Next l v stop # ts"
  note iD = deferred_invD [OF inv]
  have fm: "f \<in> set xs" using xs(3,4) by (simp add: f_def nat_less_iff)
  show "store_ok ?s"
    using iD(1) by (rule store_ok_step [of s _ l "lists s ! l"])
      (use l in \<open>auto simp: is_deferred_def keeps_user_def\<close>)
  show "stack_ok ?s ?ts"
  proof (cases "\<exists>d b. is_deferred s d \<and> l = side d b")
    case False
    then have "list_all user_fn xs" using iD(1) l xs(1) unfolding store_ok_def by blast
    with fm have "list_all pub acts" using user_body [OF code _ body] by (simp add: list_all_iff)
    with iD(2) show ?thesis by (intro stack_ok_pub) (simp add: stack_ok_tl)
  next
    case True
    then obtain d b where d: "is_deferred s d" and lb: "l = side d b" by blast
    let ?T = "builtins d b @ added s l" and ?n = "length (called s l)"
    note pc = pair_call(1) [OF iD(3) [OF d] lb xs(1,2) body [unfolded f_def], folded f_def]
    have fir: "fired (lists s ! l)" using at_progress [OF iD(3) [OF d]] lb by (simp add: progress_at_def)
    have n: "length (called ?s l) = Suc ?n" by (simp add: called_snoc)
    have one: ?thesis if "acts = [a]" "priv_ok ?s a" for a
      using that stack_ok_tl [OF iD(2)] by (simp add: stack_ok_def)
    have priv: "priv_ok ?s a" if "a = SetSt d (way b) \<and> ?n = 0 \<or> a = Disable (side d (\<not> b)) \<and> ?n = 1 \<or> a = Lock (d + 2) \<and> ?n = 2" for a
      unfolding priv_ok_def using that n fir d lb by (intro exI [of _ d] exI [of _ b]) (auto simp: is_deferred_def)
    note bb = builtin_body [of ?T d b "added s l" code v, OF refl]
    consider "?n = 0" | "?n = 1" | "?n = 2" | "3 \<le> ?n" by linarith
    then show ?thesis
    proof cases
      case 4
      then have "f \<in> set (added s l)" using pc by (auto simp: nth_append intro!: nth_mem)
      then have "user_fn f" using iD(1) by (auto simp: added_def store_ok_def)
      then have "list_all pub acts" using user_body [OF code _ body] by simp
      with iD(2) show ?thesis by (intro stack_ok_pub) (simp add: stack_ok_tl)
    next
      case 1
      with pc body bb have "acts = [SetSt d (way b)]" by simp
      then show ?thesis by (rule one) (rule priv, use 1 in simp)
    next
      case 2
      with pc body bb have "acts = [Disable (side d (\<not> b))]" by simp
      then show ?thesis by (rule one) (rule priv, use 2 in simp)
    next
      case 3
      with pc body bb have "acts = [Lock (d + 2)]" by simp
      then show ?thesis by (rule one) (rule priv, use 3 in simp)
    qed
  qed
  fix d assume "is_deferred ?s d"
  then have d: "is_deferred s d" by (simp add: is_deferred_def)
  show "pair_inv ?s ?ts d"
  proof (cases "\<exists>b. l = side d b")
    case True
    then obtain b where "l = side d b" by blast
    from pair_call(2) [OF iD(3) [OF d] this xs(1,2) body [unfolded f_def]] show ?thesis by (simp add: f_def)
  next
    case False
    show ?thesis by (rule pair_frame [OF iD(3) [OF d]]) (use False in \<open>auto simp: called_snoc added_def\<close>)
  qed
qed

lemma deferred_Loop:
  assumes cb: "cb_inv (s, Loop l v # ts)" and inv: "deferred_inv (s, Loop l v # ts)" and code: "good_code code"
    and step: "cb_step code (s, Loop l v # ts) = Inr cfg"
  shows "deferred_inv cfg"
proof -
  have l: "l < length (lists s)" using cb_inv_top(1) [OF cb] by (simp add: is_firing_def)
  note pD = deferred_invD(3) [OF inv]
  have stop: "deferred_inv (s, Finish l # ts)"
    if "\<And>d b. l = side d b \<Longrightarrow> is_deferred s d \<Longrightarrow> pair_inv s (Finish l # ts) d"
    using deferred_inv_list [OF inv, of l "lists s ! l" "[Finish l]"] that by (auto simp: upd_same)
  show ?thesis
  proof (cases "cb_list (lists s ! l)")
    case None
    have False if "l = side d b" "is_deferred s d" for d b
      using at_progress [OF pD [OF that(2)], of b] closed_unfired [OF pD [OF that(2)], of b] that None
      by (auto simp: progress_at_def closed_way_def)
    with None step stop show ?thesis by (auto simp: Let_def)
  next
    case (Some xs)
    show ?thesis
    proof (cases "firingIndex (lists s ! l) < firingLength (lists s ! l)")
      case True
      obtain acts st where b: "body code (xs ! nat (firingIndex (lists s ! l))) v = (acts, st)" by fastforce
      from step Some True have i: "0 \<le> firingIndex (lists s ! l)" "firingIndex (lists s ! l) < int (length xs)"
        by (auto simp: Let_def split: if_splits)
      from deferred_call [OF inv code l Some True i b] step Some True i b show ?thesis by (auto simp: Let_def)
    next
      case False
      have "deferred_inv (s, Finish l # ts)" by (rule stop) (rule pair_last [OF pD _ Some False])
      with step Some False show ?thesis by (auto simp: Let_def)
    qed
  qed
qed

lemma deferred_priv:
  assumes cb: "cb_inv (s, Do a # ts)" and inv: "deferred_inv (s, Do a # ts)" and a: "\<not> pub a"
  shows "deferred_inv (fst (do_act a s), snd (do_act a s) @ ts)"
proof -
  note iD = deferred_invD [OF inv]
  from iD(2) a have "priv_ok s a" by (simp add: stack_ok_def)
  then obtain d b where d: "is_deferred s d" "fired (lists s ! side d b)" and cs:
    "a = SetSt d (way b) \<and> length (called s (side d b)) = 1 \<or> a = Disable (side d (\<not> b)) \<and> length (called s (side d b)) = 2
     \<or> a = Lock (d + 2) \<and> length (called s (side d b)) = 3" by (auto simp: priv_ok_def)
  have sl: "side d' b' < length (lists s)" if "is_deferred s d'" for d' b' using side_less [OF iD(1) that] .
  have pubs: "stack_ok s' ts" for s' using stack_ok_tl [OF iD(2)] by (rule stack_ok_pub)
  from cs show ?thesis
  proof (elim disjE conjE)
    assume A: "a = SetSt d (way b)" and n: "length (called s (side d b)) = 1"
    let ?s = "s\<lparr>dstate := (dstate s)(d := way b)\<rparr>"
    have D: "is_deferred ?s = is_deferred s" using d(1) by (intro ext) (simp add: is_deferred_def)
    have "deferred_inv (?s, ts)"
    proof (rule deferred_invI [OF _ pubs])
      show "store_ok ?s" using iD(1) by (rule store_ok_step [of s _ 0 "lists s ! 0"]) (auto simp: keeps_user_def D)
      fix d' assume d': "is_deferred ?s d'"
      then have p: "pair_inv s (Do (SetSt d (way b)) # ts) d'" using iD(3) A D by simp
      show "pair_inv ?s ts d'"
      proof (cases "d' = d")
        case True
        with p pair_SetSt [OF _ d(2) n] show ?thesis by simp
      next
        case False
        show ?thesis by (rule pair_frame [OF p]) (use False in \<open>auto simp: added_def called_def\<close>)
      qed
    qed
    with A show ?thesis by simp
  next
    assume A: "a = Disable (side d (\<not> b))" and n: "length (called s (side d b)) = 2"
    let ?m = "side d (\<not> b)" let ?s = "upd ?m (cb_disable (lists s ! ?m)) s"
    have "deferred_inv (?s, ts)"
    proof (rule deferred_invI [OF _ pubs])
      show "store_ok ?s" using iD(1) by (rule store_ok_upd) (simp add: cb_disable_def)
      fix d' assume "is_deferred ?s d'"
      then have d': "is_deferred s d'" by (simp add: is_deferred_def)
      then have p: "pair_inv s (Do (Disable ?m) # ts) d'" using iD(3) A by simp
      show "pair_inv ?s ts d'"
      proof (cases "d' = d")
        case True
        with p pair_Disable [OF _ d(2) n sl [OF d(1)] cb_inv_deep [OF cb]] show ?thesis by simp
      next
        case False
        then have "side d' b' \<noteq> ?m" for b' using side_inj [OF iD(1) d' d(1)] by blast
        then show ?thesis by (intro pair_frame [OF p]) (auto dest: sym)
      qed
    qed
    with A sl [OF d(1)] show ?thesis by (simp add: on_list_def Let_def)
  next
    assume A: "a = Lock (d + 2)"
    let ?s = "upd (d + 2) (cb_lock (lists s ! (d + 2))) s"
    have "deferred_inv (?s, ts)"
    proof (rule deferred_invI [OF _ pubs])
      show "store_ok ?s" using iD(1) by (rule store_ok_upd) (simp add: cb_lock_def cb_disable_def Let_def)
      fix d' assume "is_deferred ?s d'"
      then have d': "is_deferred s d'" by (simp add: is_deferred_def)
      then have "side d' b' \<noteq> d + 2" for b' using side_progress [OF iD(1) d(1), of d' b'] by simp
      then show "pair_inv ?s ts d'" by (intro pair_frame [OF iD(3) [OF d']]) (use A in simp_all)
    qed
    moreover have "d + 2 < length (lists s)" using iD(1) d(1) by (simp add: store_ok_def)
    ultimately show ?thesis using A by (simp add: on_list_def Let_def)
  qed
qed

lemma foldl_push_append: "\<exists>ys. foldl (cb_push opts) xs fns = xs @ ys \<and> set ys \<subseteq> set fns"
proof (induction fns arbitrary: xs)
  case (Cons f fns)
  have "cb_push opts xs f = xs @ (if opt_unique opts \<and> f \<in> set xs then [] else [f])" by (simp add: cb_push_def)
  then obtain zs where z: "cb_push opts xs f = xs @ zs" "set zs \<subseteq> {f}" by force
  from Cons.IH [of "xs @ zs"] obtain ys where "foldl (cb_push opts) (xs @ zs) fns = (xs @ zs) @ ys" "set ys \<subseteq> set fns" by blast
  with z show ?case by (intro exI [of _ "zs @ ys"]) auto
qed simp

lemma keeps_user_add:
  assumes "list_all user_fn fns"
  shows "keeps_user c (fst (cb_add fns c))"
proof (cases "cb_list c")
  case (Some xs)
  obtain ys where "foldl (cb_push (options c)) xs fns = xs @ ys" "set ys \<subseteq> set fns" using foldl_push_append by blast
  with Some assms show ?thesis
    by (auto simp: keeps_user_def cb_add_def Let_def list_all_iff split: option.splits)
qed (simp add: keeps_user_def cb_add_def)

lemma pushed_append:
  obtains ys where "pushed l fns s = map (Pair l) ys" "set ys \<subseteq> set fns" "ys \<noteq> [] \<Longrightarrow> l < length (lists s)"
proof (cases "l < length (lists s) \<and> cb_list (lists s ! l) \<noteq> None")
  case True
  then obtain xs where x: "cb_list (lists s ! l) = Some xs" by blast
  obtain ys where "foldl (cb_push (options (lists s ! l))) xs fns = xs @ ys" "set ys \<subseteq> set fns" using foldl_push_append by blast
  with True x that show ?thesis by (simp add: pushed_def)
next
  case False
  then have "pushed l fns s = []" by (cases "cb_list (lists s ! l)") (simp_all add: pushed_def)
  with that [of "[]"] show ?thesis by simp
qed

lemma pushed_user:
  assumes "list_all user_fn fns"
  shows "set (pushed l fns s) \<subseteq> {(m, f). m < length (lists s) \<and> user_fn f}"
proof (rule pushed_append [of l fns s])
  fix ys assume "pushed l fns s = map (Pair l) ys" "set ys \<subseteq> set fns" "ys \<noteq> [] \<Longrightarrow> l < length (lists s)"
  with assms show ?thesis by (cases ys) (auto simp: list_all_iff)
qed

lemma filter_Pair: "filter (\<lambda>p. fst p = m) (map (Pair l) ys) = (if m = l then map (Pair l) ys else [])"
  by (induction ys) auto

lemma added_pushed:
  assumes "adds s' = adds s @ pushed l fns s" "m \<noteq> l"
  shows "added s' m = added s m"
  by (rule pushed_append [of l fns s]) (use assms in \<open>simp add: added_def filter_Pair\<close>)

lemma added_pushed_om:
  assumes "adds s' = adds s @ pushed l fns s" "l < length (lists s)" "options (lists s ! l) = createOptions ''once memory''"
  shows "added s' l = added s l @ (case cb_list (lists s ! l) of Some xs \<Rightarrow> fns | None \<Rightarrow> [])"
  using assms by (cases "cb_list (lists s ! l)")
    (simp_all add: added_def pushed_def foldl_push options_once_memory filter_Pair comp_def)

text \<open>The calls that work on one list: adding to it and firing it.\<close>

lemma deferred_op:
  assumes cb: "cb_inv (s, Do a # ts)" and inv: "deferred_inv (s, Do a # ts)" and a: "pub a"
    and l: "l < length (lists s)"
    and L: "lists s' = (lists s)[l := c]" "calls s' = calls s" "dstate s' = dstate s"
    and k: "keeps_ways (lists s ! l) c" "keeps_user (lists s ! l) c"
    and h: "set (adds s') \<subseteq> set (adds s) \<union> {(m, f). m < length (lists s) \<and> user_fn f}"
      "\<And>m. m \<noteq> l \<Longrightarrow> added s' m = added s m"
    and om: "\<And>d b. is_deferred s d \<Longrightarrow> l = side d b \<Longrightarrow>
      om_state l c (with_fire l (view l ts) q) (builtins d b @ added s' l) (called s l)"
  shows "deferred_inv (s', (case q of Some d \<Rightarrow> [Fire l d] | None \<Rightarrow> []) @ ts)"
proof (rule deferred_invI)
  note iD = deferred_invD [OF inv]
  let ?ts = "(case q of Some d \<Rightarrow> [Fire l d] | None \<Rightarrow> []) @ ts"
  have D: "is_deferred s' = is_deferred s" by (intro ext) (simp add: is_deferred_def L)
  have C: "called s' = called s" by (intro ext) (simp add: called_def L)
  show "store_ok s'" by (rule store_ok_step [OF iD(1) L(1) k(2) D h(1)]) (simp add: L)
  show "stack_ok s' ?ts" using stack_ok_tl [OF iD(2)] by (intro stack_ok_pub) (auto split: option.split)
  have vw: "view m ?ts = (if m = l then with_fire l (view l ts) q else view m ts)" for m
    by (auto simp: with_fire_def split: option.split)
  fix d assume "is_deferred s' d"
  then have d: "is_deferred s d" by (simp add: D)
  show "pair_inv s' ?ts d"
  proof (cases "\<exists>b. l = side d b")
    case True
    then obtain b where b: "l = side d b" by blast
    show ?thesis
      by (rule pair_op [OF iD(3) [OF d] a b l k(1) L(1)]) (use om [OF d b] in \<open>simp_all add: vw C L h(2) del: view_append\<close>)
  next
    case False
    then have ne: "side d b \<noteq> l" "l \<noteq> side d b" for b by (auto dest: sym)
    show ?thesis by (rule pair_frame [OF iD(3) [OF d]]) (use a ne in \<open>auto simp: vw C L h(2) simp del: view_append\<close>)
  qed
qed

lemma deferred_Add:
  assumes cb: "cb_inv (s, Do (Add l fns) # ts)" and inv: "deferred_inv (s, Do (Add l fns) # ts)" and a: "list_all user_fn fns"
    and l: "l < length (lists s)"
  shows "deferred_inv (fst (do_act (Add l fns) s), snd (do_act (Add l fns) s) @ ts)"
proof -
  obtain c q where r: "cb_add fns (lists s ! l) = (c, q)" by fastforce
  let ?s = "(upd l c s)\<lparr>adds := adds s @ pushed l fns s\<rparr>"
  have "deferred_inv (?s, (case q of Some d \<Rightarrow> [Fire l d] | None \<Rightarrow> []) @ ts)"
  proof (rule deferred_op [OF cb inv _ l])
    show "keeps_ways (lists s ! l) c" "keeps_user (lists s ! l) c"
      using keeps_add [of "lists s ! l" fns] keeps_user_add [OF a, of "lists s ! l"] r by simp_all
    show "set (adds ?s) \<subseteq> set (adds s) \<union> {(m, f). m < length (lists s) \<and> user_fn f}" using pushed_user [OF a] by auto
    show "m \<noteq> l \<Longrightarrow> added ?s m = added s m" for m by (rule added_pushed) simp_all
    fix d b assume d: "is_deferred s d" "l = side d b"
    have om: "om_state l (lists s ! l) (view l ts) (builtins d b @ added s l) (called s l)"
      using pair_way [OF deferred_invD(3) [OF inv d(1)], of b] d(2) by (simp add: way_inv_def)
    have "added ?s l = added s l @ (case cb_list (lists s ! l) of Some xs \<Rightarrow> fns | None \<Rightarrow> [])"
      by (rule added_pushed_om [OF _ l om_options [OF om]]) simp
    with om_add [OF om view_deep [OF cb_inv_deep [OF cb]], of fns] r
    show "om_state l c (with_fire l (view l ts) q) (builtins d b @ added ?s l) (called s l)" by simp
  qed (use a in \<open>simp_all add: upd_def\<close>)
  with l r show ?thesis by (simp add: on_list_def Let_def)
qed

lemma deferred_FireWith:
  assumes cb: "cb_inv (s, Do (FireWith l v) # ts)" and inv: "deferred_inv (s, Do (FireWith l v) # ts)"
    and l: "l < length (lists s)"
  shows "deferred_inv (fst (do_act (FireWith l v) s), snd (do_act (FireWith l v) s) @ ts)"
proof -
  obtain c q where r: "cb_fireWith v (lists s ! l) = (c, q)" by fastforce
  have "deferred_inv (upd l c s, (case q of Some d \<Rightarrow> [Fire l d] | None \<Rightarrow> []) @ ts)"
  proof (rule deferred_op [OF cb inv _ l])
    show "keeps_ways (lists s ! l) c" using keeps_fireWith [of "lists s ! l" v] r by simp
    have "cb_list (fst (cb_fireWith v (lists s ! l))) = cb_list (lists s ! l)" by (simp add: cb_fireWith_def)
    with r show "keeps_user (lists s ! l) c" by (intro keeps_user_same) simp
    fix d b assume d: "is_deferred s d" "l = side d b"
    have om: "om_state l (lists s ! l) (view l ts) (builtins d b @ added s l) (called s l)"
      using pair_way [OF deferred_invD(3) [OF inv d(1)], of b] d(2) by (simp add: way_inv_def)
    from om_fireWith [OF om view_deep [OF cb_inv_deep [OF cb]], of v] r
    show "om_state l c (with_fire l (view l ts) q) (builtins d b @ added (upd l c s) l) (called s l)" by simp
  qed (simp_all add: upd_def [of l c s] added_def)
  with l r show ?thesis by (simp add: on_list_def Let_def)
qed

text \<open>The other calls create lists, deferreds and further calls of the page.\<close>

lemma view_fresh:
  assumes "cb_inv (s, Do a # ts)" "length (lists s) \<le> l"
  shows "view l ts = []"
proof -
  have "filter (in_list l) ts = []" using assms by (auto simp: cb_inv_def is_firing_def dest: spec [of _ l])
  moreover have "about l t = in_list l t" if "t \<in> set ts" for t
    using cb_inv_deep [OF assms(1)] that by (cases t) (auto simp: list_all_iff)
  ultimately show ?thesis by (auto simp: view_def filter_empty_conv)
qed

lemma deferred_new_lists:
  assumes inv: "deferred_inv (s, Do a # ts)" and a: "pub a" "list_all pub acts"
    and L: "lists s' = lists s @ new" "list_all (\<lambda>c. cb_list c = Some []) new"
    and same: "adds s' = adds s" "calls s' = calls s" "dstate s' = dstate s"
  shows "deferred_inv (s', map Do acts @ ts)"
proof (rule deferred_invI)
  note iD = deferred_invD [OF inv]
  have D: "is_deferred s' = is_deferred s" by (intro ext) (simp add: is_deferred_def same)
  have user: "list_all user_fn xs" if "m < length (lists s')" "\<forall>d b. is_deferred s d \<longrightarrow> m \<noteq> side d b" "cb_list (lists s' ! m) = Some xs" for m xs
  proof (cases "m < length (lists s)")
    case True
    with that iD(1) show ?thesis unfolding store_ok_def L(1) by (simp add: nth_append)
  next
    case False
    with that(1,3) L(2) show ?thesis by (auto simp: L(1) nth_append list_all_length)
  qed
  show "store_ok s'"
    unfolding store_ok_def D same using iD(1) user by (auto simp: store_ok_def L(1) trans_less_add1)
  show "stack_ok s' (map Do acts @ ts)" using stack_ok_tl [OF iD(2)] a(2) by (intro stack_ok_pub) simp
  fix d assume "is_deferred s' d"
  then have d: "is_deferred s d" by (simp add: D)
  show "pair_inv s' (map Do acts @ ts) d"
    by (rule pair_frame [OF iD(3) [OF d]])
      (use a side_less [OF iD(1) d] in \<open>auto simp: L(1) nth_append added_def called_def same\<close>)
qed

lemma Deferred_fields [simp]: "adds (Deferred s) = adds s" "calls (Deferred s) = calls s"
  "dstate (Deferred s) = (dstate s)(length (lists s) := ''pending'')"
  by (simp_all add: Deferred_def Let_def)

lemma fresh_ways:
  assumes "lists s' = lists (Deferred s)"
  shows "lists s' ! side (length (lists s)) b
    = (Callbacks (createOptions ''once memory''))\<lparr>cb_list := Some (builtins (length (lists s)) b)\<rparr>"
  using assms by (cases b)
    (simp_all add: lists_Deferred side_def way_def builtins_def nth_append cb_add_def Callbacks_def options_once_memory
      cb_push_def Let_def)

lemma deferred_new:
  assumes cb: "cb_inv (s, Do a # ts)" and inv: "deferred_inv (s, Do a # ts)" and a: "pub a" "list_all pub acts"
    and L: "lists s' = lists (Deferred s)" and same: "adds s' = adds s" "calls s' = calls s" "dstate s' = dstate (Deferred s)"
  shows "deferred_inv (s', map Do acts @ ts)"
proof (rule deferred_invI)
  note iD = deferred_invD [OF inv]
  let ?d = "length (lists s)"
  have D: "is_deferred s' d = (is_deferred s d \<or> d = ?d)" for d by (auto simp: is_deferred_def same)
  have len: "length (lists s') = ?d + 3" by (simp add: L lists_Deferred)
  have old: "lists s' ! m = lists s ! m" if "m < ?d" for m using that by (simp add: L lists_Deferred nth_append)
  have lt: "d + 2 < ?d" if "is_deferred s d" for d using iD(1) that by (simp add: store_ok_def)
  show "store_ok s'" unfolding store_ok_def D same len
  proof (intro conjI allI impI)
    show "d + 2 < ?d + 3" if "is_deferred s d \<or> d = ?d" for d using that lt [of d] by auto
    show "d + 3 \<le> d'" if "is_deferred s d \<or> d = ?d" "is_deferred s d' \<or> d' = ?d" "d < d'" for d d'
      using that lt [of d] lt [of d'] iD(1) by (auto simp: store_ok_def)
    show "l < ?d + 3" "user_fn f" if "(l, f) \<in> set (adds s)" for l f
      using that iD(1) by (auto simp: store_ok_def trans_less_add1)
    show "l < ?d + 3" if "(l, x) \<in> set (calls s)" for l x
    proof -
      have "l < ?d" using that iD(1) unfolding store_ok_def by blast
      then show ?thesis by simp
    qed
    fix m xs assume m: "m < ?d + 3" "\<forall>d b. is_deferred s d \<or> d = ?d \<longrightarrow> m \<noteq> side d b" "cb_list (lists s' ! m) = Some xs"
    show "list_all user_fn xs"
    proof (cases "m < ?d")
      case True
      show ?thesis by (rule store_ok_user [OF iD(1) True]) (use m(2,3) old [OF True] in auto)
    next
      case False
      have "m \<noteq> side ?d True" "m \<noteq> side ?d False" using m(2) by blast+
      with m(1) False have "m = ?d + 2" by (simp add: side_def)
      with m(3) show ?thesis by (simp add: L lists_Deferred nth_append Callbacks_def)
    qed
  qed
  show "stack_ok s' (map Do acts @ ts)" using stack_ok_tl [OF iD(2)] a(2) by (intro stack_ok_pub) simp
  fix d assume d: "is_deferred s' d"
  show "pair_inv s' (map Do acts @ ts) d"
  proof (cases "d = ?d")
    case False
    with d have d': "is_deferred s d" by (simp add: D)
    show ?thesis
      by (rule pair_frame [OF iD(3) [OF d']])
        (use a False side_less [OF iD(1) d'] in \<open>auto simp: old added_def called_def same\<close>)
  next
    case True
    have ge: "?d \<le> side d b" for b by (simp add: True side_def)
    have h: "added s' (side d b) = []" "called s' (side d b) = []" for b
      using store_ok_fresh [OF iD(1) ge, of b] by (simp_all add: added_def called_def same)
    have "way_inv s' (map Do acts @ ts) d b" for b
      unfolding way_inv_def h using fresh_ways [OF L, of b] view_fresh [OF cb ge, of b] True
      by (auto simp: om_const_def Callbacks_def options_once_memory intro!: om_state.Idle)
    moreover have "pending s' d" using fresh_ways [OF L] by (simp add: pending_def open_way_def True same Callbacks_def)
    ultimately show ?thesis by (simp add: pair_inv_def)
  qed
qed

lemma pub_then: "list_all pub (then_acts d fns n)"
  by (simp add: then_acts_def list_all_iff)

lemma pub_when: "list_all pub (when_acts w m args)"
  by (auto simp: when_acts_def list_all_iff split_beta split: when_arg.split_asm)

lemma pub_update: "list_all pub (snd (updateFunc i prog d w))" "list_all pub (end_when w)"
  by (simp_all add: updateFunc_def end_when_def Let_def)

lemma deferred_pub:
  assumes cb: "cb_inv (s, Do a # ts)" and inv: "deferred_inv (s, Do a # ts)" and a: "pub a"
  shows "deferred_inv (fst (do_act a s), snd (do_act a s) @ ts)"
proof -
  have quiet: "deferred_inv (s', map Do acts @ ts)"
    if "lists s' = lists s" "adds s' = adds s" "calls s' = calls s" "dstate s' = dstate s" "list_all pub acts" for s' acts
    using deferred_new_lists [OF inv a, of acts s' "[]"] that by simp
  note new = deferred_new [OF cb inv a]
  have w: "deferred_inv (fst (on_when w f s), snd (on_when w f s) @ ts)" if "\<And>st. list_all pub (snd (f st))" for w f
    using that quiet [of s "[]"] quiet by (auto simp: on_when_def split_beta)
  show ?thesis
  proof (cases a)
    case (Add l fns)
    show ?thesis
    proof (cases "l < length (lists s)")
      case True
      with deferred_Add cb inv a Add show ?thesis by simp
    next
      case False
      with Add quiet [of s "[]"] show ?thesis by (simp add: on_list_def pushed_def)
    qed
  next
    case (FireWith l v)
    show ?thesis
    proof (cases "l < length (lists s)")
      case True
      with deferred_FireWith cb inv FireWith show ?thesis by simp
    next
      case False
      with FireWith quiet [of s "[]"] show ?thesis by (simp add: on_list_def)
    qed
  next
    case (NewCallbacks opts)
    with deferred_new_lists [OF inv a, of "[]" "fst (do_act a s)" "[Callbacks (createOptions opts)]"] show ?thesis
      by (simp add: Callbacks_def)
  next
    case NewDeferred
    with new [of "[]" "Deferred s"] show ?thesis by simp
  next
    case (Then d fns)
    with new [OF pub_then, of "Deferred s"] show ?thesis by simp
  next
    case (When args)
    have "snd (new_when args s) = map Do (when_acts (length (whens s)) (length (lists s)) args)"
      "lists (fst (new_when args s)) = lists (Deferred s)" "dstate (fst (new_when args s)) = dstate (Deferred s)"
      "adds (fst (new_when args s)) = adds s" "calls (fst (new_when args s)) = calls s"
      by (simp_all add: new_when_def Let_def)
    then have "deferred_inv (fst (new_when args s), snd (new_when args s) @ ts)"
      using new [OF pub_when, of "fst (new_when args s)"] by simp
    moreover have "start_when args s = (s, []) \<or> start_when args s = new_when args s"
      by (simp add: start_when_def split: list.split when_arg.split)
    ultimately show ?thesis using When quiet [of s "[]"] by auto
  next
    case (UpdateW w i prog d)
    with w show ?thesis by (simp add: pub_update)
  qed (use a w in \<open>simp_all add: pub_update\<close>)
qed

section \<open>The contract\<close>

lemma deferred_step:
  assumes "cb_inv (s, t # ts)" "deferred_inv (s, t # ts)" "good_code code" "cb_step code (s, t # ts) = Inr cfg"
  shows "deferred_inv cfg"
proof (cases t)
  case (Fire l v)
  with assms deferred_Fire [of s l v ts] show ?thesis by auto
next
  case (Do a)
  have "cfg = (fst (do_act a s), snd (do_act a s) @ ts)" using assms(4) Do by (simp add: split_beta)
  with deferred_pub [of s a ts] deferred_priv [of s a ts] assms(1,2) Do show ?thesis by (cases "pub a") simp_all
next
  case (Loop l v)
  with assms deferred_Loop show ?thesis by blast
next
  case (Next l v stop)
  with assms deferred_Next show ?thesis by blast
next
  case (Finish l)
  with assms deferred_Finish show ?thesis by blast
qed

text \<open>
  The invariant holds of every page whose functions keep to the interface: the invariant of
  the machine is the basis, the one of the deferreds is relative to it.
\<close>

interpretation deferreds: relative_invariant cb_start "cb_move code pub" cb_inv "\<lambda>cfg. good_code code \<longrightarrow> deferred_inv cfg"
  for code
proof
  show "good_code code \<longrightarrow> deferred_inv cfg" if "cb_start cfg" for cfg
    using that by (simp add: cb_start_def deferred_inv_def sys0_def store_ok_def is_deferred_def stack_ok_def)
next
  fix cfg cfg' assume a: "cb_inv cfg" "good_code code \<longrightarrow> deferred_inv cfg" "cb_move code pub cfg cfg'"
  obtain s ts where c: "cfg = (s, ts)" by fastforce
  show "good_code code \<longrightarrow> deferred_inv cfg'"
  proof (cases ts)
    case Nil
    then obtain x where x: "pub x" "cfg' = (s, [Do x])" using a(3) c by (auto simp: cb_move_def)
    have "pair_inv s [Do x] d" if "pair_inv s [] d" for d
      using that by (auto simp: pair_inv_def way_inv_def settling_def at_list_def calling_def)
    with a(2) c Nil x show ?thesis by (simp add: deferred_inv_def stack_ok_def)
  next
    case (Cons t ts')
    with a c deferred_step [of s t ts' code cfg'] show ?thesis by (auto simp: cb_move_def)
  qed
qed

lemma pair_states: "pair_inv s ts d \<Longrightarrow> dstate s d \<in> {''pending'', ''resolved'', ''rejected''}"
  by (erule pair_inv_cases) (auto simp: pending_def settling_def settled_def way_def Let_def split: if_splits)

lemma pair_one_way:
  assumes "pair_inv s ts d" "called s (side d b) \<noteq> []"
  shows "called s (side d (\<not> b)) = []"
proof -
  have uf: "called s (side d b) = []" if "\<not> fired (lists s ! side d b)" for b
    using om_unfired [OF pair_way [OF assms(1), unfolded way_inv_def] that] .
  with assms(2) have "fired (lists s ! side d b)" by blast
  then have "settling s ts d b \<or> settled s d b" using fired_way [OF assms(1)] by simp
  then have "\<not> fired (lists s ! side d (\<not> b))"
    using closed_unfired [OF assms(1)] by (auto simp: settling_def settled_def open_way_def Let_def)
  then show ?thesis by (rule uf)
qed

lemma pair_quiet:
  assumes "pair_inv s [] d"
  shows "dstate s d = ''pending'' \<Longrightarrow> called s (side d b) = []"
    and "dstate s d = way b \<Longrightarrow> \<exists>v. called s (side d b) = map (\<lambda>f. (f, v)) (builtins d b @ added s (side d b))"
proof -
  have ns: "\<not> settling s [] d b" for b by (auto simp: settling_def at_list_def calling_def Let_def)
  have om: "om_state (side d b) (lists s ! side d b) [] (builtins d b @ added s (side d b)) (called s (side d b))"
    using pair_way [OF assms] by (simp add: way_inv_def)
  show "called s (side d b) = []" if "dstate s d = ''pending''"
  proof -
    have "pending s d" using assms ns that by (auto simp: pair_inv_def settled_def)
    then have "\<not> fired (lists s ! side d b)" by (cases b) (auto simp: pending_def open_way_def)
    with om_unfired [OF om] show ?thesis by simp
  qed
  show "\<exists>v. called s (side d b) = map (\<lambda>f. (f, v)) (builtins d b @ added s (side d b))" if "dstate s d = way b"
  proof -
    have "\<exists>b. settled s d b" using assms ns that by (auto simp: pair_inv_def pending_def)
    with that have "fired (lists s ! side d b)" by (auto simp: settled_def way_def split: if_splits)
    with om_quiet [OF om] show ?thesis by blast
  qed
qed

text \<open>A deferred that is settled stays so.\<close>

lemma dstate_on [simp]:
  "dstate (fst (on_list l f s)) = dstate s" "dstate (fst (on_when w g s)) = dstate s"
  by (simp_all add: on_list_def on_when_def Let_def split_beta)

lemma settled_stays:
  assumes inv: "deferred_inv (s, ts)" and d: "is_deferred s d" "dstate s d = way b" and move: "cb_move code pub (s, ts) (s', ts')"
  shows "dstate s' d = way b"
proof (cases ts)
  case Nil
  with move d show ?thesis by (auto simp: cb_move_def)
next
  case (Cons t ts0)
  then have step: "cb_step code (s, t # ts0) = Inr (s', ts')" using move by (simp add: cb_move_def)
  note iD = deferred_invD [OF inv]
  show ?thesis
  proof (cases t)
    case (Do a)
    have new: "d \<noteq> length (lists s)" using iD(1) d(1) by (auto simp: store_ok_def)
    have s': "s' = fst (do_act a s)" using step Do by (simp add: split_beta)
    show ?thesis
    proof (cases a)
      case (SetSt d' st)
      then have "priv_ok s a" using iD(2) Cons Do by (simp add: stack_ok_def)
      then obtain b' where b': "is_deferred s d'" "fired (lists s ! side d' b')" "length (called s (side d' b')) = 1"
        using SetSt by (auto simp: priv_ok_def)
      have "dstate s d' = ''pending''"
        using fired_way [OF iD(3) [OF b'(1)] b'(2)] b'(3) Cons Do SetSt
        by (auto simp: settling_def settled_def at_list_def Let_def)
      with d(2) s' SetSt show ?thesis by auto
    next
      case (When args)
      have "dstate (fst (new_when args s)) = dstate (Deferred s)" by (simp add: new_when_def Let_def)
      moreover have "start_when args s = (s, []) \<or> start_when args s = new_when args s"
        by (simp add: start_when_def split: list.split when_arg.split)
      ultimately show ?thesis using When s' d(2) new by auto
    qed (use s' d(2) new in \<open>auto simp: split_beta\<close>)
  qed (use step d(2) in \<open>auto simp: Let_def split_beta split: option.splits if_splits\<close>)
qed


lemma reachable_run:
  "reachable cb_start (cb_move code P) cfg \<Longrightarrow> cb_run n code cfg = Inr cfg' \<Longrightarrow> reachable cb_start (cb_move code P) cfg'"
proof (induction n arbitrary: cfg)
  case (Suc n)
  obtain s ts where c: "cfg = (s, ts)" by fastforce
  from Suc.prems(2) obtain cfg1 where st: "cb_step code cfg = Inr cfg1" "cb_run n code cfg1 = Inr cfg'"
    by (auto split: sum.splits)
  have "reachable cb_start (cb_move code P) cfg1"
  proof (cases ts)
    case Nil
    with st(1) c Suc.prems(1) show ?thesis by simp
  next
    case (Cons t ts')
    with st(1) c show ?thesis by (intro reachable_move [OF Suc.prems(1)]) (simp add: cb_move_def)
  qed
  with Suc.IH st(2) show ?case by blast
qed simp

lemma reachable_page:
  "reachable cb_start (cb_move code P) (s, []) \<Longrightarrow> P a \<Longrightarrow> cb_run n code (s, [Do a]) = Inr cfg \<Longrightarrow>
   reachable cb_start (cb_move code P) cfg"
  by (rule reachable_run [OF reachable_move]) (auto simp: cb_move_def)

text \<open>A page that makes some calls, one after the other.\<close>

primrec page_run :: "nat \<Rightarrow> code \<Rightarrow> act list \<Rightarrow> sys \<Rightarrow> sys option" where
  "page_run n code [] s = Some s"
| "page_run n code (a # as) s = (case cb_run n code (s, [Do a]) of
     Inr (s', []) \<Rightarrow> page_run n code as s' | _ \<Rightarrow> None)"

lemma reachable_page_run:
  "reachable cb_start (cb_move code P) (s, []) \<Longrightarrow> list_all P as \<Longrightarrow> page_run n code as s = Some s' \<Longrightarrow>
   reachable cb_start (cb_move code P) (s', [])"
proof (induction as arbitrary: s)
  case (Cons a as)
  then obtain s1 where r: "cb_run n code (s, [Do a]) = Inr (s1, [])" "page_run n code as s1 = Some s'"
    by (auto split: sum.splits list.splits)
  have "reachable cb_start (cb_move code P) (s1, [])" by (rule reachable_page [OF Cons.prems(1) _ r(1)]) (use Cons.prems in simp)
  with Cons.IH r(2) Cons.prems(2) show ?case by simp
qed simp

text \<open>
  A page that creates a deferred, registers a callback, resolves the deferred, tries to reject
  it and registers another callback.
\<close>

definition settle_page :: "act list" where
  "settle_page = [NewDeferred, Add 0 [User 7], FireWith 0 (Promise 0, []), FireWith 1 (Promise 0, []), Add 0 [User 8]]"

definition quiet_code :: code where
  "quiet_code = (\<lambda>u d. ([], Value Undef))"

lemma settle_page_result:
  "case page_run 30 quiet_code settle_page sys0 of
     Some s \<Rightarrow> dstate s 0 = ''resolved'' \<and> added s 0 = [User 7, User 8] | None \<Rightarrow> False"
  by code_simp


end
