(* ===== verification/JQuery_Param.thy ===== *)
theory JQuery_Param
  imports Doctools JQuery_Core
begin

text \<open>
  The serialisation of data into query strings (jquery.js): \<open>buildParams\<close>,
  \<open>jQuery.param\<close>, \<open>serializeArray\<close> and \<open>serialize\<close>. Shown, together with the
  parser of doctools.js: what a form sends is read back by \<open>jQuery.getQueryParameters\<close>.
\<close>

section \<open>Parameters\<close>

text \<open>\<open>s.replace(/%20/g, "+")\<close>\<close>

fun replace_r20 :: "string \<Rightarrow> string" where
  "replace_r20 (a # b # c # cs) = (if a = CHR ''%'' \<and> b = CHR ''2'' \<and> c = CHR ''0'' then CHR ''+'' # replace_r20 cs
     else a # replace_r20 (b # c # cs))"
| "replace_r20 cs = cs"

text \<open>\<open>rbracket.test(prefix)\<close>\<close>

definition ends_bracket :: "string \<Rightarrow> bool" where
  "ends_bracket p \<longleftrightarrow> 2 \<le> length p \<and> drop (length p - 2) p = ''[]''"

text \<open>The function \<open>add\<close>: a value that is a function is called.\<close>

definition param_value :: "heap \<Rightarrow> (nat \<Rightarrow> 's fn) \<Rightarrow> jsval \<Rightarrow> ('s, jsval) js" where
  "param_value h code v = (if isFunction_jq h v then call_ref h code v Undef []
     else retM (if nullish v then Str [] else v))"

definition add_part :: "heap \<Rightarrow> (nat \<Rightarrow> 's fn) \<Rightarrow> string list \<Rightarrow> string \<Rightarrow> jsval \<Rightarrow> ('s, string list) js" where
  "add_part h code s key v = bindM (param_value h code v) (\<lambda>x.
     retM (s @ [encodeURIComponent key @ ''='' @ encodeURIComponent (to_str h x)]))"

text \<open>
  \<open>buildParams\<close>; \<open>depth\<close> is the depth of the call stack, which a cyclic structure exceeds.
\<close>

primrec buildParams :: "nat \<Rightarrow> heap \<Rightarrow> (nat \<Rightarrow> 's fn) \<Rightarrow> bool \<Rightarrow> string list \<Rightarrow> string \<Rightarrow> jsval \<Rightarrow> ('s, string list) js" where
  "buildParams 0 h code traditional s pre obj = throwM (RangeErr ''Maximum call stack size exceeded'')"
| "buildParams (Suc depth) h code traditional s pre obj =
     (if isArray_jq h obj then
        bindM (liftE (loop_count (to_number h (get h obj LEN)))) (\<lambda>n.
        foldM (\<lambda>s i. let v = get h obj (to_key h (nnum i)) in
          if traditional \<or> ends_bracket pre then add_part h code s pre v
          else buildParams depth h code traditional s
            (pre @ ''['' @ (if typeof h v = ''object'' then show_nat i else []) @ '']'') v) s [0..<n])
      else if \<not> traditional \<and> type_jq h obj = ''object'' then
        foldM (\<lambda>s name. buildParams depth h code traditional s (pre @ ''['' @ key_str name @ '']'') (get h obj name))
          s (for_in h obj)
      else add_part h code s pre obj)"

text \<open>
  \<open>jQuery.param\<close>: \<open>settings\<close> is \<open>jQuery.ajaxSettings.traditional\<close>, \<open>global\<close> the
  global object, which is \<open>this\<close> for an item that is null or undefined.
\<close>

definition param_jq :: "nat \<Rightarrow> bool \<Rightarrow> heap \<Rightarrow> (nat \<Rightarrow> 's fn) \<Rightarrow> jsval \<Rightarrow> jsval \<Rightarrow> jsval \<Rightarrow> jsval \<Rightarrow> ('s, string) js" where
  "param_jq depth ownLast h code global settings a traditional =
     (let trad = truthy (if traditional = Undef then settings else traditional) in
      if nullish a then throwM (TypeErr ''cannot read property of null or undefined'')
      else bindM
        (if isArray_jq h a \<or> truthy (get h a (Name ''jquery'')) \<and> \<not> isPlainObject_jq ownLast h a then
           bindM (liftE (loop_keys h a)) (\<lambda>ks. foldM (\<lambda>s i.
             let v = get h a (to_key h i); this = (if nullish v then global else v) in
             add_part h code s (to_str h (get h this (Name ''name''))) (get h this (Name ''value''))) [] ks)
         else foldM (\<lambda>s pre. buildParams depth h code trad s (key_str pre) (get h a pre)) [] (for_in h a))
        (\<lambda>s. retM (replace_r20 (join ''&'' s))))"

section \<open>Forms\<close>

text \<open>
  A control of a form, as far as \<open>serializeArray\<close> reads it; \<open>val\<close> is what
  \<open>jQuery(this).val()\<close> returns: null, a string, or the strings of a multiple selection.
\<close>

datatype control_val = NoVal | OneVal string | ManyVals "string list"

record control =
  c_name :: string
  c_type :: string
  nodeName :: string
  disabled :: bool
  checked :: bool
  val :: control_val

definition rsubmitterTypes :: "string \<Rightarrow> bool" where
  "rsubmitterTypes t \<longleftrightarrow> toLowerCase t \<in> {''submit'', ''button'', ''image'', ''reset'', ''file''}"

definition rsubmittable :: "string \<Rightarrow> bool" where
  "rsubmittable t \<longleftrightarrow> list_ex (\<lambda>p. take (length p) (toLowerCase t) = p) [''input'', ''select'', ''textarea'', ''keygen'']"

definition rcheckableType :: "string \<Rightarrow> bool" where
  "rcheckableType t \<longleftrightarrow> toLowerCase t \<in> {''checkbox'', ''radio''}"

definition successful :: "control \<Rightarrow> bool" where
  "successful c \<longleftrightarrow> c_name c \<noteq> [] \<and> \<not> disabled c \<and> rsubmittable (nodeName c) \<and> \<not> rsubmitterTypes (c_type c)
     \<and> (checked c \<or> \<not> rcheckableType (c_type c))"

text \<open>\<open>val.replace(/\r?\n/g, "\r\n")\<close>\<close>

fun replace_CRLF :: "string \<Rightarrow> string" where
  "replace_CRLF (c # d # cs) =
     (if c = CHR 13 \<and> d = CHR 10 then CHR 13 # CHR 10 # replace_CRLF cs
      else if c = CHR 10 then CHR 13 # CHR 10 # replace_CRLF (d # cs)
      else c # replace_CRLF (d # cs))"
| "replace_CRLF [c] = (if c = CHR 10 then [CHR 13, CHR 10] else [c])"
| "replace_CRLF [] = []"

text \<open>An element of the jQuery object: a form with its elements, or a control.\<close>

datatype form_item = Form "control list" | Single control

fun form_elements :: "form_item \<Rightarrow> control list" where
  "form_elements (Form cs) = cs"
| "form_elements (Single c) = [c]"

definition control_entries :: "control \<Rightarrow> (string \<times> string) list" where
  "control_entries c = (case val c of
      NoVal \<Rightarrow> []
    | OneVal v \<Rightarrow> [(c_name c, replace_CRLF v)]
    | ManyVals vs \<Rightarrow> map (\<lambda>v. (c_name c, replace_CRLF v)) vs)"

definition serializeArray :: "form_item list \<Rightarrow> (string \<times> string) list" where
  "serializeArray this = concat (map control_entries (filter successful (concat (map form_elements this))))"

definition entry_obj :: "string \<times> string \<Rightarrow> jsval" where
  "entry_obj e = PObj [(Name ''name'', Str (fst e)), (Name ''value'', Str (snd e))]"

definition serialize :: "nat \<Rightarrow> bool \<Rightarrow> heap \<Rightarrow> (nat \<Rightarrow> 's fn) \<Rightarrow> jsval \<Rightarrow> jsval \<Rightarrow> form_item list \<Rightarrow> ('s, string) js" where
  "serialize depth ownLast h code global settings this =
     param_jq depth ownLast h code global settings (Arr (map entry_obj (serializeArray this))) Undef"

section \<open>Encoding with plus signs\<close>

lemma r20_other: "a \<noteq> CHR ''%'' \<Longrightarrow> replace_r20 (a # cs) = a # replace_r20 cs"
  by (cases "a # cs" rule: replace_r20.cases) auto

lemma hex_digit_facts:
  assumes "d < 16"
  shows "hex_digit d \<noteq> CHR ''%''" "hex_digit d = CHR ''2'' \<longleftrightarrow> d = 2" "hex_digit d = CHR ''0'' \<longleftrightarrow> d = 0"
  using less_16_cases [OF assms] by (auto simp: hex_digit_def)

lemma r20_percent:
  assumes "b < 256"
  shows "replace_r20 (percent b @ cs) = (if b = 32 then CHR ''+'' # replace_r20 cs else percent b @ replace_r20 cs)"
proof -
  have d: "b div 16 < 16" "b mod 16 < 16" using assms by (simp_all add: less_mult_imp_div_less)
  have "b = 32 \<longleftrightarrow> b div 16 = 2 \<and> b mod 16 = 0"
    using div_mult_mod_eq [of b 16] by auto
  then show ?thesis
    using hex_digit_facts [OF d(1)] hex_digit_facts [OF d(2)] by (simp add: percent_def r20_other)
qed

lemma r20_encode_char:
  "replace_r20 (encode_char c @ cs) = (if c = CHR '' '' then ''+'' else encode_char c) @ replace_r20 cs"
proof -
  have n: "(of_char c :: nat) < 256" by simp
  then have b: "192 + (of_char c :: nat) div 64 < 256" "128 + (of_char c :: nat) mod 64 < 256" by linarith+
  have sp: "c = CHR '' '' \<longleftrightarrow> (of_char c :: nat) = 32"
    using of_char_eq_iff [where ?'a = nat, of c "CHR '' ''"] by simp
  show ?thesis
  proof (cases "unreserved c")
    case True
    then have "c \<noteq> CHR ''%''" "c \<noteq> CHR '' ''" by (auto simp: unreserved_def is_digit_def Let_def)
    with True show ?thesis by (simp add: encode_char_def Let_def r20_other)
  next
    case False
    with sp r20_percent [OF n] r20_percent [OF b(1)] r20_percent [OF b(2)] r20_percent [of 32] show ?thesis
      by (simp add: encode_char_def Let_def)
  qed
qed


lemma r20_encode: "replace_r20 (encodeURIComponent s @ cs) = concat (map (\<lambda>c. if c = CHR '' '' then ''+'' else encode_char c) s) @ replace_r20 cs"
  by (induction s) (simp_all add: encodeURIComponent_def r20_encode_char)

definition plus_encode :: "string \<Rightarrow> string" where
  "plus_encode s = concat (map (\<lambda>c. if c = CHR '' '' then ''+'' else encode_char c) s)"

lemma r20_plus: "replace_r20 (encodeURIComponent s @ cs) = plus_encode s @ replace_r20 cs"
  by (simp add: r20_encode plus_encode_def)

lemma r20_join:
  "replace_r20 (join ''&'' (map (\<lambda>kv. encodeURIComponent (fst kv) @ ''='' @ encodeURIComponent (snd kv)) kvs))
   = join ''&'' (map (\<lambda>kv. plus_encode (fst kv) @ ''='' @ plus_encode (snd kv)) kvs)"
proof (induction kvs rule: induct_list012)
  case (2 kv)
  have "replace_r20 (encodeURIComponent (snd kv) @ []) = plus_encode (snd kv) @ []" by (subst r20_plus) simp
  then show ?case by (simp add: r20_plus r20_other)
next
  case (3 kv kv' kvs)
  then show ?case by (simp add: r20_plus r20_other)
qed simp

lemma plus_encode_chars: "x \<in> set (plus_encode s) \<Longrightarrow> x \<noteq> CHR ''&'' \<and> x \<noteq> CHR ''=''"
proof -
  assume "x \<in> set (plus_encode s)"
  then obtain c where "x = CHR ''+'' \<or> x \<in> set (encode_char c)" by (auto simp: plus_encode_def split: if_splits)
  moreover have "x \<in> set (urlencode [c]) \<Longrightarrow> x \<noteq> CHR ''&'' \<and> x \<noteq> CHR ''=''" using encoded_chars by blast
  ultimately show ?thesis by (auto simp: urlencode_def encodeURIComponent_def)
qed

lemma decode_plus: "length s \<le> n \<Longrightarrow> decode_n n (plus_encode s) = Some (map (\<lambda>c. if c = CHR '' '' then CHR ''+'' else c) s)"
proof (induction s arbitrary: n)
  case (Cons c s)
  then obtain m where m: "n = Suc m" "length s \<le> m" by (cases n) auto
  let ?e = "if c = CHR '' '' then ''+'' else encode_char c"
  have e: "plus_encode (c # s) = ?e @ plus_encode s" by (simp add: plus_encode_def)
  have "decode_next (?e @ plus_encode s) = Some (if c = CHR '' '' then CHR ''+'' else c, plus_encode s)"
    using decode_next_encode [of c "plus_encode s"] by (simp add: decode_next_def)
  moreover obtain x xs where x: "?e @ plus_encode s = x # xs"
    using encode_char_ne [of c] by (cases "?e @ plus_encode s") (auto split: if_splits)
  ultimately show ?case using m Cons.IH [OF m(2)] by (simp add: e)
qed (simp add: plus_encode_def)

lemma length_plus_encode: "length s \<le> length (plus_encode s)"
proof (induction s)
  case (Cons c s)
  have "Suc 0 \<le> length (encode_char c)" using encode_char_ne by (simp add: Suc_le_eq)
  with Cons show ?case by (simp add: plus_encode_def del: length_greater_0_conv length_0_conv)
qed simp

lemma urldecode_plus_encode: "CHR ''+'' \<notin> set s \<Longrightarrow> urldecode (plus_encode s) = Some s"
  by (auto simp: urldecode_def decodeURIComponent_def decode_plus length_plus_encode intro!: map_idI)

lemma reads_as_plus:
  assumes "CHR ''+'' \<notin> set (fst kv) \<union> set (snd kv)"
  shows "reads_as (plus_encode (fst kv) @ ''='' @ plus_encode (snd kv)) kv"
proof -
  have no: "CHR ''='' \<notin> set (plus_encode s)" for s using plus_encode_chars by blast
  have "split_on (CHR ''='') (plus_encode (fst kv) @ ''='' @ plus_encode (snd kv)) = [plus_encode (fst kv), plus_encode (snd kv)]"
    using split_on_append [OF no] split_on_none [OF no] by simp
  then show ?thesis using assms by (simp add: reads_as_def split_pair_def urldecode_plus_encode)
qed

section \<open>Forms and query parameters\<close>

lemma loop_keys_Arr:
  assumes "chain_get h ArrayProto (Name ''window'') = None"
  shows "loop_keys h (Arr xs) = Inr (map nnum [0..<length xs])"
proof -
  have "get h (Arr xs) (Name ''window'') = Undef" using assms by (simp add: get_def lookup_prop_def)
  then have "\<not> isWindow_jq h (Arr xs)" by (simp add: isWindow_jq_def loose_eq_def)
  moreover have "type_jq h (Arr xs) = ''array''" by (simp add: type_jq_def class2type_def toString_call_def)
  ultimately show ?thesis by (simp add: loop_keys_def isArraylike_jq_def Let_def)
qed

lemma add_part_Str: "add_part h code s k (Str v) = retM (s @ [encodeURIComponent k @ ''='' @ encodeURIComponent v])"
  by (simp add: add_part_def param_value_def isFunction_jq_def type_jq_def)


lemma foldM_collect: "foldM (\<lambda>s x. retM (s @ [f x])) s xs = retM (s @ map f xs)"
  by (induction xs arbitrary: s) simp_all

lemma foldM_cong_on:
  "(\<And>s x. x \<in> set xs \<Longrightarrow> f s x = g s x) \<Longrightarrow> foldM f s xs = foldM g s xs"
  by (induction xs arbitrary: s) simp_all

lemma param_entries:
  assumes "chain_get h ArrayProto (Name ''window'') = None" "length es < 4294967295"
  shows "param_jq depth ownLast h code global settings (Arr (map entry_obj es)) Undef
    = retM (join ''&'' (map (\<lambda>kv. plus_encode (fst kv) @ ''='' @ plus_encode (snd kv)) es))"
proof -
  let ?f = "\<lambda>kv. encodeURIComponent (fst kv) @ ''='' @ encodeURIComponent (snd kv)"
  let ?a = "Arr (map entry_obj es)"
  have entry: "get h (entry_obj e) (Name ''name'') = Str (fst e)" "get h (entry_obj e) (Name ''value'') = Str (snd e)"
    "\<not> nullish (entry_obj e)" for e
    by (simp_all add: entry_obj_def get_def lookup_prop_def)
  have "foldM (\<lambda>s i. let v = get h ?a (to_key h i); this = (if nullish v then global else v) in
        add_part h code s (to_str h (get h this (Name ''name''))) (get h this (Name ''value''))) [] (map nnum [0..<length es])
      = foldM (\<lambda>s i. retM (s @ [?f (es ! nat (case i of Num (Fin n) \<Rightarrow> n | _ \<Rightarrow> 0))])) [] (map nnum [0..<length es])"
    using assms(2) by (intro foldM_cong_on) (auto simp: entry add_part_Str Let_def)
  also have "\<dots> = retM (map ?f es)"
  proof -
    have "map (\<lambda>i. ?f (es ! i)) [0..<length es] = map ?f es" by (rule nth_equalityI) simp_all
    then show ?thesis unfolding foldM_collect by (simp add: comp_def)
  qed
  finally show ?thesis
    using loop_keys_Arr [OF assms(1), of "map entry_obj es"] r20_join [of es]
    by (simp add: param_jq_def isArray_jq_def)
qed

text \<open>
  C18. What a form sends is what the parser reads: \<open>serialize\<close> succeeds, without calling
  any function of the page, and \<open>getQueryParameters\<close> of the query string it makes gives,
  for every name, the values of the successful controls with that name, in the order of the
  form and with line breaks as CR LF; spaces survive as plus signs. As before no string may
  have a plus sign and no name may be an inherited property.
\<close>

theorem form_roundtrip:
  assumes "chain_get h ArrayProto (Name ''window'') = None" "length (serializeArray form) < 4294967295" "serializeArray form \<noteq> []"
    and "\<forall>kv\<in>set (serializeArray form). not_inherited h (fst kv) \<and> CHR ''+'' \<notin> set (fst kv) \<union> set (snd kv)"
  shows "\<exists>q ps. serialize depth ownLast h code global settings form = retM q
    \<and> getQueryParameters h (''?'' @ q) = Inr ps
    \<and> (\<forall>k. map_of ps (str_key k) = (let vs = values_of (serializeArray form) k in
         if vs = [] then None else Some (Arr (map Str vs))))"
proof -
  let ?es = "serializeArray form" and ?part = "\<lambda>kv. plus_encode (fst kv) @ ''='' @ plus_encode (snd kv)"
  have "serialize depth ownLast h code global settings form = retM (join ''&'' (map ?part ?es))"
    unfolding serialize_def by (rule param_entries [OF assms(1,2)])
  moreover have "\<exists>ps. getQueryParameters h (''?'' @ join ''&'' (map ?part ?es)) = Inr ps \<and> holds_values ?es ps"
  proof (rule getQueryParameters_parts)
    show "\<forall>w\<in>set (map ?part ?es). CHR ''&'' \<notin> set w" using plus_encode_chars by fastforce
    show "list_all2 reads_as (map ?part ?es) ?es"
      using assms(4) reads_as_plus by (simp add: list_all2_map1 list_all2_same)
  qed (use assms in auto)
  ultimately show ?thesis by (auto simp: holds_values_def Let_def)
qed


theorem form_roundtrip_witness:
  "\<exists>q ps. serialize 5 False [] (\<lambda>r this vs. retM Undef) Undef Undef
      [Form [\<lparr>c_name = ''q'', c_type = ''text'', nodeName = ''INPUT'', disabled = False, checked = False, val = OneVal ''a & b''\<rparr>,
             \<lparr>c_name = ''go'', c_type = ''submit'', nodeName = ''INPUT'', disabled = False, checked = False, val = OneVal ''Go''\<rparr>,
             \<lparr>c_name = ''t'', c_type = ''select-multiple'', nodeName = ''SELECT'', disabled = False, checked = False,
               val = ManyVals [''x'', ''y'']\<rparr>]] () = (Inr q, ())
    \<and> getQueryParameters [] (''?'' @ q) = Inr ps
    \<and> map_of ps (str_key ''q'') = Some (Arr [Str ''a & b'']) \<and> map_of ps (str_key ''t'') = Some (Arr [Str ''x'', Str ''y''])"
proof -
  let ?form = "[Form [\<lparr>c_name = ''q'', c_type = ''text'', nodeName = ''INPUT'', disabled = False, checked = False, val = OneVal ''a & b''\<rparr>,
             \<lparr>c_name = ''go'', c_type = ''submit'', nodeName = ''INPUT'', disabled = False, checked = False, val = OneVal ''Go''\<rparr>,
             \<lparr>c_name = ''t'', c_type = ''select-multiple'', nodeName = ''SELECT'', disabled = False, checked = False,
               val = ManyVals [''x'', ''y'']\<rparr>]]"
  have es: "serializeArray ?form = [(''q'', ''a & b''), (''t'', ''x''), (''t'', ''y'')]" by code_simp
  have chain: "chain_get [] ArrayProto (Name ''window'') = None" "not_inherited [] ''q''" "not_inherited [] ''t''" by code_simp+
  have "\<exists>q ps. serialize 5 False [] (\<lambda>r this vs. retM Undef) Undef Undef ?form = (retM q :: (unit, string) js)
    \<and> getQueryParameters [] (''?'' @ q) = Inr ps
    \<and> (\<forall>k. map_of ps (str_key k) = (let vs = values_of (serializeArray ?form) k in
         if vs = [] then None else Some (Arr (map Str vs))))"
    by (rule form_roundtrip [OF chain(1)]) (simp_all add: es chain)
  then obtain q ps where q: "serialize 5 False [] (\<lambda>r this vs. retM Undef) Undef Undef ?form = (retM q :: (unit, string) js)"
    "getQueryParameters [] (''?'' @ q) = Inr ps"
    and v: "\<And>k. map_of ps (str_key k) = (let vs = values_of (serializeArray ?form) k in
         if vs = [] then None else Some (Arr (map Str vs)))" by blast
  have "map_of ps (str_key ''q'') = Some (Arr [Str ''a & b''])" "map_of ps (str_key ''t'') = Some (Arr [Str ''x'', Str ''y''])"
    unfolding v es by (simp_all add: values_of_def)
  with q show ?thesis by (metis retM_app)
qed

end
