(* ===== verification/JQuery_Classes.thy ===== *)
theory JQuery_Classes
  imports Doctools JQuery_Callbacks
begin

text \<open>
  The class attribute (jquery.js): \<open>addClass\<close>, \<open>removeClass\<close>, \<open>toggleClass\<close> and
  \<open>hasClass\<close>, which work on the string of class names by searching and replacing in it.
  Shown: they are the operations on the list of class names that the string stands for.
\<close>

section \<open>Elements and arguments\<close>

text \<open>A node, with what \<open>toggleClass\<close> keeps in its data under \<open>__className__\<close>.\<close>

record elt =
  nodeType :: nat
  className :: string
  saved :: "string option"

text \<open>
  The argument: a string, a function of the index and the class names (of the page, without
  effects of its own), a boolean, undefined or something else.
\<close>

datatype class_arg = ClassStr string | ClassFn "nat \<Rightarrow> string \<Rightarrow> class_arg" | ClassBool bool | ClassUndef | ClassOther

text \<open>\<open>(" " + s + " ").replace(rclass, " ")\<close>\<close>

definition rclass :: "char \<Rightarrow> bool" where
  "rclass c \<longleftrightarrow> (of_char c :: nat) \<in> {9, 13, 10, 12}"

definition padded :: "string \<Rightarrow> string" where
  "padded s = map (\<lambda>c. if rclass c then CHR '' '' else c) ('' '' @ s @ '' '')"

definition pad_class :: "string \<Rightarrow> string" where
  "pad_class c = '' '' @ c @ '' ''"

section \<open>The operations\<close>

definition add_name :: "string \<Rightarrow> string \<Rightarrow> string" where
  "add_name cur clazz = (if indexOf_str cur (pad_class clazz) < 0 then cur @ clazz @ '' '' else cur)"

definition addClass_elem :: "string list \<Rightarrow> elt \<Rightarrow> elt" where
  "addClass_elem classes el = (if nodeType el = 1
     then el\<lparr>className := trim (foldl add_name (if className el \<noteq> [] then padded (className el) else '' '') classes)\<rparr>
     else el)"

primrec addClass_at :: "class_arg \<Rightarrow> nat \<Rightarrow> elt \<Rightarrow> elt" where
  "addClass_at (ClassStr v) j el = (if v = [] then el else addClass_elem (nonblank_words [] v) el)"
| "addClass_at (ClassFn f) j el = addClass_at (f j (className el)) 0 el"
| "addClass_at (ClassBool b) j el = el"
| "addClass_at ClassUndef j el = el"
| "addClass_at ClassOther j el = el"

definition addClass :: "class_arg \<Rightarrow> elt list \<Rightarrow> elt list" where
  "addClass v this = map (\<lambda>(j, el). addClass_at v j el) (indexed this)"

text \<open>\<open>cur.replace(t, " ")\<close>: the first occurrence.\<close>

definition replace_first :: "string \<Rightarrow> string \<Rightarrow> string" where
  "replace_first t cur = (let i = nat (indexOf_str cur t) in take i cur @ '' '' @ drop (i + length t) cur)"

lemma index_from_split:
  "0 \<le> index_from i t s \<Longrightarrow> \<exists>pre post. s = pre @ t @ post \<and> index_from i t s = int (i + length pre)"
proof (induction s arbitrary: i)
  case (Cons c cs)
  show ?case
  proof (cases "take (length t) (c # cs) = t")
    case True
    then have "c # cs = [] @ t @ drop (length t) (c # cs)" by (metis append_Nil append_take_drop_id)
    with True show ?thesis by (metis index_from.simps(2) list.size(3) add_0_right)
  next
    case False
    with Cons.prems obtain pre post where "cs = pre @ t @ post" "index_from (Suc i) t cs = int (Suc i + length pre)"
      using Cons.IH [of "Suc i"] by auto
    with False show ?thesis by (intro exI [of _ "c # pre"] exI [of _ post]) simp
  qed
qed (auto split: if_splits)

lemma index_from_found: "s = pre @ t @ post \<Longrightarrow> 0 \<le> index_from i t s"
proof (induction s arbitrary: i pre)
  case (Cons c cs)
  show ?case
  proof (cases pre)
    case Nil
    with Cons.prems have "take (length t) (c # cs) = t" by (metis append_Nil append_eq_conv_conj)
    then show ?thesis by simp
  next
    case (Cons p ps)
    with Cons.prems Cons.IH [of ps "Suc i"] show ?thesis by simp
  qed
qed simp

lemma indexOf_str_split:
  assumes "0 \<le> indexOf_str s t"
  obtains pre post where "s = pre @ t @ post" "indexOf_str s t = int (length pre)"
  using index_from_split [of 0 t s] assms by (auto simp: indexOf_str_def)

lemma indexOf_str_found: "0 \<le> indexOf_str s t \<longleftrightarrow> (\<exists>pre post. s = pre @ t @ post)"
proof
  assume "0 \<le> indexOf_str s t"
  then obtain pre post where "s = pre @ t @ post" by (rule indexOf_str_split)
  then show "\<exists>pre post. s = pre @ t @ post" by blast
next
  assume "\<exists>pre post. s = pre @ t @ post"
  then show "0 \<le> indexOf_str s t" unfolding indexOf_str_def using index_from_found by blast
qed

lemma replace_first_split:
  assumes "0 \<le> indexOf_str s t"
  obtains pre post where "s = pre @ t @ post" "replace_first t s = pre @ '' '' @ post"
proof -
  obtain pre post where p: "s = pre @ t @ post" "indexOf_str s t = int (length pre)" using indexOf_str_split [OF assms] .
  then have "replace_first t s = pre @ '' '' @ post" by (simp add: replace_first_def)
  with p that show thesis by blast
qed

text \<open>The loop that removes all instances of a class name.\<close>

function remove_name :: "string \<Rightarrow> string \<Rightarrow> string" where
  "remove_name cur clazz = (if 0 \<le> indexOf_str cur (pad_class clazz)
     then remove_name (replace_first (pad_class clazz) cur) clazz else cur)"
  by pat_completeness auto
termination
proof (relation "measure (length \<circ> fst)")
  fix cur clazz assume "0 \<le> indexOf_str cur (pad_class clazz)"
  then obtain pre post where "cur = pre @ pad_class clazz @ post" "replace_first (pad_class clazz) cur = pre @ '' '' @ post"
    by (rule replace_first_split)
  then have "length (replace_first (pad_class clazz) cur) < length cur" by (simp add: pad_class_def)
  then show "((replace_first (pad_class clazz) cur, clazz), cur, clazz) \<in> measure (length \<circ> fst)" by simp
qed simp

declare remove_name.simps [simp del]

text \<open>\<open>None\<close>: called without an argument, which removes every class.\<close>

definition removeClass_elem :: "string option \<Rightarrow> elt \<Rightarrow> elt" where
  "removeClass_elem v el = (if nodeType el = 1 \<and> className el \<noteq> []
     then (case v of
         Some val \<Rightarrow> el\<lparr>className := trim (foldl remove_name (padded (className el)) (nonblank_words [] val))\<rparr>
       | None \<Rightarrow> el\<lparr>className := []\<rparr>)
     else el)"

primrec removeClass_at :: "class_arg \<Rightarrow> nat \<Rightarrow> elt \<Rightarrow> elt" where
  "removeClass_at (ClassStr v) j el = (if v = [] then el else removeClass_elem (Some v) el)"
| "removeClass_at (ClassFn f) j el = removeClass_at (f j (className el)) 0 el"
| "removeClass_at (ClassBool b) j el = el"
| "removeClass_at ClassUndef j el = el"
| "removeClass_at ClassOther j el = el"

definition removeClass :: "class_arg option \<Rightarrow> elt list \<Rightarrow> elt list" where
  "removeClass v this = (case v of
      Some a \<Rightarrow> map (\<lambda>(j, el). removeClass_at a j el) (indexed this)
    | None \<Rightarrow> map (removeClass_elem None) this)"

definition hasClass :: "string \<Rightarrow> elt list \<Rightarrow> bool" where
  "hasClass sel this \<longleftrightarrow> list_ex (\<lambda>el. nodeType el = 1 \<and> 0 \<le> indexOf_str (padded (className el)) (pad_class sel)) this"

definition toggle_name :: "elt \<Rightarrow> string \<Rightarrow> elt" where
  "toggle_name el c = (if hasClass c [el] then removeClass_at (ClassStr c) 0 el else addClass_at (ClassStr c) 0 el)"

definition toggle_all :: "bool \<Rightarrow> elt \<Rightarrow> elt" where
  "toggle_all isFalse el = (let sv = (if className el \<noteq> [] then Some (className el) else saved el) in
     el\<lparr>saved := sv, className := (if className el \<noteq> [] \<or> isFalse then [] else (case sv of Some s \<Rightarrow> s | None \<Rightarrow> []))\<rparr>)"

primrec toggleClass_at :: "class_arg \<Rightarrow> bool option \<Rightarrow> nat \<Rightarrow> elt \<Rightarrow> elt" where
  "toggleClass_at (ClassStr v) stateVal j el = (case stateVal of
      Some True \<Rightarrow> addClass_at (ClassStr v) j el
    | Some False \<Rightarrow> removeClass_at (ClassStr v) j el
    | None \<Rightarrow> foldl toggle_name el (nonblank_words [] v))"
| "toggleClass_at (ClassFn f) stateVal j el = toggleClass_at (f j (className el)) stateVal 0 el"
| "toggleClass_at (ClassBool b) stateVal j el = toggle_all (\<not> b) el"
| "toggleClass_at ClassUndef stateVal j el = toggle_all False el"
| "toggleClass_at ClassOther stateVal j el = el"

definition toggleClass :: "class_arg \<Rightarrow> bool option \<Rightarrow> elt list \<Rightarrow> elt list" where
  "toggleClass v stateVal this = map (\<lambda>(j, el). toggleClass_at v stateVal j el) (indexed this)"

section \<open>Class names as words\<close>

lemma words_split: "is_space b \<Longrightarrow> nonblank_words acc (s @ b # t) = nonblank_words acc s @ nonblank_words [] t"
  by (induction acc s rule: nonblank_words.induct) auto

lemma words_word: "\<forall>c\<in>set s. \<not> is_space c \<Longrightarrow> nonblank_words acc s = (if acc = [] \<and> s = [] then [] else [rev acc @ s])"
  by (induction s arbitrary: acc) auto

lemma words_spaces: "\<forall>c\<in>set s. is_space c \<Longrightarrow> nonblank_words [] s = []"
  by (induction s) auto

lemma space_blank [simp]: "is_space (CHR '' '')"
  by (simp add: is_space_def)

text \<open>A class name: not empty and without white space.\<close>

definition name_ok :: "string \<Rightarrow> bool" where
  "name_ok c \<longleftrightarrow> c \<noteq> [] \<and> list_all (\<lambda>x. \<not> is_space x) c"

lemma words_name: "name_ok c \<Longrightarrow> nonblank_words [] c = [c]"
  by (simp add: name_ok_def words_word list_all_iff)

lemma words_ok: "list_all (\<lambda>x. \<not> is_space x) acc \<Longrightarrow> list_all name_ok (nonblank_words acc s)"
proof (induction s arbitrary: acc)
  case Nil
  then show ?case by (simp add: name_ok_def list_all_iff)
next
  case (Cons c s)
  from Cons.prems have "acc \<noteq> [] \<Longrightarrow> name_ok (rev acc)" by (simp add: name_ok_def list_all_iff)
  with Cons.IH [of "[]"] Cons.IH [of "c # acc"] Cons.prems show ?case by simp
qed

lemma words_around:
  assumes "name_ok c"
  shows "nonblank_words [] (pre @ pad_class c @ post) = nonblank_words [] pre @ [c] @ nonblank_words [] post"
proof -
  have "pre @ pad_class c @ post = pre @ CHR '' '' # (c @ CHR '' '' # post)" by (simp add: pad_class_def)
  then show ?thesis by (simp only: words_split [OF space_blank] words_name [OF assms])
qed

lemma words_dropWhile: "nonblank_words [] (dropWhile is_space s) = nonblank_words [] s"
  by (induction s) auto

lemma words_trim: "nonblank_words [] (trim s) = nonblank_words [] s"
proof -
  let ?t = "dropWhile is_space s" let ?r = "rev (takeWhile is_space (rev ?t))"
  have "?t = rev (dropWhile is_space (rev ?t)) @ ?r" by (metis rev_append rev_rev_ident takeWhile_dropWhile_id)
  then have e: "?t = trim s @ ?r" by (simp add: trim_def)
  have sp: "\<forall>c\<in>set ?r. is_space c" by (auto dest: set_takeWhileD)
  have "nonblank_words [] (trim s @ ?r) = nonblank_words [] (trim s)"
  proof (cases ?r)
    case (Cons b r)
    with sp have "is_space b" "\<forall>c\<in>set r. is_space c" by auto
    with Cons words_split [of b "[]" "trim s" r] words_spaces [of r] show ?thesis by simp
  qed simp
  with e words_dropWhile [of s] show ?thesis by metis
qed

text \<open>
  A string whose only white space is that of class attributes, and the search for a name in
  the padded string.
\<close>

definition simple_ws :: "string \<Rightarrow> bool" where
  "simple_ws s \<longleftrightarrow> list_all (\<lambda>c. is_space c \<longrightarrow> rclass c \<or> c = CHR '' '') s"

definition blanks_only :: "string \<Rightarrow> bool" where
  "blanks_only s \<longleftrightarrow> list_all (\<lambda>c. is_space c \<longrightarrow> c = CHR '' '') s"

lemma rclass_space: "rclass c \<Longrightarrow> is_space c"
  by (auto simp: rclass_def is_space_def)

lemma words_map: "nonblank_words acc (map (\<lambda>c. if rclass c then CHR '' '' else c) s) = nonblank_words acc s"
  by (induction acc s rule: nonblank_words.induct) (auto simp: rclass_space)

lemma rclass_blank [simp]: "\<not> rclass (CHR '' '')"
  by (simp add: rclass_def)

lemma padded_eq: "padded s = '' '' @ map (\<lambda>c. if rclass c then CHR '' '' else c) s @ '' ''"
  by (simp add: padded_def)

lemma words_padded: "nonblank_words [] (padded s) = nonblank_words [] s"
  using words_split [of "CHR '' ''" "[]" "map (\<lambda>c. if rclass c then CHR '' '' else c) s" "[]"]
  by (simp add: padded_eq words_map)

lemma words_found:
  "blanks_only s \<Longrightarrow> c \<in> set (nonblank_words [] s) \<Longrightarrow> \<exists>pre post. '' '' @ s @ '' '' = pre @ pad_class c @ post"
proof (induction "length s" arbitrary: s rule: less_induct)
  case less
  let ?w = "takeWhile (\<lambda>x. \<not> is_space x) s" and ?r = "dropWhile (\<lambda>x. \<not> is_space x) s"
  have s: "s = ?w @ ?r" by simp
  have w: "\<forall>x\<in>set ?w. \<not> is_space x" by (auto dest: set_takeWhileD)
  show ?case
  proof (cases ?r)
    case Nil
    then have "s = ?w" by (metis append_Nil2 s)
    with w less.prems(2) have "c = s" using words_word [of s "[]"] by (auto split: if_splits)
    then show ?thesis by (intro exI [of _ "[]"]) (simp add: pad_class_def)
  next
    case (Cons b t)
    then have "is_space b" by (metis dropWhile_eq_Cons_conv)
    moreover have sb: "s = ?w @ b # t" using s Cons by simp
    then have "b \<in> set s" by (metis in_set_conv_decomp)
    ultimately have b: "b = CHR '' ''" using less.prems(1) by (auto simp: blanks_only_def list_all_iff)
    have "nonblank_words [] s = nonblank_words [] ?w @ nonblank_words [] t"
      using words_split [OF \<open>is_space b\<close>, of "[]" ?w t] sb by simp
    then consider "c = ?w" | "c \<in> set (nonblank_words [] t)"
      using less.prems(2) words_word [OF w, of "[]"] by (auto split: if_splits)
    then show ?thesis
    proof cases
      case 1
      with sb b show ?thesis by (intro exI [of _ "[]"] exI [of _ "t @ '' ''"]) (simp add: pad_class_def)
    next
      case 2
      have "length t < length s" using arg_cong [OF sb, of length] by simp
      moreover have "blanks_only t" using less.prems(1) sb by (auto simp: blanks_only_def list_all_iff) (metis UnCI list.set_intros(2) set_append)
      ultimately obtain pre post where p: "'' '' @ t @ '' '' = pre @ pad_class c @ post" using less.hyps 2 by blast
      have "'' '' @ (?w @ b # t) @ '' '' = ('' '' @ ?w) @ ('' '' @ t @ '' '')" using b by simp
      also have "\<dots> = ('' '' @ ?w @ pre) @ pad_class c @ post" unfolding p by simp
      finally show ?thesis using sb by metis
    qed
  qed
qed

text \<open>The strings the loops work on: bounded by blanks, which are their only white space.\<close>

definition shaped :: "string \<Rightarrow> bool" where
  "shaped s \<longleftrightarrow> s \<noteq> [] \<and> hd s = CHR '' '' \<and> last s = CHR '' '' \<and> blanks_only s"

lemma shaped_blank: "shaped '' ''"
  by (simp add: shaped_def blanks_only_def)

lemma shaped_padded: "simple_ws s \<Longrightarrow> shaped (padded s)"
  by (auto simp: shaped_def padded_eq blanks_only_def simple_ws_def list_all_iff)

lemma blanks_only_append [simp]: "blanks_only (s @ t) \<longleftrightarrow> blanks_only s \<and> blanks_only t"
  by (simp add: blanks_only_def)

lemma blanks_only_simps [simp]: "blanks_only []" "blanks_only (CHR '' '' # s) \<longleftrightarrow> blanks_only s"
  by (simp_all add: blanks_only_def)

lemma blanks_only_name: "name_ok c \<Longrightarrow> blanks_only c"
  by (auto simp: name_ok_def blanks_only_def list_all_iff)

lemma shaped_cases:
  assumes "shaped s"
  obtains "s = '' ''" | t where "s = '' '' @ t @ '' ''" "blanks_only t"
proof -
  from assms obtain u where u: "s = CHR '' '' # u" "u \<noteq> [] \<longrightarrow> last u = CHR '' ''" "blanks_only u"
    by (cases s) (auto simp: shaped_def split: if_splits)
  show thesis
  proof (cases u rule: rev_cases)
    case Nil
    with u that(1) show thesis by simp
  next
    case (snoc t b)
    with u that(2) [of t] show thesis by simp
  qed
qed

lemma shaped_found:
  assumes "shaped s" "name_ok c"
  shows "0 \<le> indexOf_str s (pad_class c) \<longleftrightarrow> c \<in> set (nonblank_words [] s)"
proof
  assume "0 \<le> indexOf_str s (pad_class c)"
  then show "c \<in> set (nonblank_words [] s)"
    unfolding indexOf_str_found using words_around [OF assms(2)] by auto
next
  assume c: "c \<in> set (nonblank_words [] s)"
  from assms(1) show "0 \<le> indexOf_str s (pad_class c)"
  proof (cases rule: shaped_cases)
    case 1
    with c show ?thesis by simp
  next
    case (2 t)
    have "nonblank_words [] ('' '' @ t @ '' '') = nonblank_words [] t"
      using words_split [OF space_blank, of "[]" t "[]"] by simp
    with 2 c show ?thesis unfolding indexOf_str_found using words_found [of t c] by auto
  qed
qed

definition insert_word :: "string list \<Rightarrow> string \<Rightarrow> string list" where
  "insert_word cs c = (if c \<in> set cs then cs else cs @ [c])"

lemma add_name_words:
  assumes "shaped s" "name_ok c"
  shows "shaped (add_name s c) \<and> nonblank_words [] (add_name s c) = insert_word (nonblank_words [] s) c"
proof (cases "c \<in> set (nonblank_words [] s)")
  case True
  with shaped_found [OF assms] assms(1) show ?thesis by (simp add: add_name_def insert_word_def)
next
  case False
  have u: "s = butlast s @ '' ''" using assms(1) by (metis append_butlast_last_id shaped_def)
  have "nonblank_words [] (butlast s @ CHR '' '' # (c @ CHR '' '' # [])) = nonblank_words [] (butlast s) @ [c]"
    by (simp only: words_split [OF space_blank] words_name [OF assms(2)]) simp
  moreover have "nonblank_words [] (butlast s @ CHR '' '' # []) = nonblank_words [] (butlast s)"
    by (simp only: words_split [OF space_blank]) simp
  ultimately have "nonblank_words [] (s @ c @ '' '') = nonblank_words [] s @ [c]" using u by (metis append.assoc append_Cons append_Nil)
  moreover have "shaped (s @ c @ '' '')" using assms blanks_only_name [OF assms(2)] by (auto simp: shaped_def blanks_only_def)
  ultimately show ?thesis using False shaped_found [OF assms] by (simp add: add_name_def insert_word_def)
qed

lemma add_names:
  "shaped s \<Longrightarrow> list_all name_ok cs \<Longrightarrow>
   shaped (foldl add_name s cs) \<and> nonblank_words [] (foldl add_name s cs) = foldl insert_word (nonblank_words [] s) cs"
proof (induction cs arbitrary: s)
  case (Cons c cs)
  with add_name_words [of s c] Cons.IH [of "add_name s c"] show ?case by simp
qed simp

lemma shaped_cut: "shaped (pre @ pad_class c @ post) \<Longrightarrow> shaped (pre @ '' '' @ post)"
  unfolding shaped_def pad_class_def by (cases pre) simp_all

lemma remove_name_words:
  "shaped s \<Longrightarrow> name_ok c \<Longrightarrow>
   shaped (remove_name s c) \<and> nonblank_words [] (remove_name s c) = filter (\<lambda>w. w \<noteq> c) (nonblank_words [] s)"
proof (induction s c rule: remove_name.induct)
  case (1 s c)
  show ?case
  proof (cases "0 \<le> indexOf_str s (pad_class c)")
    case True
    obtain pre post where p: "s = pre @ pad_class c @ post" "replace_first (pad_class c) s = pre @ '' '' @ post"
      using replace_first_split [OF True] .
    have "shaped (pre @ '' '' @ post)"
      by (rule shaped_cut) (use "1.prems"(1) p(1) in simp)
    moreover have "nonblank_words [] (pre @ CHR '' '' # post) = nonblank_words [] pre @ nonblank_words [] post"
      by (simp only: words_split [OF space_blank])
    moreover have "remove_name s c = remove_name (pre @ '' '' @ post) c" using True p(2) by (subst remove_name.simps) simp
    ultimately show ?thesis
      using "1.IH" [OF True] "1.prems"(2) words_around [OF "1.prems"(2), of pre post] p by simp
  next
    case False
    then have "remove_name s c = s" by (simp add: remove_name.simps [of s c])
    moreover have "c \<notin> set (nonblank_words [] s)" using False shaped_found "1.prems" by blast
    then have "filter (\<lambda>w. w \<noteq> c) (nonblank_words [] s) = nonblank_words [] s" by (intro filter_True) auto
    ultimately show ?thesis using "1.prems"(1) by simp
  qed
qed

lemma remove_names:
  "shaped s \<Longrightarrow> list_all name_ok cs \<Longrightarrow>
   shaped (foldl remove_name s cs) \<and> nonblank_words [] (foldl remove_name s cs) = filter (\<lambda>w. w \<notin> set cs) (nonblank_words [] s)"
proof (induction cs arbitrary: s)
  case (Cons c cs)
  with remove_name_words [of s c] Cons.IH [of "remove_name s c"] show ?case by (auto intro: filter_cong)
qed simp

text \<open>The class names of an element.\<close>

definition class_names :: "elt \<Rightarrow> string list" where
  "class_names el = nonblank_words [] (className el)"

lemma simple_ws_trim: "shaped s \<Longrightarrow> simple_ws (trim s)"
proof -
  assume "shaped s"
  then have "blanks_only s" by (simp add: shaped_def)
  moreover have "set (trim s) \<subseteq> set s" unfolding trim_def by (auto dest!: set_dropWhileD)
  ultimately show ?thesis by (auto simp: blanks_only_def simple_ws_def list_all_iff)
qed

definition class_elem :: "elt \<Rightarrow> bool" where
  "class_elem el \<longleftrightarrow> nodeType el = 1 \<and> simple_ws (className el)"

lemma addClass_words:
  assumes "class_elem el"
  shows "class_elem (addClass_at (ClassStr v) j el)
    \<and> class_names (addClass_at (ClassStr v) j el) = foldl insert_word (class_names el) (nonblank_words [] v)"
proof (cases "v = []")
  case False
  let ?s = "if className el \<noteq> [] then padded (className el) else '' ''"
  have s: "shaped ?s" using shaped_padded shaped_blank assms by (simp add: class_elem_def)
  have "nonblank_words [] ?s = class_names el" by (simp add: class_names_def words_padded)
  with add_names [OF s, of "nonblank_words [] v"] words_ok [of "[]" v] simple_ws_trim False assms show ?thesis
    by (simp add: addClass_elem_def class_names_def class_elem_def words_trim)
qed (use assms in \<open>simp add: class_names_def\<close>)

lemma removeClass_words:
  assumes "class_elem el"
  shows "class_elem (removeClass_at (ClassStr v) j el)
    \<and> class_names (removeClass_at (ClassStr v) j el) = filter (\<lambda>w. w \<notin> set (nonblank_words [] v)) (class_names el)"
proof (cases "v = [] \<or> className el = []")
  case False
  have s: "shaped (padded (className el))" using shaped_padded assms by (simp add: class_elem_def)
  from remove_names [OF s, of "nonblank_words [] v"] words_ok [of "[]" v] simple_ws_trim False assms show ?thesis
    by (simp add: removeClass_elem_def class_names_def class_elem_def words_trim words_padded)
qed (use assms in \<open>auto simp: class_names_def removeClass_elem_def\<close>)

lemma hasClass_words: "class_elem el \<Longrightarrow> name_ok c \<Longrightarrow> hasClass c [el] \<longleftrightarrow> c \<in> set (class_names el)"
  using shaped_found [OF shaped_padded] by (simp add: hasClass_def class_elem_def class_names_def words_padded)


lemma toggle_words:
  assumes "class_elem el" "name_ok c"
  shows "class_elem (toggle_name el c)
    \<and> class_names (toggle_name el c) = (if c \<in> set (class_names el) then filter (\<lambda>w. w \<noteq> c) (class_names el) else class_names el @ [c])"
  using addClass_words [OF assms(1), of c 0] removeClass_words [OF assms(1), of c 0] hasClass_words [OF assms] assms
  by (simp add: toggle_name_def words_name insert_word_def)

lemma toggle_all_names:
  "class_elem el \<Longrightarrow> list_all name_ok cs \<Longrightarrow> distinct cs \<Longrightarrow>
   class_elem (foldl toggle_name el cs) \<and> set (class_names (foldl toggle_name el cs))
     = (set (class_names el) - set cs) \<union> (set cs - set (class_names el))"
proof (induction cs arbitrary: el)
  case (Cons c cs)
  have "set (class_names (toggle_name el c)) = (if c \<in> set (class_names el) then set (class_names el) - {c} else insert c (set (class_names el)))"
    using toggle_words [of el c] Cons.prems by auto
  with Cons.IH [of "toggle_name el c"] toggle_words [of el c] Cons.prems show ?case by auto
qed simp

text \<open>
  C19. The class methods do on the string what they mean for the list of class names, for
  elements whose class attribute has no white space but that of HTML: \<open>hasClass\<close> is
  membership; \<open>addClass\<close> appends the names that are not there, in order, and keeps the
  others; \<open>removeClass\<close> removes exactly the given names, all their instances; and
  \<open>toggleClass\<close> of different names exchanges those that are there and those that are not,
  so that toggling twice gives the same classes again.
\<close>

theorem class_methods_on_names:
  assumes "class_elem el"
  shows "(\<forall>c. name_ok c \<longrightarrow> hasClass c [el] = (c \<in> set (class_names el)))
    \<and> class_names (addClass_at (ClassStr v) j el)
      = foldl (\<lambda>cs c. if c \<in> set cs then cs else cs @ [c]) (class_names el) (nonblank_words [] v)
    \<and> class_names (removeClass_at (ClassStr v) j el) = filter (\<lambda>w. w \<notin> set (nonblank_words [] v)) (class_names el)
    \<and> (distinct (nonblank_words [] v) \<longrightarrow>
        set (class_names (toggleClass_at (ClassStr v) None j el))
          = (set (class_names el) - set (nonblank_words [] v)) \<union> (set (nonblank_words [] v) - set (class_names el))
      \<and> set (class_names (toggleClass_at (ClassStr v) None j (toggleClass_at (ClassStr v) None j el))) = set (class_names el))"
proof -
  have ok: "list_all name_ok (nonblank_words [] v)" using words_ok [of "[]" v] by simp
  have "insert_word = (\<lambda>cs c. if c \<in> set cs then cs else cs @ [c])" by (intro ext) (simp add: insert_word_def)
  then show ?thesis
    using hasClass_words [OF assms] addClass_words [OF assms, of v j] removeClass_words [OF assms, of v j]
      toggle_all_names [OF assms ok] toggle_all_names [OF _ ok, of "foldl toggle_name el (nonblank_words [] v)"]
    by auto
qed

theorem class_methods_on_names_witness:
  "class_names (addClass_at (ClassStr ''b c'') 0 \<lparr>nodeType = 1, className = ''a b'', saved = None\<rparr>) = [''a'', ''b'', ''c'']
   \<and> class_names (removeClass_at (ClassStr ''b c'') 0 \<lparr>nodeType = 1, className = ''a b'', saved = None\<rparr>) = [''a'']
   \<and> set (class_names (toggleClass_at (ClassStr ''b c'') None 0 \<lparr>nodeType = 1, className = ''a b'', saved = None\<rparr>)) = {''a'', ''c''}"
proof -
  let ?el = "\<lparr>nodeType = 1, className = ''a b'', saved = None\<rparr>"
  have e: "class_elem ?el" "nonblank_words [] ''b c'' = [''b'', ''c'']" "class_names ?el = [''a'', ''b'']" by code_simp+
  note t = class_methods_on_names [OF e(1), of "''b c''" 0, unfolded e(2,3)]
  have "class_names (addClass_at (ClassStr ''b c'') 0 ?el) = [''a'', ''b'', ''c'']" using t by simp
  moreover have "class_names (removeClass_at (ClassStr ''b c'') 0 ?el) = [''a'']" using t by simp
  moreover have "set (class_names (toggleClass_at (ClassStr ''b c'') None 0 ?el)) = {''a'', ''c''}"
    using conjunct1 [OF mp [OF conjunct2 [OF conjunct2 [OF conjunct2 [OF t]]]]] by auto
  ultimately show ?thesis by blast
qed

end
