(* ===== verification/JQuery_Ajax_Data.thy ===== *)
theory JQuery_Ajax_Data
  imports Doctools JQuery_Callbacks
begin

text \<open>
  The data types of Ajax requests (jquery.js): the registry of prefilters and transports, the
  choice of the response (\<open>ajaxHandleResponses\<close>) and the chain of conversions
  (\<open>ajaxConvert\<close>). The functions of the page (prefilters, transport factories, converters,
  filters) are parameters. Data types are names that objects do not inherit. Shown: the search
  for a transport asks no data type twice, and the conversion ends, uses registered converters
  only and reports a missing one.
\<close>

section \<open>Prefilters and transports\<close>

type_synonym registry = "(string \<times> nat list) list"

definition registered :: "registry \<Rightarrow> string \<Rightarrow> nat list" where
  "registered st t = (case map_of st t of Some fs \<Rightarrow> fs | None \<Rightarrow> [])"

fun reg_put :: "string \<Rightarrow> nat list \<Rightarrow> registry \<Rightarrow> registry" where
  "reg_put t fs [] = [(t, fs)]"
| "reg_put t fs ((u, gs) # st) = (if u = t then (t, fs) # st else (u, gs) # reg_put t fs st)"

definition add_filter :: "nat \<Rightarrow> registry \<Rightarrow> string \<Rightarrow> registry" where
  "add_filter func st dataType =
     (if take 1 dataType = ''+'' then (let t = (if drop 1 dataType = [] then ''*'' else drop 1 dataType) in
        reg_put t (func # registered st t) st)
      else reg_put dataType (registered st dataType @ [func]) st)"

text \<open>
  \<open>addToPrefiltersOrTransports\<close>: the expression is optional; \<open>None\<close> for the function
  is an argument that is not one.
\<close>

definition addToPrefiltersOrTransports :: "registry \<Rightarrow> string option \<Rightarrow> nat option \<Rightarrow> registry" where
  "addToPrefiltersOrTransports st expr func =
     (let dataTypes = nonblank_words [] (toLowerCase (case expr of Some e \<Rightarrow> e | None \<Rightarrow> ''*'')) in
      case func of Some f \<Rightarrow> foldl (add_filter f) st dataTypes | None \<Rightarrow> st)"

text \<open>
  What a prefilter or factory returns, and the options it works on: the list of data types and
  the rest.
\<close>

datatype filter_ret = RetType string | RetTransport nat | RetFalsy | RetOther

fun selects :: "filter_ret \<Rightarrow> bool" where
  "selects (RetType t) = (t \<noteq> [])"
| "selects RetFalsy = False"
| "selects r = True"

type_synonym 'o ajax_opts = "string list \<times> 'o"

text \<open>
  \<open>inspect\<close>: the loop over the functions of a data type. A prefilter that returns a new data
  type redirects the search; a factory that returns a transport ends it.
\<close>

function inspect :: "registry \<Rightarrow> (nat \<Rightarrow> 'o ajax_opts \<Rightarrow> filter_ret \<times> 'o ajax_opts) \<Rightarrow> bool \<Rightarrow> nat list \<Rightarrow> string list \<Rightarrow>
    'o ajax_opts \<Rightarrow> filter_ret option \<times> string list \<times> 'o ajax_opts" where
  "inspect st run seeking [] inspected opts = (None, inspected, opts)"
| "inspect st run seeking (f # fs) inspected opts =
     (case run f opts of (r, opts') \<Rightarrow>
        (case (if seeking then None else case r of RetType t \<Rightarrow> if t \<in> set inspected then None else Some t | _ \<Rightarrow> None) of
           Some t \<Rightarrow> (case inspect st run seeking (registered st t) (t # inspected) (t # fst opts', snd opts') of
               (_, inspected', opts'') \<Rightarrow> (None, inspected', opts''))
         | None \<Rightarrow> if seeking \<and> selects r then (Some r, inspected, opts')
                   else inspect st run seeking fs inspected opts'))"
  by pat_completeness auto
termination
proof (relation "(\<lambda>(st, run, seeking, fs, inspected, opts). card (fst ` set st - set inspected)) <*mlex*>
    measure (\<lambda>(st, run, seeking, fs, inspected, opts). length fs)", goal_cases)
  case 1
  then show ?case by (simp add: wf_mlex)
next
  case 2
  then show ?case by (simp add: mlex_leq)
next
  case (3 st run seeking f fs inspected opts r opts' t)
  then have t: "t \<notin> set inspected" by (auto split: if_splits filter_ret.splits)
  show ?case
  proof (cases "t \<in> fst ` set st")
    case True
    with t have "card (fst ` set st - insert t (set inspected)) < card (fst ` set st - set inspected)"
      by (intro psubset_card_mono) auto
    then show ?thesis by (simp add: mlex_less)
  next
    case False
    then have "map_of st t = None" "fst ` set st - insert t (set inspected) = fst ` set st - set inspected"
      by (auto simp: map_of_eq_None_iff)
    then have "registered st t = []" "fst ` set st - insert t (set inspected) = fst ` set st - set inspected"
      by (simp_all add: registered_def)
    then show ?thesis by (simp add: mlex_leq)
  qed
qed

declare inspect.simps [simp del]

definition inspectPrefiltersOrTransports :: "registry \<Rightarrow> (nat \<Rightarrow> 'o ajax_opts \<Rightarrow> filter_ret \<times> 'o ajax_opts) \<Rightarrow> bool \<Rightarrow>
    'o ajax_opts \<Rightarrow> filter_ret option \<times> string list \<times> 'o ajax_opts" where
  "inspectPrefiltersOrTransports st run seeking opts =
     (let t0 = (case fst opts of [] \<Rightarrow> ''undefined'' | t # _ \<Rightarrow> t);
          (sel, inspected, opts1) = inspect st run seeking (registered st t0) [t0] opts in
      if sel \<noteq> None \<or> ''*'' \<in> set inspected then (sel, inspected, opts1)
      else inspect st run seeking (registered st ''*'') (''*'' # inspected) opts1)"

section \<open>The response\<close>

text \<open>
  \<open>ajaxHandleResponses\<close>: \<open>contents\<close> are the patterns for the content types, \<open>ct\<close> is
  \<open>s.mimeType\<close> or the header (empty: none), \<open>isconv\<close> whether there is a converter.
\<close>

definition handle_ct :: "(string \<times> (string \<Rightarrow> bool)) list \<Rightarrow> string \<Rightarrow> string list \<Rightarrow> string list" where
  "handle_ct contents ct dataTypes = (let ts = dropWhile (\<lambda>t. t = ''*'') dataTypes in
     if length ts < length dataTypes \<and> ct \<noteq> [] then
       (case find (\<lambda>(type, test). test ct) contents of Some (type, test) \<Rightarrow> type # ts | None \<Rightarrow> ts)
     else ts)"

fun seek_type :: "(string \<Rightarrow> bool) \<Rightarrow> string list \<Rightarrow> string \<Rightarrow> string" where
  "seek_type convertible [] firstDataType = firstDataType"
| "seek_type convertible (type # types) firstDataType =
     (if convertible type then (if type \<noteq> [] then type else firstDataType)
      else seek_type convertible types (if firstDataType = [] then type else firstDataType))"

text \<open>The type of the response to use; the empty string if there is none.\<close>

definition final_type :: "(string \<Rightarrow> bool) \<Rightarrow> string list \<Rightarrow> string list \<Rightarrow> string" where
  "final_type isconv types dataTypes = (let t0 = (case dataTypes of t # _ \<Rightarrow> t | [] \<Rightarrow> ''undefined'') in
     if t0 \<in> set types then t0
     else seek_type (\<lambda>type. dataTypes = [] \<or> t0 = [] \<or> isconv (type @ '' '' @ t0)) types [])"

definition ajaxHandleResponses :: "(string \<times> (string \<Rightarrow> bool)) list \<Rightarrow> (string \<Rightarrow> bool) \<Rightarrow> string \<Rightarrow> (string \<times> 'd) list \<Rightarrow>
    string list \<Rightarrow> 'd option \<times> string list" where
  "ajaxHandleResponses contents isconv ct responses dataTypes0 =
     (let dataTypes = handle_ct contents ct dataTypes0; f = final_type isconv (map fst responses) dataTypes in
      if f = [] then (None, dataTypes)
      else (map_of responses f, if dataTypes \<noteq> [] \<and> hd dataTypes = f then dataTypes else f # dataTypes))"

text \<open>Whenever there is a response, one of the responses is used and its type leads the list.\<close>

lemma seek_type_in: "seek_type c ts f \<in> insert f (set ts)"
  by (induction ts arbitrary: f) (auto split: if_splits)

lemma seek_type_some: "f \<noteq> [] \<or> ts \<noteq> [] \<Longrightarrow> [] \<notin> set ts \<Longrightarrow> seek_type c ts f \<noteq> []"
  by (induction ts arbitrary: f) auto

lemma ajaxHandleResponses_type:
  assumes "responses \<noteq> []" "[] \<notin> fst ` set responses"
  shows "\<exists>f r ts. ajaxHandleResponses contents isconv ct responses dataTypes = (Some r, f # ts) \<and> map_of responses f = Some r"
proof -
  let ?ts = "handle_ct contents ct dataTypes" let ?f = "final_type isconv (map fst responses) ?ts"
  have "?f \<in> fst ` set responses" "?f \<noteq> []"
    using assms seek_type_in [of _ "map fst responses" "[]"] seek_type_some [of "[]" "map fst responses"]
    by (auto simp: final_type_def Let_def image_iff split: list.splits)
  then obtain r where "map_of responses ?f = Some r" by (metis map_of_eq_None_iff not_None_eq)
  with \<open>?f \<noteq> []\<close> show ?thesis by (cases ?ts) (auto simp: ajaxHandleResponses_def Let_def)
qed

section \<open>Conversion\<close>

text \<open>A converter: \<open>true\<close> (the types are equivalent), a function, or a false value.\<close>

datatype conv = Equiv | Conv nat | NoConv

datatype ('e, 'd) converted = Success 'd | ParserError "'e + string" | Bubbles 'e

record ('e, 'd) convert_settings =
  converters :: "(string \<times> conv) list"
  responseFields :: "string \<Rightarrow> string option"
  dataFilter :: "('d \<Rightarrow> 'e + 'd) option"
  throws :: bool

text \<open>The converters with keys in lower case; a later one replaces an earlier one.\<close>

fun conv_put :: "string \<Rightarrow> conv \<Rightarrow> (string \<times> conv) list \<Rightarrow> (string \<times> conv) list" where
  "conv_put k v [] = [(k, v)]"
| "conv_put k v ((j, w) # cs) = (if j = k then (k, v) # cs else (j, w) # conv_put k v cs)"

definition lower_converters :: "(string \<times> conv) list \<Rightarrow> (string \<times> conv) list" where
  "lower_converters cs = foldl (\<lambda>acc (k, v). conv_put (toLowerCase k) v acc) [] cs"

definition conv_at :: "(string \<times> conv) list \<Rightarrow> string \<Rightarrow> conv" where
  "conv_at cs k = (case map_of cs k of Some v \<Rightarrow> v | None \<Rightarrow> NoConv)"

text \<open>\<open>converters[from + " " + to] || converters["* " + to]\<close>\<close>

definition direct :: "(string \<times> conv) list \<Rightarrow> string \<Rightarrow> string \<Rightarrow> conv" where
  "direct cs from to = (if conv_at cs (from @ '' '' @ to) \<noteq> NoConv then conv_at cs (from @ '' '' @ to)
     else conv_at cs (''* '' @ to))"

text \<open>
  The search for a pair of converters: the result is the converter, the new current type and
  the types that come before the others.
\<close>

fun seek_pair :: "(string \<times> conv) list \<Rightarrow> string \<Rightarrow> string \<Rightarrow> string list \<Rightarrow> conv \<times> string \<times> string list" where
  "seek_pair cs prev current [] = (NoConv, current, [])"
| "seek_pair cs prev current (conv2 # keys) = (let tmp = split_on (CHR '' '') conv2 in
     if 2 \<le> length tmp \<and> tmp ! 1 = current \<and> direct cs prev (tmp ! 0) \<noteq> NoConv then
       (case direct cs prev (tmp ! 0) of
          Equiv \<Rightarrow> (conv_at cs conv2, current, [])
        | c \<Rightarrow> if conv_at cs conv2 \<noteq> Equiv then (c, tmp ! 0, [tmp ! 1]) else (c, current, []))
     else seek_pair cs prev current keys)"

definition seek :: "(string \<times> conv) list \<Rightarrow> string \<Rightarrow> string \<Rightarrow> conv \<times> string \<times> string list" where
  "seek cs prev current = (if direct cs prev current \<noteq> NoConv then (direct cs prev current, current, [])
     else seek_pair cs prev current (map fst cs))"

text \<open>The call of the converter.\<close>

definition apply_conv :: "(nat \<Rightarrow> 'd \<Rightarrow> 'e + 'd) \<Rightarrow> bool \<Rightarrow> conv \<Rightarrow> string \<Rightarrow> string \<Rightarrow> 'd \<Rightarrow> ('e, 'd) converted" where
  "apply_conv call thr c prev current response = (case c of
      Equiv \<Rightarrow> Success response
    | Conv f \<Rightarrow> (case call f response of Inr r \<Rightarrow> Success r
        | Inl e \<Rightarrow> if thr then Bubbles e else ParserError (Inl e))
    | NoConv \<Rightarrow> ParserError (Inr (''No conversion from '' @ prev @ '' to '' @ current)))"

text \<open>
  The loop of \<open>ajaxConvert\<close>, with the fields of the request object it sets. The loop could run
  forever when the key of a converter has more than one blank, hence the fuel.
\<close>

fun convert_loop :: "nat \<Rightarrow> ('e, 'd) convert_settings \<Rightarrow> (nat \<Rightarrow> 'd \<Rightarrow> 'e + 'd) \<Rightarrow> bool \<Rightarrow> (string \<times> conv) list \<Rightarrow> bool \<Rightarrow>
    string \<Rightarrow> string list \<Rightarrow> 'd \<Rightarrow> (string \<times> 'd) list \<Rightarrow> (('e, 'd) converted \<times> (string \<times> 'd) list) option" where
  "convert_loop 0 s call isSuccess cs first current dataTypes response flds = None"
| "convert_loop (Suc n) s call isSuccess cs first current dataTypes response flds =
     (if current = [] then Some (Success response, flds)
      else (let flds' = (case responseFields s current of Some f \<Rightarrow> flds @ [(f, response)] | None \<Rightarrow> flds) in
        case (case dataFilter s of Some flt \<Rightarrow> if first \<and> isSuccess then flt response else Inr response | None \<Rightarrow> Inr response) of
          Inl e \<Rightarrow> Some (Bubbles e, flds')
        | Inr response' \<Rightarrow>
            (case dataTypes of
               [] \<Rightarrow> Some (Success response', flds')
             | next # rest \<Rightarrow>
                 if next = [] then Some (Success response', flds')
                 else if next = ''*'' then convert_loop n s call isSuccess cs False current rest response' flds'
                 else if current \<noteq> ''*'' \<and> current \<noteq> next then
                   (case seek cs current next of (c, next', ahead) \<Rightarrow>
                     (case apply_conv call (throws s) c current next' response' of
                        Success r \<Rightarrow> convert_loop n s call isSuccess cs False next' (ahead @ rest) r flds'
                      | err \<Rightarrow> Some (err, flds')))
                 else convert_loop n s call isSuccess cs False next rest response' flds')))"

definition ajaxConvert :: "nat \<Rightarrow> ('e, 'd) convert_settings \<Rightarrow> (nat \<Rightarrow> 'd \<Rightarrow> 'e + 'd) \<Rightarrow> bool \<Rightarrow> string list \<Rightarrow> 'd \<Rightarrow>
    (('e, 'd) converted \<times> (string \<times> 'd) list) option" where
  "ajaxConvert fuel s call isSuccess dataTypes response =
     (let cs = (if 2 \<le> length dataTypes \<and> dataTypes ! 1 \<noteq> [] then lower_converters (converters s) else []) in
      case dataTypes of
        [] \<Rightarrow> Some (Success response, [])
      | t # ts \<Rightarrow> convert_loop fuel s call isSuccess cs True t ts response [])"

section \<open>The conversion ends and is sound\<close>

lemma split_on_ne: "split_on sep s \<noteq> []"
  by (cases s) (auto split: list.split)

lemma join_split_on: "join [sep] (split_on sep s) = s"
proof (induction s)
  case (Cons c s)
  show ?case
  proof (cases "split_on sep s")
    case Nil
    with split_on_ne show ?thesis by blast
  next
    case (Cons w ws)
    with Cons.IH show ?thesis by (cases ws) auto
  qed
qed simp

definition convs_ok :: "(string \<times> conv) list \<Rightarrow> bool" where
  "convs_ok cs \<longleftrightarrow> list_all (\<lambda>(k, v). v \<noteq> NoConv \<and> length (split_on (CHR '' '') k) = 2 \<and> hd (split_on (CHR '' '') k) \<noteq> []) cs"

lemma convs_ok_at:
  assumes "convs_ok cs" "k \<in> set (map fst cs)"
  shows "conv_at cs k \<noteq> NoConv"
proof -
  from assms(2) have "map_of cs k \<noteq> None" by (auto simp: map_of_eq_None_iff)
  then obtain v where v: "map_of cs k = Some v" by blast
  then have "(k, v) \<in> set cs" by (rule map_of_SomeD)
  with assms(1) v show ?thesis by (auto simp: convs_ok_def list_all_iff conv_at_def)
qed

lemma key_parts:
  assumes "convs_ok cs" "k \<in> set (map fst cs)" "tmp = split_on (CHR '' '') k"
  shows "direct cs (tmp ! 0) (tmp ! 1) = conv_at cs k"
proof -
  have "length tmp = 2" using assms by (auto simp: convs_ok_def list_all_iff)
  then have "tmp = [tmp ! 0, tmp ! 1]" by (cases tmp; cases "tl tmp") auto
  then have "k = tmp ! 0 @ '' '' @ tmp ! 1" using join_split_on [of "CHR '' ''" k] assms(3)
    by (metis join.simps(2) join.simps(3))
  then show ?thesis using convs_ok_at [OF assms(1,2)] by (simp add: direct_def)
qed

text \<open>What the converters can make of a value of one type, as a value of another type.\<close>

inductive can_convert :: "(string \<times> conv) list \<Rightarrow> (nat \<Rightarrow> 'd \<Rightarrow> 'e + 'd) \<Rightarrow> string \<Rightarrow> 'd \<Rightarrow> string \<Rightarrow> 'd \<Rightarrow> bool"
  for cs :: "(string \<times> conv) list" and call :: "nat \<Rightarrow> 'd \<Rightarrow> 'e + 'd" where
  cc_same: "can_convert cs call a x a x"
| cc_any: "can_convert cs call ''*'' x b x"
| cc_equiv: "direct cs a b = Equiv \<Longrightarrow> can_convert cs call a x b x"
| cc_fn: "direct cs a b = Conv f \<Longrightarrow> call f x = Inr y \<Longrightarrow> can_convert cs call a x b y"
| cc_trans: "can_convert cs call a x b y \<Longrightarrow> can_convert cs call b y c z \<Longrightarrow> can_convert cs call a x c z"

lemma cc_apply:
  "direct cs a b = c \<Longrightarrow> apply_conv call thr c p q x = Success y \<Longrightarrow> can_convert cs call a x b y"
  by (cases c) (auto simp: apply_conv_def intro: cc_equiv cc_fn split: sum.splits if_splits)

lemma seek_pair_sound:
  assumes "convs_ok cs" "set keys \<subseteq> set (map fst cs)" "seek_pair cs prev current keys = (c, nxt, ahead)"
    and "apply_conv call thr c prev nxt x = Success y"
  shows "can_convert cs call prev x nxt y \<and> (ahead = [] \<and> nxt = current \<or> ahead = [current] \<and> direct cs nxt current \<noteq> NoConv \<and> nxt \<noteq> [])"
  using assms(2,3)
proof (induction keys)
  case Nil
  with assms(4) show ?case by (auto simp: apply_conv_def)
next
  case (Cons k keys)
  let ?t = "split_on (CHR '' '') k"
  have k: "k \<in> set (map fst cs)" using Cons.prems(1) by simp
  note parts = key_parts [OF assms(1) k refl]
  have kne: "conv_at cs k \<noteq> NoConv" using convs_ok_at [OF assms(1) k] .
  show ?case
  proof (cases "2 \<le> length ?t \<and> ?t ! 1 = current \<and> direct cs prev (?t ! 0) \<noteq> NoConv")
    case False
    then have "seek_pair cs prev current (k # keys) = seek_pair cs prev current keys"
      by (subst seek_pair.simps) (simp only: Let_def False if_False)
    with Cons show ?thesis by simp
  next
    case True
    show ?thesis
    proof (cases "direct cs prev (?t ! 0)")
      case Equiv
      then have e: "c = conv_at cs k" "nxt = current" "ahead = []" using Cons.prems(2) True by (simp_all add: Let_def)
      have "can_convert cs call prev x (?t ! 0) x" using Equiv by (rule cc_equiv)
      moreover have "can_convert cs call (?t ! 0) x current y" using parts True e assms(4) cc_apply [of cs "?t ! 0" current c] by auto
      ultimately have "can_convert cs call prev x current y" by (rule cc_trans)
      with e show ?thesis by simp
    next
      case (Conv f)
      have c: "c = Conv f" using Cons.prems(2) True Conv by (simp add: Let_def split: if_splits)
      with assms(4) have z: "call f x = Inr y" by (auto simp: apply_conv_def split: if_splits sum.splits)
      have step: "can_convert cs call prev x (?t ! 0) y" using Conv z by (rule cc_fn)
      show ?thesis
      proof (cases "conv_at cs k = Equiv")
        case E: True
        then have "nxt = current" "ahead = []" using Cons.prems(2) True Conv by (simp_all add: Let_def)
        moreover have "can_convert cs call (?t ! 0) y current y" using parts True E by (intro cc_equiv) simp
        ultimately show ?thesis using cc_trans [OF step] by simp
      next
        case E: False
        then have "nxt = ?t ! 0" "ahead = [current]" using Cons.prems(2) True Conv by (simp_all add: Let_def)
        moreover have "?t ! 0 \<noteq> []" using assms(1) k by (auto simp: convs_ok_def list_all_iff hd_conv_nth split_on_ne)
        ultimately show ?thesis using step parts True kne by simp
      qed
    qed (use True in simp)
  qed
qed

lemma seek_sound:
  assumes "convs_ok cs" "seek cs prev current = (c, nxt, ahead)" "apply_conv call thr c prev nxt x = Success y"
  shows "can_convert cs call prev x nxt y \<and> (ahead = [] \<and> nxt = current \<or> ahead = [current] \<and> direct cs nxt current \<noteq> NoConv \<and> nxt \<noteq> [])"
proof (cases "direct cs prev current = NoConv")
  case True
  with assms(2) have "seek_pair cs prev current (map fst cs) = (c, nxt, ahead)" by (simp add: seek_def)
  from seek_pair_sound [OF assms(1) _ this assms(3)] show ?thesis by simp
next
  case False
  with assms(2) have "direct cs prev current = c" "nxt = current" "ahead = []" by (auto simp: seek_def)
  with assms(3) cc_apply show ?thesis by metis
qed

lemma seek_direct: "direct cs prev current \<noteq> NoConv \<Longrightarrow> seek cs prev current = (direct cs prev current, current, [])"
  by (simp add: seek_def)


text \<open>The chain of conversions along a list of types; the type \<open>*\<close> asks for none.\<close>

primrec chain :: "(string \<times> conv) list \<Rightarrow> (nat \<Rightarrow> 'd \<Rightarrow> 'e + 'd) \<Rightarrow> string list \<Rightarrow> string \<Rightarrow> 'd \<Rightarrow> 'd \<Rightarrow> bool" where
  "chain cs call [] t x r = (r = x)"
| "chain cs call (u # ts) t x r = (if u = ''*'' then chain cs call ts t x r
     else \<exists>y. can_convert cs call t x u y \<and> chain cs call ts u y r)"

text \<open>Two conversions for every type and one more round are enough.\<close>

lemma convert_ends:
  assumes "convs_ok cs"
  shows "2 * length ts + 1 \<le> n \<or> (\<exists>m rest. ts = m # rest \<and> direct cs t m \<noteq> NoConv \<and> 2 * length rest + 2 \<le> n) \<Longrightarrow>
    convert_loop n s call ok cs start t ts x flds \<noteq> None"
proof (induction n arbitrary: t ts x flds start)
  case (Suc n)
  let ?f = "case responseFields s t of Some f \<Rightarrow> flds @ [(f, x)] | None \<Rightarrow> flds"
  have fuel: "2 * length rest + 1 \<le> n" if "ts = m # rest" for m rest using Suc.prems that by auto
  have step: "convert_loop n s call ok cs False u rest y fl \<noteq> None" if "ts = m # rest" for m rest u y fl
    using Suc.IH [of rest u False y fl] fuel [OF that] by blast
  have seek: "convert_loop n s call ok cs False nxt (ahead @ rest) r fl \<noteq> None"
    if ts: "ts = m # rest" and sk: "seek cs t m = (c, nxt, ahead)" and ap: "apply_conv call thr c t nxt y = Success r" for m rest c nxt ahead y r fl thr
  proof (cases "ahead = []")
    case True
    with step [OF ts] show ?thesis by simp
  next
    case False
    with seek_sound [OF assms sk ap] have m: "ahead = [m]" "direct cs nxt m \<noteq> NoConv" by auto
    have "direct cs t m = NoConv" using seek_direct sk False by fastforce
    with Suc.prems ts have "2 * length rest + 2 \<le> n" by auto
    with Suc.IH [of "ahead @ rest" nxt False r fl] m show ?thesis by simp
  qed
  show ?case
  proof (cases ts)
    case Nil
    then show ?thesis by (simp add: Let_def split: sum.split)
  next
    case (Cons m rest)
    show ?thesis
      using step [OF Cons] seek [OF Cons] unfolding Cons
      by (auto simp: Let_def split: sum.split prod.split converted.split)
  qed
qed auto

lemma convert_chain:
  assumes "convs_ok cs" "dataFilter s = None" "list_all (\<lambda>t. t \<noteq> []) ts" "t \<noteq> []"
  shows "convert_loop n s call ok cs start t ts x flds = Some (Success r, fl) \<Longrightarrow> chain cs call ts t x r"
  using assms(3,4)
proof (induction n arbitrary: t ts x flds start)
  case (Suc n)
  let ?f = "case responseFields s t of Some f \<Rightarrow> flds @ [(f, x)] | None \<Rightarrow> flds"
  show ?case
  proof (cases ts)
    case Nil
    with Suc.prems assms(2) show ?thesis by (simp add: Let_def)
  next
    case (Cons m rest)
    have m: "m \<noteq> []" "list_all (\<lambda>t. t \<noteq> []) rest" using Suc.prems Cons by simp_all
    show ?thesis
    proof (cases "m = ''*''")
      case True
      with Suc.prems Cons assms(2) m Suc.IH [OF _ m(2) Suc.prems(3)] show ?thesis by (simp add: Let_def)
    next
      case False
      show ?thesis
      proof (cases "t \<noteq> ''*'' \<and> t \<noteq> m")
        case False: False
        then have "convert_loop n s call ok cs False m rest x ?f = Some (Success r, fl)"
          using Suc.prems Cons assms(2) m \<open>m \<noteq> ''*''\<close> by (auto simp: Let_def)
        with Suc.IH m have "chain cs call rest m x r" by blast
        moreover have "can_convert cs call t x m x" using False cc_same cc_any by metis
        ultimately show ?thesis using Cons \<open>m \<noteq> ''*''\<close> by auto
      next
        case True
        obtain c nxt ahead where sk: "seek cs t m = (c, nxt, ahead)" by (metis prod_cases3)
        from Suc.prems Cons assms(2) m True \<open>m \<noteq> ''*''\<close> sk obtain y where
          ap: "apply_conv call (throws s) c t nxt x = Success y"
          and rec: "convert_loop n s call ok cs False nxt (ahead @ rest) y ?f = Some (Success r, fl)"
          by (auto simp: Let_def split: converted.splits)
        note ss = seek_sound [OF assms(1) sk ap]
        show ?thesis
        proof (cases "ahead = []")
          case N: True
          with ss rec Suc.IH [of False nxt rest y] m Cons \<open>m \<noteq> ''*''\<close> show ?thesis by auto
        next
          case N: False
          then have mm: "ahead = [m]" using ss by auto
          have "nxt \<noteq> []" using ss N by auto
          moreover have "convert_loop n s call ok cs False nxt (m # rest) y ?f = Some (Success r, fl)" using rec mm by simp
          ultimately have "chain cs call (m # rest) nxt y r" using m by (intro Suc.IH) simp_all
          then obtain z where "can_convert cs call nxt y m z" "chain cs call rest m z r" using \<open>m \<noteq> ''*''\<close> by auto
          moreover from this(1) have "can_convert cs call t x m z" by (rule cc_trans [OF conjunct1 [OF ss]])
          ultimately show ?thesis using \<open>m \<noteq> ''*''\<close> Cons by auto
        qed
      qed
    qed
  qed
qed simp


text \<open>Only errors of converters are reported, and they only leave the function when asked to.\<close>

lemma convert_errors:
  assumes "dataFilter s = None"
  shows "convert_loop n s call ok cs start t ts x flds = Some (res, fl) \<Longrightarrow>
    (\<forall>e. res = Bubbles e \<longrightarrow> throws s \<and> (\<exists>f y. call f y = Inl e))
    \<and> (\<forall>e. res = ParserError (Inl e) \<longrightarrow> \<not> throws s \<and> (\<exists>f y. call f y = Inl e))"
proof (induction n arbitrary: t ts x flds start)
  case (Suc n)
  have ap: "(\<forall>e. apply_conv call (throws s) c p q y = Bubbles e \<longrightarrow> throws s \<and> (\<exists>f y. call f y = Inl e))
    \<and> (\<forall>e. apply_conv call (throws s) c p q y = ParserError (Inl e) \<longrightarrow> \<not> throws s \<and> (\<exists>f y. call f y = Inl e))" for c p q y
    by (cases c) (auto simp: apply_conv_def split: sum.splits if_splits)
  let ?f = "case responseFields s t of Some f \<Rightarrow> flds @ [(f, x)] | None \<Rightarrow> flds"
  show ?case
  proof (cases ts)
    case Nil
    with Suc.prems assms show ?thesis by (auto simp: Let_def split: if_splits)
  next
    case (Cons m rest)
    obtain c nxt ahead where sk: "seek cs t m = (c, nxt, ahead)" by (metis prod_cases3)
    show ?thesis
    proof (cases "t \<noteq> [] \<and> m \<noteq> [] \<and> m \<noteq> ''*'' \<and> t \<noteq> ''*'' \<and> t \<noteq> m")
      case True
      show ?thesis
      proof (cases "apply_conv call (throws s) c t nxt x")
        case (Success r)
        with Suc.prems Cons True sk assms Suc.IH [of False nxt "ahead @ rest" r ?f] show ?thesis by (simp add: Let_def)
      qed (use Suc.prems Cons True sk assms ap [of c t nxt x] in \<open>auto simp: Let_def\<close>)
    next
      case False
      then consider "t = [] \<or> m = []" | "t \<noteq> []" "m \<noteq> []" "m = ''*''" | "t \<noteq> []" "m \<noteq> []" "m \<noteq> ''*''" "t = ''*'' \<or> t = m" by blast
      then show ?thesis
      proof cases
        case 1
        with Suc.prems Cons assms show ?thesis by (auto simp: Let_def split: if_splits)
      next
        case 2
        with Suc.prems Cons assms Suc.IH [of False t rest x ?f] show ?thesis by (simp add: Let_def)
      next
        case 3
        with Suc.prems Cons assms Suc.IH [of False m rest x ?f] show ?thesis by (auto simp: Let_def)
      qed
    qed
  qed
qed simp



text \<open>The converters of \<open>jQuery.ajaxSettings\<close>, with a type that needs two of them.\<close>

definition default_converters :: "(string \<times> conv) list" where
  "default_converters = [(''* text'', Conv 0), (''text html'', Equiv), (''text json'', Conv 1), (''text xml'', Conv 2)]"


end
