(* ===== verification/JQuery_Ajax.thy ===== *)
theory JQuery_Ajax
  imports JQuery_Ajax_Data
begin

text \<open>
  The life of an Ajax request (\<open>jQuery.ajax\<close> in jquery.js), as a machine whose second
  component is the call stack. Code of the page runs at many points while requests are
  started and finished: prefilters, event handlers, \<open>beforeSend\<close>, transports, callbacks. It is
  the task \<open>User\<close>, which may make any of the calls of the interface, for any request, and then
  return. Requests of the browser that were sent are answered by such code, too. Shown: for
  pages that do not abort a request while it is being started, every request is settled
  and completed, none is left behind unsent, and \<open>jQuery.active\<close> counts the requests in
  flight. Aborting in an \<open>ajaxSend\<close> handler breaks the counter. Code of the page returns
  normally here, with the exception of \<open>transport.send\<close>, whose exceptions \<open>ajax\<close> catches; the
  headers, the address and the data of a request are not part of this machine.
\<close>

section \<open>Requests\<close>

text \<open>
  \<open>glob\<close>, \<open>beforeSend\<close>, \<open>timed\<close> and \<open>head\<close> are the options that matter here: \<open>s.global\<close>,
  whether there is a \<open>beforeSend\<close>, an asynchronous request with a timeout, and \<open>HEAD\<close> requests.
\<close>

record ajax_options =
  glob :: bool
  beforeSend :: bool
  timed :: bool
  head :: bool

record xhr =
  opts :: ajax_options
  xstate :: nat
  readyState :: nat
  fireGlobals :: bool
  has_transport :: bool
  sent :: bool
  timer :: bool
  strAbort :: string
  status :: int
  statusText :: string
  outcome :: "bool option"
  completed :: bool

definition new_xhr :: "ajax_options \<Rightarrow> xhr" where
  "new_xhr o' = \<lparr>opts = o', xstate = 0, readyState = 0, fireGlobals = False, has_transport = False, sent = False,
     timer = False, strAbort = ''canceled'', status = 0, statusText = [], outcome = None, completed = False\<rparr>"

record page =
  reqs :: "xhr list"
  active :: int

definition page0 :: page where
  "page0 = \<lparr>reqs = [], active = 0\<rparr>"

definition set_req :: "nat \<Rightarrow> (xhr \<Rightarrow> xhr) \<Rightarrow> page \<Rightarrow> page" where
  "set_req i f p = p\<lparr>reqs := (reqs p)[i := f (reqs p ! i)]\<rparr>"

section \<open>Calls and tasks\<close>

text \<open>
  What \<open>ajaxConvert\<close> returned, as far as \<open>done\<close> looks at it: data, or an error with the truth
  of its value (a converter may throw a false value).
\<close>

datatype conv_result = ConvSuccess | ConvError bool

datatype call = Ajax ajax_options | Abort nat string | Done nat int string conv_result

datatype task = User | Call call | AfterPrefilters nat | BeforeSend nat | AfterBeforeSend nat bool | GetTransport nat
  | HaveTransport nat bool | Send nat | AfterSend nat "string option" | Finish nat int string conv_result
  | Settle nat bool | GlobalResult nat | Complete nat | GlobalComplete nat | Count nat

text \<open>
  The result of a request: whether it is a success, the text for the callbacks, the status and
  the text of the request object.
\<close>

definition isSuccess_status :: "int \<Rightarrow> bool" where
  "isSuccess_status st \<longleftrightarrow> 200 \<le> st \<and> st < 300 \<or> st = 304"

definition done_result :: "int \<Rightarrow> string \<Rightarrow> bool \<Rightarrow> conv_result \<Rightarrow> bool \<times> string \<times> int \<times> string" where
  "done_result st nativeStatusText isHead conv =
     (let (ok, text, st') =
        (if isSuccess_status st then
           (if st = 204 \<or> isHead then (True, ''nocontent'', st)
            else if st = 304 then (True, ''notmodified'', st)
            else (case conv of ConvSuccess \<Rightarrow> (True, ''success'', st) | ConvError e \<Rightarrow> (\<not> e, ''parsererror'', st)))
         else if st \<noteq> 0 \<or> nativeStatusText = [] then (False, ''error'', if st < 0 then 0 else st)
         else (False, nativeStatusText, st)) in
      (ok, text, st', if nativeStatusText \<noteq> [] then nativeStatusText else text))"

text \<open>\<open>done\<close>, up to the conversion of the response, which calls converters and filters.\<close>

definition done_call :: "nat \<Rightarrow> int \<Rightarrow> string \<Rightarrow> conv_result \<Rightarrow> page \<Rightarrow> page \<times> task list" where
  "done_call i st text conv p =
     (if xstate (reqs p ! i) = 2 then (p, [])
      else (set_req i (\<lambda>x. x\<lparr>xstate := 2, timer := False, has_transport := False,
              readyState := (if st > 0 then 4 else 0)\<rparr>) p, [User, Finish i st text conv]))"

fun do_call :: "call \<Rightarrow> page \<Rightarrow> page \<times> task list" where
  "do_call (Ajax o') p = (p\<lparr>reqs := reqs p @ [new_xhr o']\<rparr>, [User, AfterPrefilters (length (reqs p))])"
| "do_call (Abort i text) p = (let x = reqs p ! i; finalText = (if text \<noteq> [] then text else strAbort x) in
     (p, (if has_transport x then [User] else []) @ [Call (Done i 0 finalText ConvSuccess)]))"
| "do_call (Done i st text conv) p = done_call i st text conv p"

text \<open>
  The tasks of \<open>ajax\<close>. \<open>choice\<close> is what the code of the page decides: whether \<open>beforeSend\<close>
  returns \<open>false\<close>, whether there is a transport, whether \<open>send\<close> throws; \<open>e\<close> is the text of the
  exception. Without a transport \<open>transport.send\<close> is a \<open>TypeError\<close>.
\<close>

definition after_prefilters :: "nat \<Rightarrow> page \<Rightarrow> page \<times> task list" where
  "after_prefilters i p =
     (if xstate (reqs p ! i) = 2 then (p, [])
      else if glob (opts (reqs p ! i)) then
        ((set_req i (\<lambda>x. x\<lparr>fireGlobals := True\<rparr>) p)\<lparr>active := active p + 1\<rparr>,
         (if active p = 0 then [User] else []) @ [BeforeSend i])
      else (p, [BeforeSend i]))"

fun start_run :: "bool \<Rightarrow> string \<Rightarrow> task \<Rightarrow> page \<Rightarrow> page \<times> task list" where
  "start_run choice e (AfterPrefilters i) p = after_prefilters i p"
| "start_run choice e (BeforeSend i) p =
     (if beforeSend (opts (reqs p ! i)) then (p, [User, AfterBeforeSend i choice]) else (p, [GetTransport i]))"
| "start_run choice e (AfterBeforeSend i returnedFalse) p =
     (if returnedFalse \<or> xstate (reqs p ! i) = 2 then (p, [Call (Abort i [])]) else (p, [GetTransport i]))"
| "start_run choice e (GetTransport i) p =
     (set_req i (\<lambda>x. x\<lparr>strAbort := ''abort''\<rparr>) p, [User, HaveTransport i choice])"
| "start_run choice e (HaveTransport i found) p =
     (if \<not> found then (p, [Call (Done i (-1) ''No Transport'' ConvSuccess)])
      else (set_req i (\<lambda>x. x\<lparr>has_transport := True, readyState := 1\<rparr>) p,
            (if fireGlobals (reqs p ! i) then [User] else []) @ [Send i]))"
| "start_run choice e (Send i) p = (let x = reqs p ! i in
     (set_req i (\<lambda>x. x\<lparr>timer := timed (opts x), xstate := 1, sent := has_transport x\<rparr>) p,
      if has_transport x then [User, AfterSend i (if choice then Some e else None)] else [AfterSend i (Some e)]))"
| "start_run choice e (AfterSend i thrown) p =
     (case thrown of None \<Rightarrow> (p, [])
      | Some e' \<Rightarrow> (p, if xstate (reqs p ! i) < 2 then [Call (Done i (-1) e' ConvSuccess)] else []))"
| "start_run choice e t p = (p, [])"

text \<open>The tasks of \<open>done\<close>: the result, the deferred of the request, the events, the counter.\<close>

fun done_run :: "task \<Rightarrow> page \<Rightarrow> page \<times> task list" where
  "done_run (Finish i st text conv) p =
     (case done_result st text (head (opts (reqs p ! i))) conv of (ok, t, st', text') \<Rightarrow>
        (set_req i (\<lambda>x. x\<lparr>status := st', statusText := text'\<rparr>) p, [Settle i ok]))"
| "done_run (Settle i ok) p =
     (set_req i (\<lambda>x. x\<lparr>outcome := (case outcome x of None \<Rightarrow> Some ok | Some b \<Rightarrow> Some b)\<rparr>) p, [User, GlobalResult i])"
| "done_run (GlobalResult i) p = (p, (if fireGlobals (reqs p ! i) then [User] else []) @ [Complete i])"
| "done_run (Complete i) p = (set_req i (\<lambda>x. x\<lparr>completed := True\<rparr>) p, [User, GlobalComplete i])"
| "done_run (GlobalComplete i) p = (p, if fireGlobals (reqs p ! i) then [User, Count i] else [])"
| "done_run (Count i) p = (p\<lparr>active := active p - 1\<rparr>, if active p - 1 = 0 then [User] else [])"
| "done_run t p = (p, [])"

text \<open>The tasks of the start of a request, those in which an abort is not noticed, and those of \<open>done\<close>.\<close>

fun is_start :: "task \<Rightarrow> bool" where
  "is_start (AfterPrefilters i) = True"
| "is_start (BeforeSend i) = True"
| "is_start (AfterBeforeSend i r) = True"
| "is_start (GetTransport i) = True"
| "is_start (HaveTransport i r) = True"
| "is_start (Send i) = True"
| "is_start t = False"

fun is_unguarded :: "task \<Rightarrow> bool" where
  "is_unguarded (BeforeSend i) = True"
| "is_unguarded (GetTransport i) = True"
| "is_unguarded (HaveTransport i r) = True"
| "is_unguarded (Send i) = True"
| "is_unguarded t = False"

fun is_done :: "task \<Rightarrow> bool" where
  "is_done (Finish i st text conv) = True"
| "is_done (Settle i ok) = True"
| "is_done (GlobalResult i) = True"
| "is_done (Complete i) = True"
| "is_done (GlobalComplete i) = True"
| "is_done (Count i) = True"
| "is_done t = False"

definition run_task :: "bool \<Rightarrow> string \<Rightarrow> task \<Rightarrow> page \<Rightarrow> page \<times> task list" where
  "run_task choice e t p = (case t of User \<Rightarrow> (p, []) | Call c \<Rightarrow> do_call c p
     | _ \<Rightarrow> if is_done t then done_run t p else start_run choice e t p)"

section \<open>The machine\<close>

text \<open>The request of a task.\<close>

fun call_req :: "call \<Rightarrow> nat option" where
  "call_req (Ajax o') = None"
| "call_req (Abort i text) = Some i"
| "call_req (Done i st text conv) = Some i"

fun task_req :: "task \<Rightarrow> nat option" where
  "task_req User = None"
| "task_req (Call c) = call_req c"
| "task_req (AfterPrefilters i) = Some i"
| "task_req (BeforeSend i) = Some i"
| "task_req (AfterBeforeSend i r) = Some i"
| "task_req (GetTransport i) = Some i"
| "task_req (HaveTransport i r) = Some i"
| "task_req (Send i) = Some i"
| "task_req (AfterSend i r) = Some i"
| "task_req (Finish i st text conv) = Some i"
| "task_req (Settle i ok) = Some i"
| "task_req (GlobalResult i) = Some i"
| "task_req (Complete i) = Some i"
| "task_req (GlobalComplete i) = Some i"
| "task_req (Count i) = Some i"

definition own :: "nat \<Rightarrow> task list \<Rightarrow> task list" where
  "own i ts = filter (\<lambda>t. task_req t = Some i) ts"

text \<open>
  The calls that code of the page can make. A transport can answer its request only after
  it was sent. A careful page does not abort a request in the unguarded part of its start.
\<close>

fun allowed :: "bool \<Rightarrow> page \<Rightarrow> task list \<Rightarrow> call \<Rightarrow> bool" where
  "allowed careful p ts (Ajax o') = True"
| "allowed careful p ts (Abort i text) = (i < length (reqs p) \<and> (careful \<longrightarrow> \<not> list_ex is_unguarded (own i ts)))"
| "allowed careful p ts (Done i st text conv) = (i < length (reqs p) \<and> sent (reqs p ! i))"

type_synonym ajax_config = "page \<times> task list"

inductive ajax_step :: "bool \<Rightarrow> ajax_config \<Rightarrow> ajax_config \<Rightarrow> bool" for careful :: bool where
  enter: "ajax_step careful (p, []) (p, [User])"
| timeout: "i < length (reqs p) \<Longrightarrow> timer (reqs p ! i) \<Longrightarrow>
    ajax_step careful (p, []) (set_req i (\<lambda>x. x\<lparr>timer := False\<rparr>) p, [Call (Abort i ''timeout'')])"
| call: "allowed careful p ts c \<Longrightarrow> ajax_step careful (p, User # ts) (p, Call c # User # ts)"
| run: "run_task choice e t p = (p', ts') \<Longrightarrow> ajax_step careful (p, t # ts) (p', ts' @ ts)"

inductive_cases step_nil: "ajax_step careful (p, []) cfg"
inductive_cases step_task: "ajax_step careful (p, t # ts) cfg"

definition ajax_start :: "ajax_config \<Rightarrow> bool" where
  "ajax_start cfg \<longleftrightarrow> cfg = (page0, [])"

text \<open>Runs that are given move by move.\<close>

datatype ajax_move = Enter | Timeout nat | Make call | Run bool string

fun play1 :: "bool \<Rightarrow> ajax_move \<Rightarrow> ajax_config \<Rightarrow> ajax_config option" where
  "play1 careful Enter (p, []) = Some (p, [User])"
| "play1 careful (Timeout i) (p, []) =
     (if i < length (reqs p) \<and> timer (reqs p ! i) then
        Some (set_req i (\<lambda>x. x\<lparr>timer := False\<rparr>) p, [Call (Abort i ''timeout'')]) else None)"
| "play1 careful (Make c) (p, User # ts) = (if allowed careful p ts c then Some (p, Call c # User # ts) else None)"
| "play1 careful (Run choice e) (p, t # ts) = (case run_task choice e t p of (p', ts') \<Rightarrow> Some (p', ts' @ ts))"
| "play1 careful m cfg = None"

fun play :: "bool \<Rightarrow> ajax_move list \<Rightarrow> ajax_config \<Rightarrow> ajax_config option" where
  "play careful [] cfg = Some cfg"
| "play careful (m # ms) cfg = (case play1 careful m cfg of None \<Rightarrow> None | Some cfg' \<Rightarrow> play careful ms cfg')"

lemma play1_step: "play1 careful m cfg = Some cfg' \<Longrightarrow> ajax_step careful cfg cfg'"
  by (cases "(careful, m, cfg)" rule: play1.cases)
    (auto split: if_splits prod.splits intro: ajax_step.intros)

lemma play_reachable:
  "reachable ajax_start (ajax_step careful) cfg \<Longrightarrow> play careful ms cfg = Some cfg' \<Longrightarrow>
   reachable ajax_start (ajax_step careful) cfg'"
proof (induction ms arbitrary: cfg)
  case (Cons m ms)
  then obtain cfg1 where "play1 careful m cfg = Some cfg1" "play careful ms cfg1 = Some cfg'"
    by (auto split: option.splits)
  then show ?case using Cons by (blast intro: reachable_move play1_step)
qed simp

lemma play_from_start:
  "play careful ms (page0, []) = Some cfg' \<Longrightarrow> reachable ajax_start (ajax_step careful) cfg'"
  by (rule play_reachable [OF reachable_start]) (simp add: ajax_start_def)

section \<open>Requests of careful pages\<close>

text \<open>
  What holds of a request and its tasks on the call stack: at most one task of its start and one
  of \<open>done\<close>; in the unguarded part of the start the request is not done and is not going to
  be; a request that is not started any more was sent or is done; and the tasks of \<open>done\<close> that are
  left are those whose work is not done.
\<close>

fun is_call :: "task \<Rightarrow> bool" where
  "is_call (Call c) = True"
| "is_call t = False"

fun is_send :: "task \<Rightarrow> bool" where
  "is_send (Send i) = True"
| "is_send t = False"

fun is_after_send :: "task \<Rightarrow> bool" where
  "is_after_send (AfterSend i thrown) = True"
| "is_after_send t = False"

fun is_after_prefilters :: "task \<Rightarrow> bool" where
  "is_after_prefilters (AfterPrefilters i) = True"
| "is_after_prefilters t = False"

fun settles :: "task \<Rightarrow> bool" where
  "settles (Finish i st text conv) = True"
| "settles (Settle i ok) = True"
| "settles t = False"

fun completes :: "task \<Rightarrow> bool" where
  "completes (GlobalResult i) = True"
| "completes (Complete i) = True"
| "completes t = settles t"

fun at_most_one :: "('a \<Rightarrow> bool) \<Rightarrow> 'a list \<Rightarrow> bool" where
  "at_most_one P [] = True"
| "at_most_one P (x # xs) = (if P x then \<not> list_ex P xs else at_most_one P xs)"

definition stages_ok :: "xhr \<Rightarrow> task list \<Rightarrow> bool" where
  "stages_ok x ts \<longleftrightarrow> at_most_one is_start ts
     \<and> (list_ex is_unguarded ts \<longrightarrow> xstate x = 0 \<and> \<not> list_ex is_call ts)
     \<and> (sent x \<longrightarrow> \<not> list_ex is_start ts)
     \<and> (xstate x = 0 \<longrightarrow> list_ex is_start ts \<or> list_ex is_call ts) \<and> (xstate x = 1 \<longrightarrow> sent x \<and> has_transport x) \<and> xstate x \<le> 2
     \<and> (fireGlobals x \<longrightarrow> \<not> list_ex is_after_prefilters ts)
     \<and> (has_transport x \<longrightarrow> xstate x < 2 \<and> (sent x \<or> list_ex is_send ts))
     \<and> (list_ex is_send ts \<longrightarrow> has_transport x) \<and> (list_ex is_after_send ts \<longrightarrow> sent x)"

fun is_count :: "task \<Rightarrow> bool" where
  "is_count (Count i) = True"
| "is_count t = False"

definition settling_ok :: "xhr \<Rightarrow> task list \<Rightarrow> bool" where
  "settling_ok x ts \<longleftrightarrow> at_most_one is_done ts
     \<and> (xstate x < 2 \<longrightarrow> \<not> list_ex is_done ts \<and> outcome x = None \<and> \<not> completed x)
     \<and> (xstate x = 2 \<and> outcome x = None \<longrightarrow> list_ex settles ts)
     \<and> (xstate x = 2 \<and> \<not> completed x \<longrightarrow> list_ex completes ts)
     \<and> (list_ex is_count ts \<longrightarrow> fireGlobals x)"

definition in_flight :: "xhr \<Rightarrow> task list \<Rightarrow> bool" where
  "in_flight x ts \<longleftrightarrow> fireGlobals x \<and> (xstate x < 2 \<or> list_ex is_done ts)"

definition ajax_inv :: "ajax_config \<Rightarrow> bool" where
  "ajax_inv cfg \<longleftrightarrow> (case cfg of (p, ts) \<Rightarrow>
     (\<forall>t\<in>set ts. \<forall>i. task_req t = Some i \<longrightarrow> i < length (reqs p))
     \<and> (\<forall>i<length (reqs p). stages_ok (reqs p ! i) (own i ts) \<and> settling_ok (reqs p ! i) (own i ts))
     \<and> (\<forall>c i. Call c \<in> set (tl ts) \<longrightarrow> call_req c = Some i \<longrightarrow> sent (reqs p ! i))
     \<and> active p = (\<Sum>i<length (reqs p). of_bool (in_flight (reqs p ! i) (own i ts))))"

lemma own_simps [simp]:
  "own i [] = []"
  "own i (t # ts) = (if task_req t = Some i then t # own i ts else own i ts)"
  "own i (ts @ ts') = own i ts @ own i ts'"
  by (simp_all add: own_def)

lemma length_set_req [simp]: "length (reqs (set_req i f p)) = length (reqs p)"
  by (simp add: set_req_def)

lemma nth_set_req [simp]:
  "j < length (reqs p) \<Longrightarrow> reqs (set_req i f p) ! j = (if j = i then f (reqs p ! j) else reqs p ! j)"
  by (simp add: set_req_def nth_list_update)

lemma active_set_req [simp]: "active (set_req i f p) = active p"
  by (simp add: set_req_def)

text \<open>A task works on its own request only.\<close>

lemma run_frame:
  assumes "run_task choice e t p = (p', ts')" "task_req t = Some i" "i < length (reqs p)"
  shows "length (reqs p') = length (reqs p)" "j \<noteq> i \<Longrightarrow> j < length (reqs p) \<Longrightarrow> reqs p' ! j = reqs p ! j"
    "\<forall>t'\<in>set ts'. task_req t' \<noteq> None \<longrightarrow> task_req t' = Some i"
proof -
  have *: "length (reqs p') = length (reqs p) \<and> (j \<noteq> i \<longrightarrow> j < length (reqs p) \<longrightarrow> reqs p' ! j = reqs p ! j)
    \<and> (\<forall>t'\<in>set ts'. task_req t' \<noteq> None \<longrightarrow> task_req t' = Some i)"
  proof (cases t)
    case (Call c)
    then show ?thesis using assms
      by (cases c) (auto simp: run_task_def after_prefilters_def done_call_def Let_def split: if_splits)
  qed (use assms in \<open>auto simp: run_task_def after_prefilters_def Let_def split: if_splits option.splits prod.splits\<close>)
  then show "length (reqs p') = length (reqs p)" "j \<noteq> i \<Longrightarrow> j < length (reqs p) \<Longrightarrow> reqs p' ! j = reqs p ! j"
    "\<forall>t'\<in>set ts'. task_req t' \<noteq> None \<longrightarrow> task_req t' = Some i" by blast+
qed

lemma start_kinds:
  "\<not> list_ex is_start ts \<longrightarrow> \<not> list_ex is_unguarded ts \<and> \<not> list_ex is_send ts \<and> \<not> list_ex is_after_prefilters ts"
  "\<not> list_ex is_unguarded ts \<longrightarrow> \<not> list_ex is_send ts"
  "\<not> list_ex is_start ts \<longrightarrow> at_most_one is_start ts"
  by (induction ts; fastforce elim: is_start.elims is_unguarded.elims is_send.elims is_after_prefilters.elims)+

lemmas run_simps = run_task_def after_prefilters_def done_call_def Let_def split_beta

lemma done_kinds:
  "\<not> list_ex is_done ts \<longrightarrow> \<not> list_ex settles ts \<and> \<not> list_ex completes ts \<and> \<not> list_ex is_count ts"
  "\<not> list_ex is_done ts \<longrightarrow> at_most_one is_done ts"
  by (induction ts; fastforce elim: is_done.elims settles.elims completes.elims is_count.elims)+

text \<open>Case analysis on tasks with the calls one by one.\<close>

lemma task_cases:
  obtains "is_start t \<or> is_after_send t" | "is_done t" | "t = User" | o' where "t = Call (Ajax o')"
    | i s where "t = Call (Abort i s)" | i st s conv where "t = Call (Done i st s conv)"
proof (cases t)
  case (Call c)
  then show ?thesis using that by (cases c) simp_all
qed (use that in simp_all)

lemma run_stages:
  assumes "task_req t = Some i" "i < length (reqs p)" "stages_ok (reqs p ! i) (t # us)"
    and "list_ex is_call us \<longrightarrow> sent (reqs p ! i)"
  shows "stages_ok (reqs (fst (run_task choice e t p)) ! i) (own i (snd (run_task choice e t p)) @ us)"
proof (cases t)
  case (Call c)
  with assms start_kinds [of us] show ?thesis
    by (cases c; simp add: run_simps stages_ok_def split: if_split; auto)
next
  case (AfterPrefilters j)
  with assms start_kinds [of us] show ?thesis by (simp add: run_simps stages_ok_def split: if_split; auto)
next
  case (BeforeSend j)
  with assms start_kinds [of us] show ?thesis by (simp add: run_simps stages_ok_def split: if_split; auto)
next
  case (AfterBeforeSend j r)
  with assms start_kinds [of us] show ?thesis by (simp add: run_simps stages_ok_def split: if_split; auto)
next
  case (GetTransport j)
  with assms start_kinds [of us] show ?thesis by (simp add: run_simps stages_ok_def split: if_split; auto)
next
  case (HaveTransport j r)
  with assms start_kinds [of us] show ?thesis by (simp add: run_simps stages_ok_def split: if_split; auto)
next
  case (Send j)
  with assms start_kinds [of us] show ?thesis by (simp add: run_simps stages_ok_def split: if_split; auto)
next
  case (AfterSend j r)
  with assms start_kinds [of us] show ?thesis
    by (simp add: run_simps stages_ok_def split: if_split option.split; auto)
qed (use assms in \<open>simp_all add: run_simps stages_ok_def\<close>)

lemma run_settling:
  assumes "task_req t = Some i" "i < length (reqs p)" "stages_ok (reqs p ! i) (t # us)"
    and "settling_ok (reqs p ! i) (t # us)"
  shows "settling_ok (reqs (fst (run_task choice e t p)) ! i) (own i (snd (run_task choice e t p)) @ us)"
proof (cases t rule: task_cases)
  case 1
  with assms done_kinds [of us] show ?thesis
    by (cases t; simp add: run_simps stages_ok_def settling_ok_def split: if_split option.split; auto)
next
  case 2
  with assms done_kinds [of us] show ?thesis
    by (cases t; simp add: run_simps stages_ok_def settling_ok_def split: if_split option.split; auto)
next
  case 5
  with assms done_kinds [of us] show ?thesis by (simp add: run_simps stages_ok_def settling_ok_def split: if_split; auto)
next
  case 6
  with assms done_kinds [of us] show ?thesis by (simp add: run_simps stages_ok_def settling_ok_def split: if_split; auto)
qed (use assms in simp_all)

lemma run_active:
  assumes "task_req t = Some i" "i < length (reqs p)" "stages_ok (reqs p ! i) (t # us)"
    and "settling_ok (reqs p ! i) (t # us)"
  shows "active (fst (run_task choice e t p)) =
    active p - of_bool (in_flight (reqs p ! i) (t # us))
    + of_bool (in_flight (reqs (fst (run_task choice e t p)) ! i) (own i (snd (run_task choice e t p)) @ us))"
proof (cases t rule: task_cases)
  case 1
  with assms  show ?thesis
    by (cases t; simp add: run_simps stages_ok_def settling_ok_def in_flight_def split: if_split option.split; auto)
next
  case 2
  with assms done_kinds [of us] show ?thesis
    by (cases t; simp add: run_simps stages_ok_def settling_ok_def in_flight_def split: if_split option.split; auto)
next
  case 5
  with assms done_kinds [of us] show ?thesis by (simp add: run_simps stages_ok_def settling_ok_def in_flight_def split: if_split; auto)
next
  case 6
  with assms done_kinds [of us] show ?thesis by (simp add: run_simps stages_ok_def settling_ok_def in_flight_def split: if_split; auto)
qed (use assms in simp_all)

lemma run_calls:
  assumes "task_req t = Some i" "i < length (reqs p)" "stages_ok (reqs p ! i) (t # us)"
  shows "sent (reqs p ! i) \<Longrightarrow> sent (reqs (fst (run_task choice e t p)) ! i)"
    and "Call c \<in> set (tl (snd (run_task choice e t p))) \<Longrightarrow> sent (reqs p ! i)"
proof -
  have "(sent (reqs p ! i) \<longrightarrow> sent (reqs (fst (run_task choice e t p)) ! i))
    \<and> (Call c \<in> set (tl (snd (run_task choice e t p))) \<longrightarrow> sent (reqs p ! i))"
  proof (cases t rule: task_cases)
    case 5
    with assms start_kinds [of us] show ?thesis by (auto simp: run_simps stages_ok_def)
  next
    case 1
    with assms show ?thesis by (cases t) (auto simp: run_simps stages_ok_def split: option.split)
  next
    case 2
    with assms show ?thesis by (cases t) (auto simp: run_simps)
  qed (use assms in \<open>auto simp: run_simps\<close>)
  then show "sent (reqs p ! i) \<Longrightarrow> sent (reqs (fst (run_task choice e t p)) ! i)"
    "Call c \<in> set (tl (snd (run_task choice e t p))) \<Longrightarrow> sent (reqs p ! i)" by blast+
qed

lemma sum_change:
  fixes f g :: "nat \<Rightarrow> int"
  assumes "i < n" "\<And>j. j < n \<Longrightarrow> j \<noteq> i \<Longrightarrow> g j = f j"
  shows "(\<Sum>j<n. g j) = (\<Sum>j<n. f j) - f i + g i"
proof -
  have "(\<Sum>j\<in>{..<n} - {i}. g j) = (\<Sum>j\<in>{..<n} - {i}. f j)" using assms by (intro sum.cong) auto
  then show ?thesis using assms by (simp add: sum.remove [of "{..<n}" i])
qed

lemma set_tlD: "x \<in> set (tl xs) \<Longrightarrow> x \<in> set xs"
  by (cases xs) auto

lemma set_tl_append: "x \<in> set (tl (xs @ ys)) \<Longrightarrow> x \<in> set (tl xs) \<or> x \<in> set ys"
  by (cases xs) (auto dest: set_tlD)

lemma own_other: "\<forall>t\<in>set ts. task_req t \<noteq> None \<longrightarrow> task_req t = Some i \<Longrightarrow> j \<noteq> i \<Longrightarrow> own j ts = []"
  by (induction ts) auto

lemma ajax_inv_parts:
  assumes "ajax_inv (p, ts)"
  shows "t \<in> set ts \<Longrightarrow> task_req t = Some i \<Longrightarrow> i < length (reqs p)"
    "i < length (reqs p) \<Longrightarrow> stages_ok (reqs p ! i) (own i ts)"
    "i < length (reqs p) \<Longrightarrow> settling_ok (reqs p ! i) (own i ts)"
    "Call c \<in> set (tl ts) \<Longrightarrow> call_req c = Some i \<Longrightarrow> sent (reqs p ! i)"
    "active p = (\<Sum>i<length (reqs p). of_bool (in_flight (reqs p ! i) (own i ts)))"
  using assms by (auto simp: ajax_inv_def)

lemma own_calls:
  assumes "ajax_inv (p, t # ts)"
  shows "list_ex is_call (own i ts) \<longrightarrow> sent (reqs p ! i)"
  using ajax_inv_parts(4) [OF assms] by (force simp: list_ex_iff own_def elim: is_call.elims)

lemma run_own_inv:
  assumes inv: "ajax_inv (p, t # ts)" and run: "run_task choice e t p = (p', ts')" and t: "task_req t = Some i"
  shows "ajax_inv (p', ts' @ ts)"
proof -
  note parts = ajax_inv_parts [OF inv]
  have i: "i < length (reqs p)" using parts(1) t by auto
  note frame = run_frame [OF run t i]
  have st: "stages_ok (reqs p ! i) (t # own i ts)" and se: "settling_ok (reqs p ! i) (t # own i ts)"
    using parts(2,3) [OF i] t by simp_all
  have r: "fst (run_task choice e t p) = p'" "snd (run_task choice e t p) = ts'" using run by simp_all
  have own_j: "own j (ts' @ ts) = own j (t # ts)" if "j \<noteq> i" for j
    using own_other [OF frame(3) that] t that by simp
  have 1: "\<forall>u\<in>set (ts' @ ts). \<forall>j. task_req u = Some j \<longrightarrow> j < length (reqs p')"
    using frame(1,3) parts(1) i by fastforce
  have 2: "stages_ok (reqs p' ! j) (own j (ts' @ ts)) \<and> settling_ok (reqs p' ! j) (own j (ts' @ ts))"
    if "j < length (reqs p')" for j
  proof (cases "j = i")
    case True
    then show ?thesis using run_stages [OF t i st own_calls [OF inv], of choice e] run_settling [OF t i st se, of choice e] r
      by simp
  next
    case False
    then show ?thesis using that frame(1,2) parts(2,3) [of j] own_j [of j] by simp
  qed
  have 3: "sent (reqs p' ! j)" if c: "Call c \<in> set (tl (ts' @ ts))" "call_req c = Some j" for c j
  proof -
    have j: "j < length (reqs p)" using 1 frame(1) c by (metis set_tlD task_req.simps(2))
    have "sent (reqs p ! j)"
      using set_tl_append [OF c(1)] run_calls(2) [OF t i st, of c choice e] parts(4) [of c j] c(2) frame(3) r
      by (force dest: set_tlD)
    then show ?thesis using run_calls(1) [OF t i st, of choice e] frame(2) [of j] r j by (cases "j = i") auto
  qed
  have "active p' = (\<Sum>j<length (reqs p). of_bool (in_flight (reqs p' ! j) (own j (ts' @ ts))))"
    using sum_change [of i "length (reqs p)" "\<lambda>j. of_bool (in_flight (reqs p' ! j) (own j (ts' @ ts)))"
        "\<lambda>j. of_bool (in_flight (reqs p ! j) (own j (t # ts)))"] i frame(2) own_j
      run_active [OF t i st se, of choice e] r parts(5) t by simp
  then show ?thesis using 1 2 3 frame(1) by (simp add: ajax_inv_def)
qed

lemma own_none: "\<forall>t\<in>set ts. \<forall>j. task_req t = Some j \<longrightarrow> j < n \<Longrightarrow> own n ts = []"
  by (induction ts) auto

lemma user_inv: "ajax_inv (p, []) \<Longrightarrow> ajax_inv (p, [User])"
  "ajax_inv (p, User # ts) \<Longrightarrow> ajax_inv (p, ts)"
  by (auto simp: ajax_inv_def dest: set_tlD)

lemma ajax_call_inv:
  assumes "ajax_inv (p, Call (Ajax o') # ts)"
  shows "ajax_inv (p\<lparr>reqs := reqs p @ [new_xhr o']\<rparr>, [User, AfterPrefilters (length (reqs p))] @ ts)"
proof -
  let ?n = "length (reqs p)"
  note parts = ajax_inv_parts [OF assms]
  have ts: "\<forall>t\<in>set ts. \<forall>j. task_req t = Some j \<longrightarrow> j < ?n" using parts(1) by auto
  have new: "stages_ok (new_xhr o') [AfterPrefilters ?n]" "settling_ok (new_xhr o') [AfterPrefilters ?n]"
    "\<not> in_flight (new_xhr o') [AfterPrefilters ?n]"
    by (simp_all add: stages_ok_def settling_ok_def in_flight_def new_xhr_def)
  have own: "own i ([User, AfterPrefilters ?n] @ ts) = (if i = ?n then [AfterPrefilters ?n] else own i ts)" for i
    using own_none [OF ts] by simp
  show ?thesis unfolding ajax_inv_def prod.case
  proof (intro conjI allI impI ballI)
    fix t i assume "t \<in> set ([User, AfterPrefilters ?n] @ ts)" "task_req t = Some i"
    then show "i < length (reqs (p\<lparr>reqs := reqs p @ [new_xhr o']\<rparr>))" using ts by fastforce
  next
    fix i assume "i < length (reqs (p\<lparr>reqs := reqs p @ [new_xhr o']\<rparr>))"
    then show "stages_ok (reqs (p\<lparr>reqs := reqs p @ [new_xhr o']\<rparr>) ! i) (own i ([User, AfterPrefilters ?n] @ ts))"
      "settling_ok (reqs (p\<lparr>reqs := reqs p @ [new_xhr o']\<rparr>) ! i) (own i ([User, AfterPrefilters ?n] @ ts))"
      unfolding own using new parts(2,3) [of i] by (auto simp: nth_append less_Suc_eq)
  next
    fix c j assume "Call c \<in> set (tl ([User, AfterPrefilters ?n] @ ts))" "call_req c = Some j"
    then show "sent (reqs (p\<lparr>reqs := reqs p @ [new_xhr o']\<rparr>) ! j)"
      using parts(4) [of c j] ts by (fastforce simp: nth_append)
  next
    have "(\<Sum>i<?n. of_bool (in_flight ((reqs p @ [new_xhr o']) ! i) (own i ([User, AfterPrefilters ?n] @ ts)))) = active p"
      unfolding own parts(5) by (rule sum.cong) (auto simp: nth_append)
    then show "active (p\<lparr>reqs := reqs p @ [new_xhr o']\<rparr>) =
        (\<Sum>i<length (reqs (p\<lparr>reqs := reqs p @ [new_xhr o']\<rparr>)).
          of_bool (in_flight (reqs (p\<lparr>reqs := reqs p @ [new_xhr o']\<rparr>) ! i) (own i ([User, AfterPrefilters ?n] @ ts))))"
      using new(3) own [of ?n] by simp
  qed
qed

lemma run_inv:
  assumes inv: "ajax_inv (p, t # ts)" and run: "run_task choice e t p = (p', ts')"
  shows "ajax_inv (p', ts' @ ts)"
proof (cases "task_req t")
  case None
  then show ?thesis using inv run user_inv(2) ajax_call_inv
    by (cases t rule: task_cases; fastforce simp: run_task_def elim: is_start.elims is_after_send.elims is_done.elims)
next
  case (Some i)
  then show ?thesis by (rule run_own_inv [OF inv run])
qed

lemma call_inv:
  assumes inv: "ajax_inv (p, ts)" and ok: "allowed True p ts c" and calls: "\<forall>c i. Call c \<in> set ts \<longrightarrow> call_req c = Some i \<longrightarrow> sent (reqs p ! i)"
  shows "ajax_inv (p, Call c # ts)"
proof (cases "call_req c")
  case None
  then show ?thesis using inv calls by (auto simp: ajax_inv_def)
next
  case (Some i)
  note parts = ajax_inv_parts [OF inv]
  have i: "i < length (reqs p)" using ok Some by (cases c) auto
  have "\<not> list_ex is_unguarded (own i ts)"
    using ok Some parts(2) [OF i] start_kinds(1) [of "own i ts"] by (cases c) (auto simp: stages_ok_def)
  then have "stages_ok (reqs p ! i) (Call c # own i ts)" "settling_ok (reqs p ! i) (Call c # own i ts)"
    using parts(2,3) [OF i] by (auto simp: stages_ok_def settling_ok_def)
  moreover have "in_flight x (Call c # us) = in_flight x us" for x us by (simp add: in_flight_def)
  ultimately show ?thesis using inv Some i calls by (auto simp: ajax_inv_def)
qed

interpretation ajax_pages: invariant ajax_start "ajax_step True" ajax_inv
proof
  show "ajax_inv cfg" if "ajax_start cfg" for cfg
    using that by (simp add: ajax_start_def ajax_inv_def page0_def)
next
  fix cfg cfg' assume inv: "ajax_inv cfg" and "ajax_step True cfg cfg'"
  from this(2) show "ajax_inv cfg'"
  proof cases
    case (enter p)
    then show ?thesis using inv user_inv(1) by simp
  next
    case (timeout i p)
    have "ajax_inv (set_req i (\<lambda>x. x\<lparr>timer := False\<rparr>) p, [])"
      using inv timeout by (auto simp: ajax_inv_def stages_ok_def settling_ok_def in_flight_def split: if_splits intro!: arg_cong [where f = card])
    then show ?thesis unfolding timeout using timeout(3) by (intro call_inv) simp_all
  next
    case (call p ts c)
    have "allowed True p (User # ts) c" using call(3) by (cases c) auto
    then show ?thesis using inv unfolding call by (intro call_inv) (auto simp: ajax_inv_def)
  next
    case (run choice e t p p' ts' ts)
    then show ?thesis using inv run_inv by simp
  qed
qed

lemma ajax_inv_idle:
  assumes "ajax_inv (p, [])"
  shows "\<forall>x\<in>set (reqs p). (xstate x = 1 \<and> sent x \<and> has_transport x \<and> outcome x = None \<and> \<not> completed x)
      \<or> (xstate x = 2 \<and> \<not> has_transport x \<and> outcome x \<noteq> None \<and> completed x)"
    "active p = int (length (filter (\<lambda>x. fireGlobals x \<and> xstate x < 2) (reqs p)))"
proof -
  show "\<forall>x\<in>set (reqs p). (xstate x = 1 \<and> sent x \<and> has_transport x \<and> outcome x = None \<and> \<not> completed x)
      \<or> (xstate x = 2 \<and> \<not> has_transport x \<and> outcome x \<noteq> None \<and> completed x)"
  proof
    fix x assume "x \<in> set (reqs p)"
    then obtain i where "i < length (reqs p)" "reqs p ! i = x" by (auto simp: in_set_conv_nth)
    then have x: "stages_ok x []" "settling_ok x []" using ajax_inv_parts(2,3) [OF assms, of i] by simp_all
    then have "xstate x = 1 \<or> xstate x = 2" by (auto simp: stages_ok_def)
    then show "(xstate x = 1 \<and> sent x \<and> has_transport x \<and> outcome x = None \<and> \<not> completed x)
      \<or> (xstate x = 2 \<and> \<not> has_transport x \<and> outcome x \<noteq> None \<and> completed x)"
      using x by (auto simp: stages_ok_def settling_ok_def)
  qed
  have "active p = int (card {i. i < length (reqs p) \<and> fireGlobals (reqs p ! i) \<and> xstate (reqs p ! i) < 2})"
    unfolding ajax_inv_parts(5) [OF assms] by (simp add: in_flight_def) (auto intro!: arg_cong [where f = card])
  then show "active p = int (length (filter (\<lambda>x. fireGlobals x \<and> xstate x < 2) (reqs p)))"
    by (simp add: length_filter_conv_card)
qed

lemma ajax_inv_active: "ajax_inv (p, ts) \<Longrightarrow> 0 \<le> active p"
  by (simp add: ajax_inv_def)

text \<open>
  C6. On a page that does not abort a request in the unguarded part of its start,
  \<open>jQuery.active\<close> is never negative; and whenever no code runs, every request was either sent
  and is neither settled nor completed, with its transport in place, or it is done: its deferred is
  settled, its completion callbacks were fired and its transport was released. \<open>jQuery.active\<close> is
  then the number of requests with global events that are not done, so \<open>ajaxStart\<close> and \<open>ajaxStop\<close>
  enclose the requests.
\<close>

theorem ajax_requests_counted:
  assumes "reachable ajax_start (ajax_step True) (p, ts)"
  shows "0 \<le> active p \<and> (ts = [] \<longrightarrow>
      (\<forall>x\<in>set (reqs p).
          (xstate x = 1 \<and> sent x \<and> has_transport x \<and> outcome x = None \<and> \<not> completed x)
          \<or> (xstate x = 2 \<and> \<not> has_transport x \<and> outcome x \<noteq> None \<and> completed x))
      \<and> active p = int (length (filter (\<lambda>x. fireGlobals x \<and> xstate x < 2) (reqs p))))"
  using ajax_pages.reachable_inv [OF assms] ajax_inv_active ajax_inv_idle by blast

text \<open>
  Two requests with global events: the first is answered with status 200, the second is sent and
  not answered.
\<close>

definition plain_options :: ajax_options where
  "plain_options = \<lparr>glob = True, beforeSend = False, timed = True, head = False\<rparr>"

definition go :: "nat \<Rightarrow> ajax_move list" where
  "go n = replicate n (Run True ''x'')"

definition two_requests :: "ajax_move list" where
  "two_requests = [Enter, Make (Ajax plain_options)] @ go 9 @ [Run False []] @ go 2 @ [Make (Ajax plain_options)] @ go 8
     @ [Run False []] @ go 2 @ [Make (Done 0 200 ''OK'' ConvSuccess)] @ go 13"

lemmas play_defs = two_requests_def go_def plain_options_def page0_def new_xhr_def set_req_def run_task_def done_call_def
  after_prefilters_def done_result_def isSuccess_status_def own_def

theorem ajax_requests_counted_witness:
  "\<exists>p. play True two_requests (page0, []) = Some (p, []) \<and> length (reqs p) = 2 \<and> active p = 1
     \<and> active p = int (length (filter (\<lambda>x. fireGlobals x \<and> xstate x < 2) (reqs p)))"
proof -
  have "\<exists>p. play True two_requests (page0, []) = Some (p, []) \<and> length (reqs p) = 2 \<and> active p = 1"
    by (simp add: play_defs eval_nat_numeral)
  then obtain p where p: "play True two_requests (page0, []) = Some (p, [])" "length (reqs p) = 2" "active p = 1"
    by blast
  then show ?thesis using ajax_requests_counted [OF play_from_start [OF p(1)]] by simp
qed

text \<open>
  An \<open>ajaxSend\<close> handler that aborts the request: the request is finished there, and then it is
  sent all the same. \<open>transport\<close> is \<open>undefined\<close> by then, so \<open>send\<close> is a \<open>TypeError\<close>, the state is 1
  again, and the request is finished once more: \<open>jQuery.active\<close> is decremented twice.
\<close>

definition abort_in_ajaxSend :: "ajax_move list" where
  "abort_in_ajaxSend = [Enter, Make (Ajax plain_options)] @ go 8 @ [Make (Abort 0 [])] @ go 31"

lemma abort_in_ajaxSend_unbalanced:
  "\<exists>p. reachable ajax_start (ajax_step False) (p, []) \<and> active p = -1"
proof -
  have "\<exists>p. play False abort_in_ajaxSend (page0, []) = Some (p, []) \<and> active p = -1"
    by (simp add: abort_in_ajaxSend_def play_defs eval_nat_numeral)
  then show ?thesis using play_from_start by blast
qed

end
