(* ===== verification/JQuery_Data.thy ===== *)
theory JQuery_Data
  imports Doctools JQuery_Core "HOL-Library.AList"
begin

text \<open>
  The data of elements (jquery.js): \<open>jQuery.data\<close>, \<open>jQuery._data\<close>, \<open>jQuery.removeData\<close>,
  \<open>jQuery.hasData\<close> and \<open>jQuery.cleanData\<close>. The data of a node is in \<open>jQuery.cache\<close> under a number
  that the node carries and that is used again after the data is removed; the data of another
  object is in the object. Shown: for the page this is one map per element, public and private
  data apart: what is stored at an element does not show at any other.

  Elements are numbers, and what the code reads of them (\<open>elem_kind\<close>) is a parameter. The values
  are of any type. A property of a data object is found among its own properties: names that
  every object inherits (\<open>constructor\<close>) are not names of data here, and private data is not
  named \<open>data\<close>, the name of the public part.
\<close>

section \<open>Elements and entries\<close>

datatype elem_kind = PlainObject | Node (nodeType: nat) (nodeName: string) (classid: "string option")

fun is_node :: "elem_kind \<Rightarrow> bool" where
  "is_node PlainObject = False"
| "is_node (Node nt n c) = (nt \<noteq> 0)"

text \<open>\<open>jQuery.noData\<close>: \<open>None\<close> stands for \<open>true\<close>.\<close>

definition noData :: "(string \<times> string option) list" where
  "noData = [(''applet '', None), (''embed '', None),
     (''object '', Some ''clsid:D27CDB6E-AE6D-11cf-96B8-444553540000'')]"

fun acceptData :: "elem_kind \<Rightarrow> bool" where
  "acceptData PlainObject = True"
| "acceptData (Node nt n c) = (if nt \<noteq> 0 \<and> nt \<noteq> 1 \<and> nt \<noteq> 9 then False
     else (case map_of noData (toLowerCase (n @ '' '')) of
         None \<Rightarrow> True
       | Some None \<Rightarrow> False
       | Some (Some clsid) \<Rightarrow> c = Some clsid))"

text \<open>An entry of the cache: the private data, and the public data under the name \<open>data\<close>.\<close>

record 'v data_entry =
  priv :: "(string \<times> 'v) list"
  pub :: "(string \<times> 'v) list option"

definition entry0 :: "'v data_entry" where
  "entry0 = \<lparr>priv = [], pub = None\<rparr>"

text \<open>The last of the \<open>deletedIds\<close> is the head of the list.\<close>

record 'v data_store =
  expandos :: "nat \<Rightarrow> nat option"
  data_cache :: "nat \<Rightarrow> 'v data_entry option"
  own_data :: "nat \<Rightarrow> 'v data_entry option"
  deletedIds :: "nat list"
  data_guid :: nat

definition store0 :: "'v data_store" where
  "store0 = \<lparr>expandos = (\<lambda>e. None), data_cache = (\<lambda>i. None), own_data = (\<lambda>e. None), deletedIds = [], data_guid = 1\<rparr>"

type_synonym kinds = "nat \<Rightarrow> elem_kind"

definition entry_at :: "kinds \<Rightarrow> nat \<Rightarrow> 'v data_store \<Rightarrow> 'v data_entry option" where
  "entry_at K e s = (if is_node (K e) then Option.bind (expandos s e) (data_cache s) else own_data s e)"

definition set_entry :: "kinds \<Rightarrow> nat \<Rightarrow> 'v data_entry \<Rightarrow> 'v data_store \<Rightarrow> 'v data_store" where
  "set_entry K e en s =
     (if is_node (K e) then (case expandos s e of None \<Rightarrow> s | Some i \<Rightarrow> s\<lparr>data_cache := (data_cache s)(i := Some en)\<rparr>)
      else s\<lparr>own_data := (own_data s)(e := Some en)\<rparr>)"

section \<open>Storing and reading\<close>

definition new_id :: "kinds \<Rightarrow> nat \<Rightarrow> 'v data_store \<Rightarrow> 'v data_store" where
  "new_id K e s =
     (if is_node (K e) \<and> expandos s e = None then
        (case deletedIds s of
           [] \<Rightarrow> s\<lparr>expandos := (expandos s)(e := Some (data_guid s)), data_guid := data_guid s + 1\<rparr>
         | i # is \<Rightarrow> s\<lparr>expandos := (expandos s)(e := Some i), deletedIds := is\<rparr>)
      else s)"

definition ensure_entry :: "kinds \<Rightarrow> nat \<Rightarrow> 'v data_store \<Rightarrow> 'v data_store" where
  "ensure_entry K e s = (let s1 = new_id K e s in if entry_at K e s1 = None then set_entry K e entry0 s1 else s1)"

text \<open>The second argument of \<open>jQuery.data\<close>: a name, an object, or nothing.\<close>

datatype 'v data_name = Name string | Names "(string \<times> 'v) list" | NoName

datatype 'v data_result = Undefined | Value 'v | PublicData "(string \<times> 'v) list" | PrivateData "'v data_entry"

definition merge_names :: "(string \<times> 'v) list \<Rightarrow> (string \<times> 'v) list \<Rightarrow> (string \<times> 'v) list" where
  "merge_names kvs m = foldl (\<lambda>m (k, v). AList.update k v m) m kvs"

definition put_names :: "bool \<Rightarrow> 'v data_name \<Rightarrow> 'v data_entry \<Rightarrow> 'v data_entry" where
  "put_names pvt name en = (case name of
      Names kvs \<Rightarrow> if pvt then en\<lparr>priv := merge_names kvs (priv en)\<rparr>
        else en\<lparr>pub := Some (merge_names kvs (case pub en of None \<Rightarrow> [] | Some m \<Rightarrow> m))\<rparr>
    | _ \<Rightarrow> en)"

definition ensure_pub :: "bool \<Rightarrow> 'v data_entry \<Rightarrow> 'v data_entry" where
  "ensure_pub pvt en = (if \<not> pvt \<and> pub en = None then en\<lparr>pub := Some []\<rparr> else en)"

definition put_value :: "bool \<Rightarrow> 'v data_name \<Rightarrow> 'v option \<Rightarrow> 'v data_entry \<Rightarrow> 'v data_entry" where
  "put_value pvt name data en = (case (name, data) of
      (Name n, Some v) \<Rightarrow> if pvt then en\<lparr>priv := AList.update (camelCase_jq n) v (priv en)\<rparr>
        else en\<lparr>pub := map_option (AList.update (camelCase_jq n) v) (pub en)\<rparr>
    | _ \<Rightarrow> en)"

definition entry_map :: "bool \<Rightarrow> 'v data_entry \<Rightarrow> (string \<times> 'v) list" where
  "entry_map pvt en = (if pvt then priv en else case pub en of None \<Rightarrow> [] | Some m \<Rightarrow> m)"

text \<open>The name as it is, and where that gives nothing (\<open>nul\<close> is the test \<open>== null\<close>) the name in camel case.\<close>

definition read_name :: "('v \<Rightarrow> bool) \<Rightarrow> (string \<times> 'v) list \<Rightarrow> string \<Rightarrow> 'v data_result" where
  "read_name nul m n = (case map_of m n of
      Some v \<Rightarrow> if nul v then (case map_of m (camelCase_jq n) of None \<Rightarrow> Undefined | Some w \<Rightarrow> Value w) else Value v
    | None \<Rightarrow> (case map_of m (camelCase_jq n) of None \<Rightarrow> Undefined | Some w \<Rightarrow> Value w))"

definition no_data_yet :: "bool \<Rightarrow> 'v data_entry option \<Rightarrow> bool" where
  "no_data_yet pvt c = (case c of None \<Rightarrow> True | Some en \<Rightarrow> \<not> pvt \<and> pub en = None)"

fun is_name :: "'v data_name \<Rightarrow> bool" where
  "is_name (Name n) = True"
| "is_name x = False"

definition internalData :: "kinds \<Rightarrow> ('v \<Rightarrow> bool) \<Rightarrow> nat \<Rightarrow> 'v data_name \<Rightarrow> 'v option \<Rightarrow> bool \<Rightarrow> 'v data_store \<Rightarrow>
    'v data_result \<times> 'v data_store" where
  "internalData K nul e name data pvt s =
     (if \<not> acceptData (K e) then (Undefined, s)
      else if no_data_yet pvt (entry_at K e s) \<and> data = None \<and> is_name name then (Undefined, s)
      else (let s1 = ensure_entry K e s;
          en = put_value pvt name data (ensure_pub pvt (put_names pvt name (the (entry_at K e s1)))) in
        (case name of
           Name n \<Rightarrow> read_name nul (entry_map pvt en) n
         | _ \<Rightarrow> if pvt then PrivateData en else PublicData (entry_map pvt en),
         set_entry K e en s1)))"

section \<open>Removing\<close>

definition isEmptyDataObject :: "'v data_entry \<Rightarrow> bool" where
  "isEmptyDataObject en \<longleftrightarrow> (\<forall>(k, v)\<in>set (priv en). k = ''toJSON'') \<and> (pub en = None \<or> pub en = Some [])"

definition clean_elem :: "kinds \<Rightarrow> bool \<Rightarrow> nat \<Rightarrow> 'v data_store \<Rightarrow> 'v data_store" where
  "clean_elem K accept e s =
     (if accept \<or> acceptData (K e) then
        (case expandos s e of
           None \<Rightarrow> s
         | Some i \<Rightarrow> if data_cache s i = None then s
             else s\<lparr>data_cache := (data_cache s)(i := None), expandos := (expandos s)(e := None),
                    deletedIds := i # deletedIds s\<rparr>)
      else s)"

definition cleanData :: "kinds \<Rightarrow> nat list \<Rightarrow> bool \<Rightarrow> 'v data_store \<Rightarrow> 'v data_store" where
  "cleanData K es accept s = foldl (\<lambda>s e. clean_elem K accept e s) s es"

datatype remove_name_arg = RemoveName string | RemoveNames "string list" | RemoveAll

definition removed_names :: "remove_name_arg \<Rightarrow> (string \<times> 'v) list \<Rightarrow> string list" where
  "removed_names name m = (case name of
      RemoveName n \<Rightarrow> if n \<in> fst ` set m then [n]
        else (let c = camelCase_jq n in if c \<in> fst ` set m then [c] else split_on (CHR '' '') c)
    | RemoveNames ns \<Rightarrow> ns @ map camelCase_jq ns
    | RemoveAll \<Rightarrow> [])"

definition destroy_entry :: "kinds \<Rightarrow> nat \<Rightarrow> 'v data_store \<Rightarrow> 'v data_store" where
  "destroy_entry K e s = (if is_node (K e) then cleanData K [e] True s else s\<lparr>own_data := (own_data s)(e := None)\<rparr>)"

definition drop_pub :: "kinds \<Rightarrow> nat \<Rightarrow> bool \<Rightarrow> 'v data_entry \<Rightarrow> 'v data_store \<Rightarrow> 'v data_store" where
  "drop_pub K e pvt en s =
     (if pvt then destroy_entry K e s
      else (let en' = en\<lparr>pub := None\<rparr>; s' = set_entry K e en' s in
        if isEmptyDataObject en' then destroy_entry K e s' else s'))"

text \<open>A name that is the empty string is no name for the code.\<close>

definition internalRemoveData :: "kinds \<Rightarrow> nat \<Rightarrow> remove_name_arg \<Rightarrow> bool \<Rightarrow> 'v data_store \<Rightarrow> 'v data_store" where
  "internalRemoveData K e name pvt s =
     (if \<not> acceptData (K e) then s
      else (case entry_at K e s of
         None \<Rightarrow> s
       | Some en \<Rightarrow>
           if name = RemoveAll \<or> name = RemoveName [] \<or> \<not> pvt \<and> pub en = None then drop_pub K e pvt en s
           else (let m = fold AList.delete (removed_names name (entry_map pvt en)) (entry_map pvt en);
               en' = (if pvt then en\<lparr>priv := m\<rparr> else en\<lparr>pub := Some m\<rparr>);
               s' = set_entry K e en' s in
             if (if pvt then isEmptyDataObject en' else m = []) then drop_pub K e pvt en' s' else s')))"

definition hasData :: "kinds \<Rightarrow> nat \<Rightarrow> 'v data_store \<Rightarrow> bool" where
  "hasData K e s = (case entry_at K e s of None \<Rightarrow> False | Some en \<Rightarrow> \<not> isEmptyDataObject en)"

section \<open>What the page sees\<close>

definition dview :: "kinds \<Rightarrow> 'v data_store \<Rightarrow> nat \<Rightarrow> bool \<Rightarrow> string \<Rightarrow> 'v option" where
  "dview K s e pvt k = (case entry_at K e s of None \<Rightarrow> None | Some en \<Rightarrow> map_of (entry_map pvt en) k)"

text \<open>
  Every number a node carries is its own, is in use and is not waiting to be used again; and what
  is waiting has no entry in the cache.
\<close>

definition wf_data :: "kinds \<Rightarrow> 'v data_store \<Rightarrow> bool" where
  "wf_data K s \<longleftrightarrow>
     (\<forall>e i. expandos s e = Some i \<longrightarrow> is_node (K e) \<and> data_cache s i \<noteq> None)
     \<and> (\<forall>e e' i. expandos s e = Some i \<longrightarrow> expandos s e' = Some i \<longrightarrow> e = e')
     \<and> (\<forall>i. data_cache s i \<noteq> None \<longrightarrow> i < data_guid s \<and> i \<notin> set (deletedIds s))
     \<and> distinct (deletedIds s) \<and> (\<forall>i\<in>set (deletedIds s). i < data_guid s)"

lemma wf_dataD:
  assumes "wf_data K s"
  shows "expandos s e = Some i \<Longrightarrow> is_node (K e)" "expandos s e = Some i \<Longrightarrow> data_cache s i \<noteq> None"
    "expandos s e = Some i \<Longrightarrow> expandos s e' = Some i \<Longrightarrow> e = e'"
    "data_cache s i \<noteq> None \<Longrightarrow> i < data_guid s" "data_cache s i \<noteq> None \<Longrightarrow> i \<notin> set (deletedIds s)"
  using assms unfolding wf_data_def by blast+

lemma wf_dataI:
  assumes "\<And>e i. expandos s e = Some i \<Longrightarrow> is_node (K e) \<and> data_cache s i \<noteq> None"
    "\<And>e e' i. expandos s e = Some i \<Longrightarrow> expandos s e' = Some i \<Longrightarrow> e = e'"
    "\<And>i. data_cache s i \<noteq> None \<Longrightarrow> i < data_guid s \<and> i \<notin> set (deletedIds s)"
    "distinct (deletedIds s)" "\<And>i. i \<in> set (deletedIds s) \<Longrightarrow> i < data_guid s"
  shows "wf_data K s"
  using assms unfolding wf_data_def by blast

lemma set_entry_spec:
  assumes "wf_data K s" "is_node (K e) \<longrightarrow> expandos s e \<noteq> None"
  shows "wf_data K (set_entry K e en s)"
    "entry_at K e' (set_entry K e en s) = (if e' = e then Some en else entry_at K e' s)"
    "expandos (set_entry K e en s) = expandos s"
  using assms wf_dataD [OF assms(1)]
  by (auto simp: set_entry_def wf_data_def entry_at_def split: option.splits bind_splits)

lemma ensure_entry_spec:
  assumes wf: "wf_data K s"
  shows "wf_data K (ensure_entry K e s)"
    "entry_at K e' (ensure_entry K e s) =
       (if e' = e then Some (case entry_at K e s of None \<Rightarrow> entry0 | Some en \<Rightarrow> en) else entry_at K e' s)"
    "is_node (K e) \<longrightarrow> expandos (ensure_entry K e s) e \<noteq> None"
proof -
  have "wf_data K (ensure_entry K e s) \<and> entry_at K e' (ensure_entry K e s) =
       (if e' = e then Some (case entry_at K e s of None \<Rightarrow> entry0 | Some en \<Rightarrow> en) else entry_at K e' s)
     \<and> (is_node (K e) \<longrightarrow> expandos (ensure_entry K e s) e \<noteq> None)"
  proof (cases "is_node (K e) \<and> expandos s e = None")
    case True
    obtain i g ds where i: "i \<notin> ran (expandos s)" "data_cache s i = None" "i < g" "data_guid s \<le> g"
      "i \<notin> set ds" "set ds \<subseteq> set (deletedIds s)" "distinct ds"
      and new: "new_id K e s = s\<lparr>expandos := (expandos s)(e := Some i), data_guid := g, deletedIds := ds\<rparr>"
    proof (cases "deletedIds s")
      case Nil
      then show ?thesis using that [of "data_guid s" "data_guid s + 1" "[]"] True wf
        by (fastforce simp: new_id_def wf_data_def ran_def)
    next
      case (Cons j js)
      then show ?thesis using that [of j "data_guid s" js] True wf
        by (fastforce simp: new_id_def wf_data_def ran_def)
    qed
    have eq: "ensure_entry K e s = s\<lparr>expandos := (expandos s)(e := Some i), data_guid := g, deletedIds := ds,
        data_cache := (data_cache s)(i := Some entry0)\<rparr>"
      using True i(2) by (simp add: ensure_entry_def new entry_at_def set_entry_def)
    have own: "expandos s e'' \<noteq> Some i" for e'' using i(1) by (auto simp: ran_def)
    have "wf_data K (ensure_entry K e s)" unfolding eq
    proof (rule wf_dataI, goal_cases)
      case (3 j)
      then show ?case using i wf_dataD(4,5) [OF wf, of j] by (cases "j = i") fastforce+
    next
      case (5 j)
      then show ?case using i wf by (fastforce simp: wf_data_def)
    qed (use i True own wf_dataD(1,2,3) [OF wf] in \<open>auto split: if_splits\<close>)
    moreover have "entry_at K e' (ensure_entry K e s) =
       (if e' = e then Some (case entry_at K e s of None \<Rightarrow> entry0 | Some en \<Rightarrow> en) else entry_at K e' s)"
      using True own [of e'] by (auto simp: eq entry_at_def split: bind_splits)
    ultimately show ?thesis by (simp add: eq)
  next
    case False
    then have id: "new_id K e s = s" by (auto simp: new_id_def)
    have some: "entry_at K e s \<noteq> None" if "is_node (K e)"
      using that False wf_dataD(2) [OF wf] by (auto simp: entry_at_def)
    show ?thesis using False wf set_entry_spec [OF wf, where e = e and en = entry0] some
      by (auto simp: ensure_entry_def id split: option.splits)
  qed
  then show "wf_data K (ensure_entry K e s)"
    "entry_at K e' (ensure_entry K e s) =
       (if e' = e then Some (case entry_at K e s of None \<Rightarrow> entry0 | Some en \<Rightarrow> en) else entry_at K e' s)"
    "is_node (K e) \<longrightarrow> expandos (ensure_entry K e s) e \<noteq> None" by blast+
qed

lemma clean_elem_spec:
  assumes wf: "wf_data K s" and "accept \<or> acceptData (K e)" "is_node (K e)"
  shows "wf_data K (clean_elem K accept e s)"
    "entry_at K e' (clean_elem K accept e s) = (if e' = e then None else entry_at K e' s)"
proof -
  show "wf_data K (clean_elem K accept e s)"
  proof (cases "expandos s e")
    case (Some i)
    then have "clean_elem K accept e s = s\<lparr>data_cache := (data_cache s)(i := None), expandos := (expandos s)(e := None),
        deletedIds := i # deletedIds s\<rparr>"
      using assms(2) wf_dataD(2) [OF wf, of e i] by (auto simp: clean_elem_def)
    moreover have "i < data_guid s" "i \<notin> set (deletedIds s)"
      using wf_dataD(2,4,5) [OF wf] Some by blast+
    ultimately show ?thesis using wf Some by (auto simp: wf_data_def split: if_splits)
  qed (use assms in \<open>simp add: clean_elem_def\<close>)
  show "entry_at K e' (clean_elem K accept e s) = (if e' = e then None else entry_at K e' s)"
    using assms wf_dataD(3) [OF wf, of e' _ e] by (auto simp: clean_elem_def entry_at_def split: option.splits bind_splits)
qed

lemma destroy_entry_spec:
  assumes "wf_data K s"
  shows "wf_data K (destroy_entry K e s)"
    "entry_at K e' (destroy_entry K e s) = (if e' = e then None else entry_at K e' s)"
  using clean_elem_spec [OF assms, where accept = True and e = e] assms
  by (cases "is_node (K e)"; simp add: destroy_entry_def cleanData_def; simp add: wf_data_def entry_at_def)+

lemma entry_node: "wf_data K s \<Longrightarrow> entry_at K e s \<noteq> None \<Longrightarrow> is_node (K e) \<longrightarrow> expandos s e \<noteq> None"
  by (auto simp: entry_at_def split: bind_splits)

lemma set_same:
  assumes "entry_at K e s = Some en"
  shows "set_entry K e en s = s"
proof -
  have "(data_cache s)(i := Some en) = data_cache s" if "data_cache s i = Some en" for i
    using that by (metis fun_upd_triv)
  moreover have "(own_data s)(e := Some en) = own_data s" if "own_data s e = Some en"
    using that by (metis fun_upd_triv)
  ultimately show ?thesis using assms by (auto simp: entry_at_def set_entry_def split: option.splits bind_splits)
qed

lemma ensure_same: "entry_at K e s = Some en \<Longrightarrow> ensure_entry K e s = s"
  by (auto simp: ensure_entry_def new_id_def entry_at_def)

section \<open>The operations on the view\<close>

lemma map_of_merge: "map_of (merge_names kvs m) k = (case map_of (rev kvs) k of None \<Rightarrow> map_of m k | Some v \<Rightarrow> Some v)"
  by (induction kvs arbitrary: m) (auto simp: merge_names_def update_conv' map_add_def split: option.splits)

definition new_entry :: "kinds \<Rightarrow> nat \<Rightarrow> 'v data_name \<Rightarrow> 'v option \<Rightarrow> bool \<Rightarrow> 'v data_store \<Rightarrow> 'v data_entry" where
  "new_entry K e name data pvt s = put_value pvt name data (ensure_pub pvt (put_names pvt name
     (case entry_at K e s of None \<Rightarrow> entry0 | Some en \<Rightarrow> en)))"

lemma internalData_entry:
  assumes wf: "wf_data K s" and "acceptData (K e)" "\<not> (no_data_yet pvt (entry_at K e s) \<and> data = None \<and> is_name name)"
  shows "wf_data K (snd (internalData K nul e name data pvt s))"
    "entry_at K e' (snd (internalData K nul e name data pvt s)) =
       (if e' = e then Some (new_entry K e name data pvt s) else entry_at K e' s)"
proof -
  have eq: "snd (internalData K nul e name data pvt s) = set_entry K e (new_entry K e name data pvt s) (ensure_entry K e s)"
    using assms ensure_entry_spec(2) [OF wf, of e e]
    by (auto simp: internalData_def Let_def new_entry_def)
  show "wf_data K (snd (internalData K nul e name data pvt s))"
    unfolding eq by (rule set_entry_spec(1) [OF ensure_entry_spec(1,3) [OF wf]])
  show "entry_at K e' (snd (internalData K nul e name data pvt s)) =
       (if e' = e then Some (new_entry K e name data pvt s) else entry_at K e' s)"
    unfolding eq by (simp add: set_entry_spec(2) [OF ensure_entry_spec(1,3) [OF wf]] ensure_entry_spec(2) [OF wf])
qed

lemma data_write:
  assumes "wf_data K s" "acceptData (K e)"
  shows "dview K (snd (internalData K nul e (Name n) (Some v) pvt s)) e' p k =
    (if e' = e \<and> p = pvt \<and> k = camelCase_jq n then Some v else dview K s e' p k)"
  using internalData_entry(2) [OF assms, where pvt = pvt and data = "Some v" and name = "Name n" and nul = nul and e' = e']
  by (auto simp: dview_def new_entry_def put_value_def ensure_pub_def put_names_def entry_map_def entry0_def update_conv'
      split: option.splits)

lemma data_write_all:
  assumes "wf_data K s" "acceptData (K e)"
  shows "dview K (snd (internalData K nul e (Names kvs) None pvt s)) e' p k =
    (case map_of (rev kvs) k of Some v \<Rightarrow> if e' = e \<and> p = pvt then Some v else dview K s e' p k | None \<Rightarrow> dview K s e' p k)"
  using internalData_entry(2) [OF assms, where pvt = pvt and data = None and name = "Names kvs" and nul = nul and e' = e']
  by (auto simp: dview_def new_entry_def put_value_def ensure_pub_def put_names_def entry_map_def entry0_def map_of_merge
      split: option.splits)

lemma data_read:
  "internalData K nul e (Name n) None pvt s =
    (if acceptData (K e) \<and> entry_at K e s \<noteq> None then read_name nul (entry_map pvt (the (entry_at K e s))) n else Undefined, s)"
proof (cases "entry_at K e s")
  case (Some en)
  show ?thesis
  proof (cases "pvt \<or> pub en \<noteq> None")
    case True
    then have "put_value pvt (Name n) None (ensure_pub pvt (put_names pvt (Name n) en)) = en"
      by (auto simp: put_value_def ensure_pub_def put_names_def)
    then show ?thesis using Some True
      by (auto simp: internalData_def no_data_yet_def Let_def ensure_same set_same)
  next
    case False
    then show ?thesis using Some by (simp add: internalData_def no_data_yet_def entry_map_def read_name_def)
  qed
qed (simp add: internalData_def no_data_yet_def)

lemma empty_entry: "isEmptyDataObject en \<Longrightarrow> p \<longrightarrow> k \<noteq> ''toJSON'' \<Longrightarrow> map_of (entry_map p en) k = None"
  by (auto simp: isEmptyDataObject_def entry_map_def map_of_eq_None_iff)

lemma drop_pub_spec:
  assumes wf: "wf_data K s" and en: "entry_at K e s = Some en"
  shows "wf_data K (drop_pub K e pvt en s)"
    "p \<longrightarrow> k \<noteq> ''toJSON'' \<Longrightarrow> dview K (drop_pub K e pvt en s) e' p k =
       (if e' = e \<and> (pvt \<or> \<not> p) then None else dview K s e' p k)"
proof -
  let ?en = "en\<lparr>pub := None\<rparr>" and ?s = "set_entry K e (en\<lparr>pub := None\<rparr>) s"
  have node: "is_node (K e) \<longrightarrow> expandos s e \<noteq> None" using entry_node [OF wf] en by simp
  note set = set_entry_spec [OF wf node, where en = ?en]
  show "wf_data K (drop_pub K e pvt en s)"
    using destroy_entry_spec(1) [OF wf] destroy_entry_spec(1) [OF set(1)] set(1) by (simp add: drop_pub_def Let_def)
  assume k: "p \<longrightarrow> k \<noteq> ''toJSON''"
  have "map_of (entry_map p ?en) k = None" if "isEmptyDataObject ?en" by (rule empty_entry [OF that k])
  moreover have "map_of (entry_map True ?en) k = map_of (entry_map True en) k" "map_of (entry_map False ?en) k = None"
    by (simp_all add: entry_map_def)
  ultimately show "dview K (drop_pub K e pvt en s) e' p k = (if e' = e \<and> (pvt \<or> \<not> p) then None else dview K s e' p k)"
    using destroy_entry_spec(2) [OF wf, of e' e] destroy_entry_spec(2) [OF set(1), of e' e] set(2) [of e'] en
    by (cases p; cases pvt) (auto simp: drop_pub_def Let_def dview_def)
qed

lemma map_of_deletes: "map_of (fold AList.delete ks m) k = (if k \<in> set ks then None else map_of m k)"
  by (induction ks arbitrary: m) (auto simp: delete_conv')

definition kept :: "remove_name_arg \<Rightarrow> bool \<Rightarrow> 'v data_entry \<Rightarrow> 'v data_entry" where
  "kept name pvt en = (let m = fold AList.delete (removed_names name (entry_map pvt en)) (entry_map pvt en) in
     if pvt then en\<lparr>priv := m\<rparr> else en\<lparr>pub := Some m\<rparr>)"

lemma kept_view: "map_of (entry_map p (kept name pvt en)) k =
    (if p = pvt \<and> k \<in> set (removed_names name (entry_map pvt en)) then None else map_of (entry_map p en) k)"
  by (cases p; cases pvt) (auto simp: kept_def entry_map_def map_of_deletes Let_def)

lemma removeData_kept:
  assumes "acceptData (K e)" "entry_at K e s = Some en" "name \<noteq> RemoveAll" "name \<noteq> RemoveName []" "pvt \<or> pub en \<noteq> None"
  shows "internalRemoveData K e name pvt s = (let s' = set_entry K e (kept name pvt en) s in
     if (if pvt then isEmptyDataObject (kept name pvt en) else pub (kept name pvt en) = Some [])
     then drop_pub K e pvt (kept name pvt en) s' else s')"
  using assms by (auto simp: internalRemoveData_def kept_def Let_def)

lemma removeData_wf:
  assumes wf: "wf_data K s"
  shows "wf_data K (internalRemoveData K e name pvt s)"
proof (cases "entry_at K e s")
  case (Some en)
  have node: "is_node (K e) \<longrightarrow> expandos s e \<noteq> None" using entry_node [OF wf] Some by simp
  note set = set_entry_spec [OF wf node]
  show ?thesis
  proof (cases "\<not> acceptData (K e) \<or> name = RemoveAll \<or> name = RemoveName [] \<or> \<not> (pvt \<or> pub en \<noteq> None)")
    case True
    then show ?thesis using wf drop_pub_spec(1) [OF wf Some] Some by (auto simp: internalRemoveData_def)
  next
    case False
    then show ?thesis using removeData_kept [OF _ Some] set(1) drop_pub_spec(1) [OF set(1)] set(2) by (simp add: Let_def)
  qed
qed (simp add: internalRemoveData_def wf)

lemma data_remove:
  assumes wf: "wf_data K s" and acc: "acceptData (K e)" and name: "name \<noteq> RemoveAll" "name \<noteq> RemoveName []"
    and k: "p \<longrightarrow> k \<noteq> ''toJSON''"
  shows "dview K (internalRemoveData K e name pvt s) e' p k =
    (if e' = e \<and> p = pvt \<and> (\<exists>en. entry_at K e s = Some en \<and> k \<in> set (removed_names name (entry_map pvt en))) then None
     else dview K s e' p k)"
proof (cases "entry_at K e s")
  case (Some en)
  have node: "is_node (K e) \<longrightarrow> expandos s e \<noteq> None" using entry_node [OF wf] Some by simp
  note set = set_entry_spec [OF wf node, where en = "kept name pvt en"]
  show ?thesis
  proof (cases "pvt \<or> pub en \<noteq> None")
    case True
    have "entry_at K e (set_entry K e (kept name pvt en) s) = Some (kept name pvt en)" using set(2) by simp
    note drop = drop_pub_spec(2) [OF set(1) this k, of pvt e']
    have "map_of (entry_map p (kept name pvt en)) k = None" if "isEmptyDataObject (kept name pvt en)"
      by (rule empty_entry [OF that k])
    moreover have "map_of (entry_map False (kept name False en)) k = None" if "pub (kept name False en) = Some []"
      using that by (simp add: entry_map_def)
    ultimately show ?thesis
      using drop set(2) [of e'] Some kept_view [of p name pvt en k] removeData_kept [OF acc Some name True]
      by (cases p; cases pvt) (auto simp: Let_def dview_def split: if_splits)
  next
    case False
    then have "internalRemoveData K e name pvt s = drop_pub K e False en s" "\<not> pvt" "entry_map False en = []"
      using acc Some by (auto simp: internalRemoveData_def entry_map_def)
    then show ?thesis using drop_pub_spec(2) [OF wf Some k, of False e'] Some by (auto simp: dview_def)
  qed
qed (simp add: internalRemoveData_def)

section \<open>Pages\<close>

text \<open>The calls of a page, in any order; \<open>TakeGuid\<close> is another use of the counter \<open>jQuery.guid\<close>.\<close>

datatype 'v data_op = Data nat "'v data_name" "'v option" bool | RemoveData nat remove_name_arg bool
  | Clean "nat list" | TakeGuid

fun data_do :: "kinds \<Rightarrow> ('v \<Rightarrow> bool) \<Rightarrow> 'v data_op \<Rightarrow> 'v data_store \<Rightarrow> 'v data_store" where
  "data_do K nul (Data e name data pvt) s = snd (internalData K nul e name data pvt s)"
| "data_do K nul (RemoveData e name pvt) s = internalRemoveData K e name pvt s"
| "data_do K nul (Clean es) s = cleanData K es False s"
| "data_do K nul TakeGuid s = s\<lparr>data_guid := data_guid s + 1\<rparr>"

definition data_move :: "kinds \<Rightarrow> ('v \<Rightarrow> bool) \<Rightarrow> 'v data_store \<Rightarrow> 'v data_store \<Rightarrow> bool" where
  "data_move K nul s s' \<longleftrightarrow> (\<exists>op. s' = data_do K nul op s)"

lemma internalData_wf:
  assumes wf: "wf_data K s"
  shows "wf_data K (snd (internalData K nul e name data pvt s))"
proof (cases "acceptData (K e) \<and> \<not> (no_data_yet pvt (entry_at K e s) \<and> data = None \<and> is_name name)")
  case True
  then show ?thesis using internalData_entry(1) [OF wf] by blast
qed (use wf in \<open>auto simp: internalData_def\<close>)

lemma cleanData_wf: "wf_data K s \<Longrightarrow> wf_data K (cleanData K es accept s)"
proof (induction es arbitrary: s)
  case (Cons e es)
  have "wf_data K (clean_elem K accept e s)"
  proof (cases "(accept \<or> acceptData (K e)) \<and> is_node (K e)")
    case True
    then show ?thesis using clean_elem_spec(1) [OF Cons.prems] by blast
  next
    case False
    then show ?thesis using Cons.prems wf_dataD(1) [OF Cons.prems, of e]
      by (cases "expandos s e") (auto simp: clean_elem_def)
  qed
  then show ?case using Cons.IH by (simp add: cleanData_def)
qed (simp add: cleanData_def)

interpretation data_pages: invariant "\<lambda>s. s = store0" "data_move K nul" "wf_data K" for K nul
proof
  show "wf_data K s" if "s = store0" for s using that by (simp add: store0_def wf_data_def)
next
  fix s s' assume wf: "wf_data K s" and "data_move K nul s s'"
  then obtain op where "s' = data_do K nul op s" by (auto simp: data_move_def)
  then show "wf_data K s'"
    using wf internalData_wf [OF wf] removeData_wf [OF wf] cleanData_wf [OF wf]
    by (cases op) (auto simp: wf_data_def less_SucI)
qed

lemma data_read_view:
  assumes "acceptData (K e)"
  shows "internalData K nul e (Name n) None pvt s = ((case dview K s e pvt n of
      Some v \<Rightarrow> if nul v then (case dview K s e pvt (camelCase_jq n) of None \<Rightarrow> Undefined | Some w \<Rightarrow> Value w) else Value v
    | None \<Rightarrow> (case dview K s e pvt (camelCase_jq n) of None \<Rightarrow> Undefined | Some w \<Rightarrow> Value w)), s)"
  using assms by (auto simp: data_read dview_def read_name_def split: option.splits)

lemma removed_single:
  assumes "entry_at K e s = Some en" "dview K s e pvt (camelCase_jq n) \<noteq> None"
    and "camelCase_jq n = n \<or> dview K s e pvt n = None"
  shows "removed_names (RemoveName n) (entry_map pvt en) = [camelCase_jq n]"
  using assms map_of_eq_None_iff [of "entry_map pvt en"] by (auto simp: removed_names_def dview_def Let_def)

text \<open>
  C10. Whatever was stored and removed before, at this or at other elements: a value stored
  under a name is read back under this name; storing it changes nothing else, be it under another
  name, at another element or in the other (public or private) part; and removing the name
  removes this value only. The name must not have been stored as it is, without camel case,
  by an object argument before.
\<close>

theorem data_per_element:
  assumes "reachable (\<lambda>s. s = store0) (data_move K nul) s"
    and "acceptData (K e)" and "\<not> nul v" and "n \<noteq> []" and "camelCase_jq n = n \<or> dview K s e pvt n = None"
    and "s' = snd (internalData K nul e (Name n) (Some v) pvt s)"
  shows "internalData K nul e (Name n) None pvt s' = (Value v, s')
    \<and> dview K s' e' p k = (if (e', p, k) = (e, pvt, camelCase_jq n) then Some v else dview K s e' p k)
    \<and> ((p \<longrightarrow> k \<noteq> ''toJSON'') \<longrightarrow> dview K (internalRemoveData K e (RemoveName n) pvt s') e' p k =
          (if (e', p, k) = (e, pvt, camelCase_jq n) then None else dview K s e' p k))"
proof -
  have wf: "wf_data K s" using data_pages.reachable_inv [OF assms(1)] .
  have wf': "wf_data K s'" unfolding assms(6) by (rule internalData_wf [OF wf])
  have view: "dview K s' e' p k = (if e' = e \<and> p = pvt \<and> k = camelCase_jq n then Some v else dview K s e' p k)" for e' p k
    unfolding assms(6) by (rule data_write [OF wf assms(2)])
  obtain en where en: "entry_at K e s' = Some en" using view [of e pvt "camelCase_jq n"] by (auto simp: dview_def split: option.splits)
  have "removed_names (RemoveName n) (entry_map pvt en) = [camelCase_jq n]"
    using removed_single [OF en, of pvt n] view assms(5) by auto
  then show ?thesis
    using data_read_view [where K = K and e = e and nul = nul and n = n and pvt = pvt and s = s', OF assms(2)] view assms(3,4,5)
      data_remove [OF wf' assms(2), of "RemoveName n" p k pvt e'] en by auto
qed

text \<open>The number of the first element, whose data is removed, is used again for the second one.\<close>

definition div_page :: kinds where
  "div_page e = Node 1 ''div'' None"

definition data_page :: "nat data_store" where
  "data_page = data_do div_page (\<lambda>v. False) (Clean [0])
     (data_do div_page (\<lambda>v. False) (Data 0 (Name ''foo-bar'') (Some 1) False) store0)"

lemma accept_div: "acceptData (div_page e)"
  by (simp add: div_page_def noData_def toLowerCase_def lower_char_def)

lemma data_page_reachable: "reachable (\<lambda>s. s = store0) (data_move div_page (\<lambda>v. False)) data_page"
proof -
  have step: "data_move div_page (\<lambda>v. False) s (data_do div_page (\<lambda>v. False) op s)" for op and s :: "nat data_store"
    by (auto simp: data_move_def)
  have "reachable (\<lambda>s. s = store0) (data_move div_page (\<lambda>v. False)) (store0 :: nat data_store)"
    by (rule reachable_start) simp
  then show ?thesis unfolding data_page_def by (blast intro: reachable_move step)
qed

lemmas data_evals = div_page_def data_page_def store0_def internalData_def ensure_entry_def new_id_def entry_at_def
  set_entry_def entry0_def put_names_def ensure_pub_def put_value_def entry_map_def read_name_def no_data_yet_def
  cleanData_def clean_elem_def noData_def toLowerCase_def lower_char_def camelCase_jq_def dash_alpha_def upper_char_def
  is_digit_def merge_names_def dview_def

theorem data_per_element_witness:
  "fst (internalData div_page (\<lambda>v. False) 1 (Name ''foo-bar'') None False
     (snd (internalData div_page (\<lambda>v. False) 1 (Name ''foo-bar'') (Some 5) False data_page))) = Value 5
   \<and> expandos (snd (internalData div_page (\<lambda>v. False) 1 (Name ''foo-bar'') (Some 5) False data_page)) 1 = Some 1"
proof -
  have "dview div_page data_page 1 False ''foo-bar'' = None" by (simp add: data_evals)
  then show ?thesis
    using data_per_element [OF data_page_reachable accept_div, where v = 5 and n = "''foo-bar''" and e = 1 and pvt = False, OF _ _ _ refl]
    by (simp add: data_evals)
qed

text \<open>
  Without the condition on the name: a value stored under a name that was stored by an object
  argument is not read back.
\<close>

lemma data_shadowed:
  "fst (internalData div_page (\<lambda>v. False) 0 (Name ''foo-bar'') None False
     (data_do div_page (\<lambda>v. False) (Data 0 (Name ''foo-bar'') (Some 2) False)
       (data_do div_page (\<lambda>v. False) (Data 0 (Names [(''foo-bar'', 1 :: nat)]) None False) store0))) = Value 1"
  by (simp add: data_evals)

section \<open>Private data as an interface\<close>

text \<open>
  \<open>jQuery._data\<close> and \<open>jQuery._removeData\<close>, for names that are not changed by camel case and are not
  taken apart. Other parts of jQuery rely on the laws of the locale only.
\<close>

definition get_data :: "kinds \<Rightarrow> nat \<Rightarrow> string \<Rightarrow> 'v data_store \<Rightarrow> 'v option" where
  "get_data K e n s = (case fst (internalData K (\<lambda>v. False) e (Name n) None True s) of Value v \<Rightarrow> Some v | _ \<Rightarrow> None)"

definition put_data :: "kinds \<Rightarrow> nat \<Rightarrow> string \<Rightarrow> 'v \<Rightarrow> 'v data_store \<Rightarrow> 'v data_store" where
  "put_data K e n v s = snd (internalData K (\<lambda>v. False) e (Name n) (Some v) True s)"

definition remove_data :: "kinds \<Rightarrow> nat \<Rightarrow> string \<Rightarrow> 'v data_store \<Rightarrow> 'v data_store" where
  "remove_data K e n s = internalRemoveData K e (RemoveName n) True s"

definition plain_name :: "string \<Rightarrow> bool" where
  "plain_name n \<longleftrightarrow> n \<noteq> [] \<and> camelCase_jq n = n \<and> CHR '' '' \<notin> set n \<and> n \<noteq> ''toJSON''"

locale private_data =
  fixes ok :: "'s \<Rightarrow> bool" and accepts :: "'e \<Rightarrow> bool" and name_ok :: "'n \<Rightarrow> bool"
    and get :: "'e \<Rightarrow> 'n \<Rightarrow> 's \<Rightarrow> 'v option" and put :: "'e \<Rightarrow> 'n \<Rightarrow> 'v \<Rightarrow> 's \<Rightarrow> 's" and rem :: "'e \<Rightarrow> 'n \<Rightarrow> 's \<Rightarrow> 's"
  assumes ok_put: "ok s \<Longrightarrow> accepts e \<Longrightarrow> name_ok n \<Longrightarrow> ok (put e n v s)"
    and ok_rem: "ok s \<Longrightarrow> accepts e \<Longrightarrow> name_ok n \<Longrightarrow> ok (rem e n s)"
    and get_put: "ok s \<Longrightarrow> accepts e \<Longrightarrow> name_ok n \<Longrightarrow> accepts e' \<Longrightarrow> name_ok n' \<Longrightarrow>
      get e' n' (put e n v s) = (if e' = e \<and> n' = n then Some v else get e' n' s)"
    and get_rem: "ok s \<Longrightarrow> accepts e \<Longrightarrow> name_ok n \<Longrightarrow> accepts e' \<Longrightarrow> name_ok n' \<Longrightarrow>
      get e' n' (rem e n s) = (if e' = e \<and> n' = n then None else get e' n' s)"
begin

text \<open>The data that is there or is stored now, and the removal of two names.\<close>

lemma get_ensure:
  assumes "ok s" "accepts e" "name_ok n" "accepts e'" "name_ok n'"
  shows "get e' n' (case get e n s of None \<Rightarrow> put e n v s | Some w \<Rightarrow> s) =
    (if e' = e \<and> n' = n then Some (case get e n s of None \<Rightarrow> v | Some w \<Rightarrow> w) else get e' n' s)"
  using assms by (auto simp: get_put split: option.split)

lemma ok_ensure:
  "ok s \<Longrightarrow> accepts e \<Longrightarrow> name_ok n \<Longrightarrow> ok (case get e n s of None \<Rightarrow> put e n v s | Some w \<Rightarrow> s)"
  by (auto simp: ok_put split: option.split)

lemma get_rem2:
  assumes "ok s" "accepts e" "name_ok n" "name_ok m" "accepts e'" "name_ok n'"
  shows "get e' n' (rem e m (rem e n s)) = (if e' = e \<and> (n' = n \<or> n' = m) then None else get e' n' s)"
  using assms by (auto simp: get_rem ok_rem)

end

lemma get_data_view: "acceptData (K e) \<Longrightarrow> plain_name n \<Longrightarrow> get_data K e n s = dview K s e True n"
  by (auto simp: get_data_def data_read_view [where K = K and e = e] plain_name_def split: option.splits)

interpretation elem_data: private_data "wf_data K" "\<lambda>e. acceptData (K e)" plain_name "get_data K" "put_data K" "remove_data K"
  for K
proof
  fix s :: "'v data_store" and e e' n n' v
  assume wf: "wf_data K s" and e: "acceptData (K e)" and n: "plain_name n"
  show "wf_data K (put_data K e n v s)" unfolding put_data_def by (rule internalData_wf [OF wf])
  show "wf_data K (remove_data K e n s)" unfolding remove_data_def by (rule removeData_wf [OF wf])
  assume e': "acceptData (K e')" and n': "plain_name n'"
  show "get_data K e' n' (put_data K e n v s) = (if e' = e \<and> n' = n then Some v else get_data K e' n' s)"
    using n by (simp add: get_data_view [where K = K, OF e' n'] put_data_def data_write [OF wf e] plain_name_def)
  have "(\<exists>en. entry_at K e s = Some en \<and> n' \<in> set (removed_names (RemoveName n) (entry_map True en))) \<longleftrightarrow>
      entry_at K e s \<noteq> None \<and> n' = n"
    using n split_on_none [of "CHR '' ''" n] by (auto simp: removed_names_def plain_name_def Let_def)
  then show "get_data K e' n' (remove_data K e n s) = (if e' = e \<and> n' = n then None else get_data K e' n' s)"
    using n n' data_remove [OF wf e, of "RemoveName n" True n' True e']
    by (auto simp: get_data_view [where K = K, OF e' n'] remove_data_def plain_name_def dview_def)
qed

end
