(* ===== verification/JQuery_Queue.thy ===== *)
theory JQuery_Queue
  imports JQuery_Data
begin

text \<open>
  The queues of functions of an element (jquery.js): \<open>jQuery.queue\<close>, \<open>jQuery.dequeue\<close>,
  \<open>jQuery._queueHooks\<close> and the methods \<open>queue\<close>, \<open>clearQueue\<close> and \<open>promise\<close>. A queue and its hooks are
  private data of the element. Shown for the effects queue: the functions run in the order in
  which they were queued, one at a time, none is left behind, and the promises of the queue are
  resolved when it is empty.
\<close>

section \<open>Queues and hooks\<close>

text \<open>
  A function of the page is a number. The hooks have the function that stops the effect, and the
  callbacks of \<open>empty\<close> that were added after the first one, each by its promise; the first
  callback removes the queue and the hooks.
\<close>

datatype queue_item = Inprogress | Fn nat

record queue_hooks =
  h_stop :: "nat option"
  h_empty :: "nat list"

datatype queue_val = Queue "queue_item list" | Hooks queue_hooks | OtherData nat

text \<open>A promise: what is left to count down, and whether its deferred is resolved.\<close>

record queue_page =
  q_store :: "queue_val data_store"
  q_promises :: "(int \<times> bool) list"

definition queue_name :: "string \<Rightarrow> string" where
  "queue_name type = (if type = [] then ''fx'' else type) @ ''queue''"

definition hooks_name :: "string \<Rightarrow> string" where
  "hooks_name type = type @ ''queueHooks''"

fun queue_of :: "queue_val option \<Rightarrow> queue_item list option" where
  "queue_of (Some (Queue q)) = Some q"
| "queue_of v = None"

fun hooks_of :: "queue_val option \<Rightarrow> queue_hooks option" where
  "hooks_of (Some (Hooks h)) = Some h"
| "hooks_of v = None"

text \<open>What is queued: one function, or an array of them.\<close>

datatype queue_data = One nat | Many "nat list"

fun makeArray_data :: "queue_data \<Rightarrow> queue_item list" where
  "makeArray_data (One f) = [Fn f]"
| "makeArray_data (Many fs) = map Fn fs"

definition queue_jq :: "kinds \<Rightarrow> nat \<Rightarrow> string \<Rightarrow> queue_data option \<Rightarrow> queue_val data_store \<Rightarrow>
    queue_item list \<times> queue_val data_store" where
  "queue_jq K e type data s = (let n = queue_name type; q = queue_of (get_data K e n s) in
     case data of
       None \<Rightarrow> (case q of None \<Rightarrow> [] | Some xs \<Rightarrow> xs, s)
     | Some d \<Rightarrow> (case (q, d) of
           (Some xs, One f) \<Rightarrow> (xs @ [Fn f], put_data K e n (Queue (xs @ [Fn f])) s)
         | _ \<Rightarrow> (makeArray_data d, put_data K e n (Queue (makeArray_data d)) s)))"

definition queueHooks :: "kinds \<Rightarrow> nat \<Rightarrow> string \<Rightarrow> queue_val data_store \<Rightarrow> queue_val data_store" where
  "queueHooks K e type s = (case get_data K e (hooks_name type) s of
      None \<Rightarrow> put_data K e (hooks_name type) (Hooks \<lparr>h_stop = None, h_empty = []\<rparr>) s
    | Some v \<Rightarrow> s)"

text \<open>An array that is the data of the element is changed in place.\<close>

definition set_queue :: "kinds \<Rightarrow> nat \<Rightarrow> string \<Rightarrow> queue_item list \<Rightarrow> queue_val data_store \<Rightarrow> queue_val data_store" where
  "set_queue K e type q s =
     (if queue_of (get_data K e (queue_name type) s) = None then s else put_data K e (queue_name type) (Queue q) s)"

definition set_hooks :: "kinds \<Rightarrow> nat \<Rightarrow> string \<Rightarrow> (queue_hooks \<Rightarrow> queue_hooks) \<Rightarrow> queue_val data_store \<Rightarrow> queue_val data_store" where
  "set_hooks K e type f s = (case hooks_of (get_data K e (hooks_name type) s) of
      None \<Rightarrow> s | Some h \<Rightarrow> put_data K e (hooks_name type) (Hooks (f h)) s)"

text \<open>The closure \<open>resolve\<close> of a promise.\<close>

definition resolve_promise :: "nat \<Rightarrow> queue_page \<Rightarrow> queue_page" where
  "resolve_promise i p = (if i < length (q_promises p) then
     (case q_promises p ! i of (c, r) \<Rightarrow> p\<lparr>q_promises := (q_promises p)[i := (c - 1, r \<or> c - 1 = 0)]\<rparr>) else p)"

definition fire_empty :: "kinds \<Rightarrow> nat \<Rightarrow> string \<Rightarrow> queue_page \<Rightarrow> queue_page" where
  "fire_empty K e type p = (case hooks_of (get_data K e (hooks_name type) (q_store p)) of
      None \<Rightarrow> p
    | Some h \<Rightarrow> foldl (\<lambda>p i. resolve_promise i p)
        (p\<lparr>q_store := remove_data K e (hooks_name type) (remove_data K e (queue_name type) (q_store p))\<rparr>) (h_empty h))"

text \<open>
  \<open>dequeue\<close>: the function that is to be called now, if any, and the page. The call is the last
  thing that happens: with a function to call \<open>startLength\<close> is not 0.
\<close>

definition dequeue_jq :: "kinds \<Rightarrow> nat \<Rightarrow> string \<Rightarrow> queue_page \<Rightarrow> nat option \<times> queue_page" where
  "dequeue_jq K e type' p = (let type = (if type' = [] then ''fx'' else type');
       q = fst (queue_jq K e type None (q_store p));
       startLength = length q;
       s1 = queueHooks K e type (set_queue K e type (tl q) (q_store p));
       (q1, startLength1) = (if q \<noteq> [] \<and> hd q = Inprogress then (tl q, startLength - 1) else (q, startLength));
       s2 = (if q \<noteq> [] \<and> hd q = Inprogress then set_queue K e type (tl q1) s1 else s1) in
     case q1 of
       Fn f # q2 \<Rightarrow> (Some f, p\<lparr>q_store := set_hooks K e type (\<lambda>h. h\<lparr>h_stop := None\<rparr>)
           (if type = ''fx'' then set_queue K e type (Inprogress # q2) s2 else s2)\<rparr>)
     | _ \<Rightarrow> (None, if startLength1 = 0 then fire_empty K e type (p\<lparr>q_store := s2\<rparr>) else p\<lparr>q_store := s2\<rparr>))"

text \<open>The method \<open>queue\<close> with something to queue, for one element; \<open>clearQueue\<close> queues an empty array.\<close>

definition queue_method :: "kinds \<Rightarrow> nat \<Rightarrow> string \<Rightarrow> queue_data \<Rightarrow> queue_page \<Rightarrow> nat option \<times> queue_page" where
  "queue_method K e type data p = (case queue_jq K e type (Some data) (q_store p) of (q, s) \<Rightarrow>
     let p1 = p\<lparr>q_store := queueHooks K e type s\<rparr> in
     if type = ''fx'' \<and> \<not> (q \<noteq> [] \<and> hd q = Inprogress) then dequeue_jq K e type p1 else (None, p1))"

definition clearQueue :: "kinds \<Rightarrow> nat \<Rightarrow> string \<Rightarrow> queue_page \<Rightarrow> nat option \<times> queue_page" where
  "clearQueue K e type p = queue_method K e (if type = [] then ''fx'' else type) (Many []) p"

text \<open>\<open>promise\<close>: the last element first.\<close>

definition promise_add :: "kinds \<Rightarrow> string \<Rightarrow> nat \<Rightarrow> nat \<Rightarrow> queue_page \<Rightarrow> queue_page" where
  "promise_add K type i e p = (case hooks_of (get_data K e (hooks_name type) (q_store p)) of
      None \<Rightarrow> p
    | Some h \<Rightarrow> p\<lparr>q_promises := (q_promises p)[i := (fst (q_promises p ! i) + 1, snd (q_promises p ! i))],
          q_store := set_hooks K e type (\<lambda>h. h\<lparr>h_empty := h_empty h @ [i]\<rparr>) (q_store p)\<rparr>)"

definition promise_jq :: "kinds \<Rightarrow> nat list \<Rightarrow> string \<Rightarrow> queue_page \<Rightarrow> queue_page" where
  "promise_jq K es type' p = (let type = (if type' = [] then ''fx'' else type'); i = length (q_promises p) in
     resolve_promise i (foldl (\<lambda>p e. promise_add K type i e p) (p\<lparr>q_promises := q_promises p @ [(1, False)]\<rparr>) (rev es)))"

section \<open>The effects queue of one element\<close>

lemma fx_names [simp]: "queue_name ''fx'' = ''fxqueue''" "queue_name [] = ''fxqueue''" "hooks_name ''fx'' = ''fxqueueHooks''"
  by (simp_all add: queue_name_def hooks_name_def)

lemma fx_plain [simp]: "plain_name ''fxqueue''" "plain_name ''fxqueueHooks''"
  by (simp_all add: plain_name_def camelCase_jq_def)

lemmas data_laws = elem_data.get_put elem_data.get_rem elem_data.ok_put elem_data.ok_rem

text \<open>Only the effects queue of an element and its hooks are changed.\<close>

definition fx_frame :: "kinds \<Rightarrow> nat \<Rightarrow> queue_val data_store \<Rightarrow> queue_val data_store \<Rightarrow> bool" where
  "fx_frame K e s s' \<longleftrightarrow> wf_data K s' \<and> (\<forall>e' n. acceptData (K e') \<longrightarrow> plain_name n \<longrightarrow>
     \<not> (e' = e \<and> (n = ''fxqueue'' \<or> n = ''fxqueueHooks'')) \<longrightarrow> get_data K e' n s' = get_data K e' n s)"

lemma queue_idle:
  assumes "wf_data K (q_store p)" "acceptData (K e)"
    and "get_data K e ''fxqueue'' (q_store p) = None" "get_data K e ''fxqueueHooks'' (q_store p) = None"
  shows "\<exists>s. queue_method K e ''fx'' (One f) p = (Some f, p\<lparr>q_store := s\<rparr>) \<and> fx_frame K e (q_store p) s
    \<and> get_data K e ''fxqueue'' s = Some (Queue [Inprogress])
    \<and> get_data K e ''fxqueueHooks'' s = Some (Hooks \<lparr>h_stop = None, h_empty = []\<rparr>)"
  using assms
  by (simp add: queue_method_def queue_jq_def queueHooks_def dequeue_jq_def set_queue_def set_hooks_def fx_frame_def
      data_laws Let_def)
    (rule exI, rule conjI, rule refl, auto simp: data_laws)

lemma queue_busy:
  assumes "wf_data K (q_store p)" "acceptData (K e)"
    and "get_data K e ''fxqueue'' (q_store p) = Some (Queue (Inprogress # q))"
    and "get_data K e ''fxqueueHooks'' (q_store p) = Some (Hooks h)"
  shows "\<exists>s. queue_method K e ''fx'' (One f) p = (None, p\<lparr>q_store := s\<rparr>) \<and> fx_frame K e (q_store p) s
    \<and> get_data K e ''fxqueue'' s = Some (Queue (Inprogress # q @ [Fn f]))
    \<and> get_data K e ''fxqueueHooks'' s = Some (Hooks h)"
  using assms by (simp add: queue_method_def queue_jq_def queueHooks_def fx_frame_def data_laws)
    (rule exI, rule conjI, rule refl, auto simp: data_laws)

lemma dequeue_next:
  assumes "wf_data K (q_store p)" "acceptData (K e)"
    and "get_data K e ''fxqueue'' (q_store p) = Some (Queue (Inprogress # Fn g # q))"
    and "get_data K e ''fxqueueHooks'' (q_store p) = Some (Hooks h)"
  shows "\<exists>s. dequeue_jq K e ''fx'' p = (Some g, p\<lparr>q_store := s\<rparr>) \<and> fx_frame K e (q_store p) s
    \<and> get_data K e ''fxqueue'' s = Some (Queue (Inprogress # q))
    \<and> get_data K e ''fxqueueHooks'' s = Some (Hooks (h\<lparr>h_stop := None\<rparr>))"
  using assms
  by (simp add: queue_jq_def queueHooks_def dequeue_jq_def set_queue_def set_hooks_def fx_frame_def data_laws Let_def)
    (rule exI, rule conjI, rule refl, auto simp: data_laws)

lemma dequeue_last:
  assumes "wf_data K (q_store p)" "acceptData (K e)"
    and "get_data K e ''fxqueue'' (q_store p) = Some (Queue [Inprogress])"
    and "get_data K e ''fxqueueHooks'' (q_store p) = Some (Hooks h)"
  shows "\<exists>s. dequeue_jq K e ''fx'' p = (None, foldl (\<lambda>p i. resolve_promise i p) (p\<lparr>q_store := s\<rparr>) (h_empty h))
    \<and> fx_frame K e (q_store p) s
    \<and> get_data K e ''fxqueue'' s = None \<and> get_data K e ''fxqueueHooks'' s = None"
  using assms
  by (simp add: queue_jq_def queueHooks_def dequeue_jq_def set_queue_def fire_empty_def fx_frame_def data_laws Let_def)
    (rule exI, rule conjI, rule refl, auto simp: data_laws)

section \<open>Promises\<close>

text \<open>The promises that wait for the queue of an element.\<close>

definition awaiting :: "kinds \<Rightarrow> queue_val data_store \<Rightarrow> nat \<Rightarrow> nat list" where
  "awaiting K s e = (case hooks_of (get_data K e ''fxqueueHooks'' s) of None \<Rightarrow> [] | Some h \<Rightarrow> h_empty h)"

definition awaited :: "kinds \<Rightarrow> nat \<Rightarrow> queue_val data_store \<Rightarrow> nat \<Rightarrow> int" where
  "awaited K n s i = (\<Sum>e<n. int (count_list (awaiting K s e) i))"

text \<open>
  The count of a promise is the number of queues it waits for and of calls of its \<open>resolve\<close> that
  are still to be made (\<open>L\<close>).
\<close>

definition promises_ok :: "kinds \<Rightarrow> nat \<Rightarrow> nat list \<Rightarrow> queue_page \<Rightarrow> bool" where
  "promises_ok K n L p \<longleftrightarrow>
     (\<forall>i<length (q_promises p). fst (q_promises p ! i) = awaited K n (q_store p) i + int (count_list L i)
        \<and> (snd (q_promises p ! i) \<longleftrightarrow> fst (q_promises p ! i) = 0))
     \<and> (\<forall>e<n. \<forall>i\<in>set (awaiting K (q_store p) e). i < length (q_promises p)) \<and> (\<forall>i\<in>set L. i < length (q_promises p))"

lemma awaited_nonneg: "0 \<le> awaited K n s i"
  by (simp add: awaited_def sum_nonneg)

lemma promises_resolve:
  assumes "promises_ok K n (i # L) p"
  shows "promises_ok K n L (resolve_promise i p)" "q_store (resolve_promise i p) = q_store p"
proof -
  have i: "i < length (q_promises p)" using assms by (simp add: promises_ok_def)
  obtain c r where cr: "q_promises p ! i = (c, r)" by fastforce
  then have "c = awaited K n (q_store p) i + int (count_list L i) + 1" "r \<longleftrightarrow> c = 0"
    using assms i by (auto simp: promises_ok_def)
  then show "promises_ok K n L (resolve_promise i p)"
    using assms i cr awaited_nonneg [of K n "q_store p" i]
    by (auto simp: promises_ok_def resolve_promise_def nth_list_update)
  show "q_store (resolve_promise i p) = q_store p" by (auto simp: resolve_promise_def split: prod.split)
qed

lemma promises_resolve_all:
  "promises_ok K n L p \<Longrightarrow> promises_ok K n [] (foldl (\<lambda>p i. resolve_promise i p) p L)
    \<and> q_store (foldl (\<lambda>p i. resolve_promise i p) p L) = q_store p"
proof (induction L arbitrary: p)
  case (Cons i L)
  then show ?case using promises_resolve [OF Cons.prems] by simp
qed simp

lemma awaiting_frame:
  assumes "fx_frame K e s s'" "e' \<noteq> e"
  shows "awaiting K s' e' = awaiting K s e'"
proof (cases "acceptData (K e')")
  case True
  then show ?thesis using assms by (auto simp: fx_frame_def awaiting_def)
next
  case False
  then show ?thesis by (simp add: awaiting_def get_data_def internalData_def)
qed

lemma awaited_frame:
  assumes "fx_frame K e s s'" "e < n"
  shows "awaited K n s' i = awaited K n s i - int (count_list (awaiting K s e) i) + int (count_list (awaiting K s' e) i)"
proof -
  have "(\<Sum>j\<in>{..<n} - {e}. int (count_list (awaiting K s' j) i)) = (\<Sum>j\<in>{..<n} - {e}. int (count_list (awaiting K s j) i))"
    using awaiting_frame [OF assms(1)] by (intro sum.cong) auto
  then show ?thesis using assms(2) by (simp add: awaited_def sum.remove [of "{..<n}" e])
qed

text \<open>A change of the queue that keeps the promises, and the one that empties it.\<close>

lemma promises_keep:
  assumes "promises_ok K n L p" "fx_frame K e (q_store p) s" "e < n" "awaiting K s e = awaiting K (q_store p) e"
  shows "promises_ok K n L (p\<lparr>q_store := s\<rparr>)"
proof -
  have "awaiting K s j = awaiting K (q_store p) j" for j using awaiting_frame [OF assms(2)] assms(4) by (cases "j = e") auto
  then show ?thesis using assms(1) by (simp add: promises_ok_def awaited_def)
qed

lemma promises_release:
  assumes "promises_ok K n [] p" "fx_frame K e (q_store p) s" "e < n" "awaiting K s e = []"
  shows "promises_ok K n (awaiting K (q_store p) e) (p\<lparr>q_store := s\<rparr>)"
proof -
  have "awaiting K s j = (if j = e then [] else awaiting K (q_store p) j)" for j
    using awaiting_frame [OF assms(2)] assms(4) by auto
  then show ?thesis using assms(1,3) awaited_frame [OF assms(2,3)] by (auto simp: promises_ok_def)
qed

lemma promise_add_step:
  assumes ok: "promises_ok K n L p" and wf: "wf_data K (q_store p)" and e: "e < n" "acceptData (K e)" and i: "i \<in> set L"
  shows "promises_ok K n L (promise_add K ''fx'' i e p)" "fx_frame K e (q_store p) (q_store (promise_add K ''fx'' i e p))"
    "get_data K e ''fxqueue'' (q_store (promise_add K ''fx'' i e p)) = get_data K e ''fxqueue'' (q_store p)"
    "get_data K e ''fxqueueHooks'' (q_store (promise_add K ''fx'' i e p)) =
       (case hooks_of (get_data K e ''fxqueueHooks'' (q_store p)) of None \<Rightarrow> get_data K e ''fxqueueHooks'' (q_store p)
        | Some h \<Rightarrow> Some (Hooks (h\<lparr>h_empty := h_empty h @ [i]\<rparr>)))"
    "length (q_promises (promise_add K ''fx'' i e p)) = length (q_promises p)"
proof -
  let ?p = "promise_add K ''fx'' i e p"
  have step: "fx_frame K e (q_store p) (q_store ?p)
    \<and> get_data K e ''fxqueue'' (q_store ?p) = get_data K e ''fxqueue'' (q_store p)
    \<and> get_data K e ''fxqueueHooks'' (q_store ?p) =
       (case hooks_of (get_data K e ''fxqueueHooks'' (q_store p)) of None \<Rightarrow> get_data K e ''fxqueueHooks'' (q_store p)
        | Some h \<Rightarrow> Some (Hooks (h\<lparr>h_empty := h_empty h @ [i]\<rparr>)))"
    using wf e by (auto simp: promise_add_def set_hooks_def fx_frame_def data_laws split: option.split)
  then show frame: "fx_frame K e (q_store p) (q_store ?p)"
    "get_data K e ''fxqueue'' (q_store ?p) = get_data K e ''fxqueue'' (q_store p)"
    "get_data K e ''fxqueueHooks'' (q_store ?p) =
       (case hooks_of (get_data K e ''fxqueueHooks'' (q_store p)) of None \<Rightarrow> get_data K e ''fxqueueHooks'' (q_store p)
        | Some h \<Rightarrow> Some (Hooks (h\<lparr>h_empty := h_empty h @ [i]\<rparr>)))" by blast+
  show "length (q_promises ?p) = length (q_promises p)" by (simp add: promise_add_def split: option.split)
  show "promises_ok K n L ?p"
  proof (cases "hooks_of (get_data K e ''fxqueueHooks'' (q_store p))")
    case None
    then show ?thesis using ok by (simp add: promise_add_def)
  next
    case (Some h)
    have il: "i < length (q_promises p)" using ok i by (simp add: promises_ok_def)
    have aw: "awaiting K (q_store ?p) e = awaiting K (q_store p) e @ [i]"
      using frame(3) Some by (simp add: awaiting_def)
    have pr: "q_promises ?p = (q_promises p)[i := (fst (q_promises p ! i) + 1, snd (q_promises p ! i))]"
      using Some by (simp add: promise_add_def)
    have "fst (q_promises p ! i) > 0"
    proof -
      have "count_list L i > 0" using i by (metis count_list_0_iff gr0I)
      then show ?thesis using ok il awaited_nonneg [of K n "q_store p" i] by (auto simp: promises_ok_def)
    qed
    moreover have "awaiting K (q_store ?p) j = (if j = e then awaiting K (q_store p) e @ [i] else awaiting K (q_store p) j)" for j
      using aw awaiting_frame [OF frame(1)] by auto
    ultimately show ?thesis using ok e il awaited_frame [OF frame(1) e(1)]
      by (auto simp: promises_ok_def pr nth_list_update)
  qed
qed

section \<open>Pages with effects\<close>

text \<open>
  A page that queues functions on the effects queues of its elements \<open>0 .. n - 1\<close>. A function that
  was called is running until it calls \<open>next\<close> (at once or later, once). The page may ask for promises at
  any time and has other private data. \<open>asked\<close> and \<open>begun\<close> are the functions queued and called so far.
\<close>

record fx_run =
  fx_page :: queue_page
  asked :: "nat \<Rightarrow> nat list"
  begun :: "nat \<Rightarrow> nat list"
  running :: "nat \<Rightarrow> nat list"

definition fx_start :: fx_run where
  "fx_start = \<lparr>fx_page = \<lparr>q_store = store0, q_promises = []\<rparr>, asked = (\<lambda>e. []), begun = (\<lambda>e. []), running = (\<lambda>e. [])\<rparr>"

definition fx_call :: "nat \<Rightarrow> nat option \<Rightarrow> fx_run \<Rightarrow> fx_run" where
  "fx_call e c r = (case c of None \<Rightarrow> r
    | Some f \<Rightarrow> r\<lparr>begun := (begun r)(e := begun r e @ [f]), running := (running r)(e := running r e @ [f])\<rparr>)"

inductive fx_step :: "kinds \<Rightarrow> nat \<Rightarrow> fx_run \<Rightarrow> fx_run \<Rightarrow> bool" for K :: kinds and n :: nat where
  fx_queue: "e < n \<Longrightarrow> acceptData (K e) \<Longrightarrow> queue_method K e ''fx'' (One f) (fx_page r) = (c, p) \<Longrightarrow>
    fx_step K n r (fx_call e c (r\<lparr>fx_page := p, asked := (asked r)(e := asked r e @ [f])\<rparr>))"
| fx_next: "e < n \<Longrightarrow> acceptData (K e) \<Longrightarrow> f \<in> set (running r e) \<Longrightarrow> dequeue_jq K e ''fx'' (fx_page r) = (c, p) \<Longrightarrow>
    fx_step K n r (fx_call e c (r\<lparr>fx_page := p, running := (running r)(e := remove1 f (running r e))\<rparr>))"
| fx_promise: "\<forall>e\<in>set es. e < n \<and> acceptData (K e) \<Longrightarrow>
    fx_step K n r (r\<lparr>fx_page := promise_jq K es ''fx'' (fx_page r)\<rparr>)"
| fx_store: "e < n \<Longrightarrow> acceptData (K e) \<Longrightarrow> plain_name m \<Longrightarrow> m \<noteq> ''fxqueue'' \<Longrightarrow> m \<noteq> ''fxqueueHooks'' \<Longrightarrow>
    fx_step K n r (r\<lparr>fx_page := (fx_page r)\<lparr>q_store := put_data K e m v (q_store (fx_page r))\<rparr>\<rparr>)"
| fx_remove: "e < n \<Longrightarrow> acceptData (K e) \<Longrightarrow> plain_name m \<Longrightarrow> m \<noteq> ''fxqueue'' \<Longrightarrow> m \<noteq> ''fxqueueHooks'' \<Longrightarrow>
    fx_step K n r (r\<lparr>fx_page := (fx_page r)\<lparr>q_store := remove_data K e m (q_store (fx_page r))\<rparr>\<rparr>)"

text \<open>An element is idle, without a queue, or one function runs, and the queue has the sentinel and what waits.\<close>

definition fx_idle :: "kinds \<Rightarrow> nat \<Rightarrow> fx_run \<Rightarrow> bool" where
  "fx_idle K e r \<longleftrightarrow> running r e = [] \<and> begun r e = asked r e
     \<and> get_data K e ''fxqueue'' (q_store (fx_page r)) = None \<and> get_data K e ''fxqueueHooks'' (q_store (fx_page r)) = None"

definition fx_busy :: "kinds \<Rightarrow> nat \<Rightarrow> fx_run \<Rightarrow> bool" where
  "fx_busy K e r \<longleftrightarrow> (\<exists>f ws h. running r e = [f] \<and> begun r e @ ws = asked r e
     \<and> get_data K e ''fxqueue'' (q_store (fx_page r)) = Some (Queue (Inprogress # map Fn ws))
     \<and> get_data K e ''fxqueueHooks'' (q_store (fx_page r)) = Some (Hooks h))"

definition fx_inv :: "kinds \<Rightarrow> nat \<Rightarrow> fx_run \<Rightarrow> bool" where
  "fx_inv K n r \<longleftrightarrow> wf_data K (q_store (fx_page r)) \<and> promises_ok K n [] (fx_page r)
     \<and> (\<forall>e<n. acceptData (K e) \<longrightarrow> fx_idle K e r \<or> fx_busy K e r)"

lemma fx_other:
  assumes "fx_frame K e (q_store (fx_page r)) (q_store (fx_page r'))" "e' \<noteq> e" "acceptData (K e')"
    and "running r' e' = running r e'" "begun r' e' = begun r e'" "asked r' e' = asked r e'"
  shows "fx_idle K e' r' = fx_idle K e' r" "fx_busy K e' r' = fx_busy K e' r"
  using assms by (auto simp: fx_frame_def fx_idle_def fx_busy_def)

lemma fx_inv_at:
  assumes "fx_inv K n r" "fx_frame K e (q_store (fx_page r)) (q_store (fx_page r'))" "promises_ok K n [] (fx_page r')"
    and "fx_idle K e r' \<or> fx_busy K e r'"
    and "\<And>e'. e' \<noteq> e \<Longrightarrow> running r' e' = running r e' \<and> begun r' e' = begun r e' \<and> asked r' e' = asked r e'"
  shows "fx_inv K n r'"
  unfolding fx_inv_def
proof (intro conjI allI impI)
  fix e' assume e': "e' < n" "acceptData (K e')"
  show "fx_idle K e' r' \<or> fx_busy K e' r'"
  proof (cases "e' = e")
    case False
    then show ?thesis using fx_other [OF assms(2) False e'(2)] assms(1) assms(5) [OF False] e' by (simp add: fx_inv_def)
  qed (use assms(4) in simp)
qed (use assms in \<open>auto simp: fx_frame_def\<close>)

lemma inv_queue:
  assumes inv: "fx_inv K n r" and e: "e < n" "acceptData (K e)" and q: "queue_method K e ''fx'' (One f) (fx_page r) = (c, p)"
  shows "fx_inv K n (fx_call e c (r\<lparr>fx_page := p, asked := (asked r)(e := asked r e @ [f])\<rparr>))"
proof -
  let ?s = "q_store (fx_page r)"
  have wf: "wf_data K ?s" and pr: "promises_ok K n [] (fx_page r)" and el: "fx_idle K e r \<or> fx_busy K e r"
    using inv e by (auto simp: fx_inv_def)
  show ?thesis
  proof (cases "fx_idle K e r")
    case True
    then obtain s where s: "c = Some f" "p = (fx_page r)\<lparr>q_store := s\<rparr>" "fx_frame K e ?s s"
      "get_data K e ''fxqueue'' s = Some (Queue [Inprogress])"
      "get_data K e ''fxqueueHooks'' s = Some (Hooks \<lparr>h_stop = None, h_empty = []\<rparr>)"
      using queue_idle [OF wf e(2), of f] q by (auto simp: fx_idle_def)
    have "promises_ok K n [] p" unfolding s(2)
      by (rule promises_keep [OF pr s(3) e(1)]) (use True s in \<open>simp add: awaiting_def fx_idle_def\<close>)
    then show ?thesis using s True
      by (intro fx_inv_at [OF inv, of e]) (auto simp: fx_call_def fx_idle_def fx_busy_def)
  next
    case False
    then obtain g ws h where b: "running r e = [g]" "begun r e @ ws = asked r e"
      "get_data K e ''fxqueue'' ?s = Some (Queue (Inprogress # map Fn ws))" "get_data K e ''fxqueueHooks'' ?s = Some (Hooks h)"
      using el by (auto simp: fx_busy_def)
    then obtain s where s: "c = None" "p = (fx_page r)\<lparr>q_store := s\<rparr>" "fx_frame K e ?s s"
      "get_data K e ''fxqueue'' s = Some (Queue (Inprogress # map Fn (ws @ [f])))" "get_data K e ''fxqueueHooks'' s = Some (Hooks h)"
      using queue_busy [OF wf e(2) b(3,4), of f] q by auto
    have "promises_ok K n [] p" unfolding s(2)
      by (rule promises_keep [OF pr s(3) e(1)]) (use b s in \<open>simp add: awaiting_def\<close>)
    moreover have "fx_busy K e (r\<lparr>fx_page := p, asked := (asked r)(e := asked r e @ [f])\<rparr>)"
      unfolding fx_busy_def using b s by (intro exI [of _ g] exI [of _ "ws @ [f]"] exI [of _ h]) simp
    ultimately show ?thesis using s by (intro fx_inv_at [OF inv, of e]) (auto simp: fx_call_def)
  qed
qed

lemma inv_next:
  assumes inv: "fx_inv K n r" and e: "e < n" "acceptData (K e)" and f: "f \<in> set (running r e)"
    and d: "dequeue_jq K e ''fx'' (fx_page r) = (c, p)"
  shows "fx_inv K n (fx_call e c (r\<lparr>fx_page := p, running := (running r)(e := remove1 f (running r e))\<rparr>))"
proof -
  let ?s = "q_store (fx_page r)"
  have wf: "wf_data K ?s" and pr: "promises_ok K n [] (fx_page r)" using inv by (auto simp: fx_inv_def)
  obtain ws h where b: "running r e = [f]" "begun r e @ ws = asked r e"
    "get_data K e ''fxqueue'' ?s = Some (Queue (Inprogress # map Fn ws))" "get_data K e ''fxqueueHooks'' ?s = Some (Hooks h)"
    using inv e f by (auto simp: fx_inv_def fx_busy_def fx_idle_def)
  show ?thesis
  proof (cases ws)
    case Nil
    then obtain s where s: "c = None" "p = foldl (\<lambda>p i. resolve_promise i p) ((fx_page r)\<lparr>q_store := s\<rparr>) (h_empty h)"
      "fx_frame K e ?s s" "get_data K e ''fxqueue'' s = None" "get_data K e ''fxqueueHooks'' s = None"
      using dequeue_last [OF wf e(2) _ b(4)] b(3) d by auto
    have "awaiting K ?s e = h_empty h" "awaiting K s e = []" using b s by (simp_all add: awaiting_def)
    then have "promises_ok K n [] p" "q_store p = s"
      using promises_resolve_all [OF promises_release [OF pr s(3) e(1)]] s(2) by simp_all
    then show ?thesis using s(1,3,4,5) b Nil
      by (intro fx_inv_at [OF inv, of e]) (auto simp: fx_call_def fx_idle_def)
  next
    case (Cons g vs)
    then obtain s where s: "c = Some g" "p = (fx_page r)\<lparr>q_store := s\<rparr>" "fx_frame K e ?s s"
      "get_data K e ''fxqueue'' s = Some (Queue (Inprogress # map Fn vs))"
      "get_data K e ''fxqueueHooks'' s = Some (Hooks (h\<lparr>h_stop := None\<rparr>))"
      using dequeue_next [OF wf e(2) _ b(4), of g "map Fn vs"] b(3) d by auto
    have "promises_ok K n [] p" unfolding s(2)
      by (rule promises_keep [OF pr s(3) e(1)]) (use b s in \<open>simp add: awaiting_def\<close>)
    then show ?thesis using s b Cons
      by (intro fx_inv_at [OF inv, of e]) (auto simp: fx_call_def fx_busy_def)
  qed
qed

lemma inv_promise_add:
  assumes wf: "wf_data K (q_store (fx_page r))" and pr: "promises_ok K n L (fx_page r)"
    and els: "\<forall>e<n. acceptData (K e) \<longrightarrow> fx_idle K e r \<or> fx_busy K e r" and e: "e < n" "acceptData (K e)" and i: "i \<in> set L"
  defines "r' \<equiv> r\<lparr>fx_page := promise_add K ''fx'' i e (fx_page r)\<rparr>"
  shows "wf_data K (q_store (fx_page r'))" "promises_ok K n L (fx_page r')"
    "\<forall>e<n. acceptData (K e) \<longrightarrow> fx_idle K e r' \<or> fx_busy K e r'"
proof -
  note step = promise_add_step [OF pr wf e i]
  show "wf_data K (q_store (fx_page r'))" using step(2) by (simp add: r'_def fx_frame_def)
  show "promises_ok K n L (fx_page r')" using step(1) by (simp add: r'_def)
  show "\<forall>e<n. acceptData (K e) \<longrightarrow> fx_idle K e r' \<or> fx_busy K e r'"
  proof (intro allI impI)
    fix e' assume e': "e' < n" "acceptData (K e')"
    show "fx_idle K e' r' \<or> fx_busy K e' r'"
    proof (cases "e' = e")
      case True
      then show ?thesis using els e step(3,4) by (fastforce simp: r'_def fx_idle_def fx_busy_def)
    next
      case False
      then show ?thesis using fx_other [where r = r and r' = r', of K e e'] step(2) els e' by (simp add: r'_def)
    qed
  qed
qed

lemma inv_promise_adds:
  assumes "wf_data K (q_store (fx_page r))" "promises_ok K n L (fx_page r)"
    "\<forall>e<n. acceptData (K e) \<longrightarrow> fx_idle K e r \<or> fx_busy K e r" "\<forall>e\<in>set es. e < n \<and> acceptData (K e)" "i \<in> set L"
  defines "p' \<equiv> foldl (\<lambda>p e. promise_add K ''fx'' i e p) (fx_page r) es"
  shows "wf_data K (q_store p') \<and> promises_ok K n L p'
    \<and> (\<forall>e<n. acceptData (K e) \<longrightarrow> fx_idle K e (r\<lparr>fx_page := p'\<rparr>) \<or> fx_busy K e (r\<lparr>fx_page := p'\<rparr>))"
  using assms(1-4) unfolding p'_def
proof (induction es arbitrary: r)
  case (Cons e es)
  note step = inv_promise_add [OF Cons.prems(1-3) _ _ assms(5), of e]
  show ?case using Cons.IH [OF step] Cons.prems(4) by simp
qed simp

lemma inv_promise:
  assumes inv: "fx_inv K n r" and es: "\<forall>e\<in>set es. e < n \<and> acceptData (K e)"
  shows "fx_inv K n (r\<lparr>fx_page := promise_jq K es ''fx'' (fx_page r)\<rparr>)"
proof -
  let ?i = "length (q_promises (fx_page r))"
  let ?p = "(fx_page r)\<lparr>q_promises := q_promises (fx_page r) @ [(1, False)]\<rparr>"
  have new: "awaited K n (q_store (fx_page r)) ?i = 0"
  proof -
    have "count_list (awaiting K (q_store (fx_page r)) e) ?i = 0" if "e < n" for e
      using inv that by (fastforce simp: fx_inv_def promises_ok_def count_list_0_iff)
    then show ?thesis by (simp add: awaited_def)
  qed
  have "promises_ok K n [?i] ?p"
    using inv new by (fastforce simp: fx_inv_def promises_ok_def nth_append less_Suc_eq)
  then have *: "wf_data K (q_store p') \<and> promises_ok K n [?i] p'
      \<and> (\<forall>e<n. acceptData (K e) \<longrightarrow> fx_idle K e (r\<lparr>fx_page := p'\<rparr>) \<or> fx_busy K e (r\<lparr>fx_page := p'\<rparr>))"
    if "p' = foldl (\<lambda>p e. promise_add K ''fx'' ?i e p) ?p (rev es)" for p'
    using inv_promise_adds [of K "r\<lparr>fx_page := ?p\<rparr>" n "[?i]" "rev es" ?i] inv es that
    by (simp add: fx_inv_def fx_idle_def fx_busy_def)
  then show ?thesis
    using promises_resolve [of K n ?i "[]"]
    by (simp add: promise_jq_def Let_def fx_inv_def fx_idle_def fx_busy_def)
qed

lemma inv_other_data:
  assumes inv: "fx_inv K n r" and wf: "wf_data K s"
    and same: "\<And>e. acceptData (K e) \<Longrightarrow> get_data K e ''fxqueue'' s = get_data K e ''fxqueue'' (q_store (fx_page r))"
      "\<And>e. acceptData (K e) \<Longrightarrow> get_data K e ''fxqueueHooks'' s = get_data K e ''fxqueueHooks'' (q_store (fx_page r))"
  shows "fx_inv K n (r\<lparr>fx_page := (fx_page r)\<lparr>q_store := s\<rparr>\<rparr>)"
proof -
  have "awaiting K s e = awaiting K (q_store (fx_page r)) e" for e
    using same(2) [of e] by (cases "acceptData (K e)") (simp_all add: awaiting_def get_data_def internalData_def)
  then have "promises_ok K n [] ((fx_page r)\<lparr>q_store := s\<rparr>)"
    using inv by (simp add: fx_inv_def promises_ok_def awaited_def)
  then show ?thesis using inv wf same by (simp add: fx_inv_def fx_idle_def fx_busy_def)
qed

interpretation fx_pages: invariant "\<lambda>r. r = fx_start" "fx_step K n" "fx_inv K n" for K n
proof
  show "fx_inv K n r" if "r = fx_start" for r
  proof -
    have "get_data K e m (store0 :: queue_val data_store) = None" for e m
      by (simp add: get_data_def data_read entry_at_def store0_def)
    then show ?thesis using that data_pages.inv_start [of store0 K]
      by (simp add: fx_start_def fx_inv_def fx_idle_def promises_ok_def awaiting_def)
  qed
next
  fix r r' assume inv: "fx_inv K n r" and "fx_step K n r r'"
  have wf: "wf_data K (q_store (fx_page r))" using inv by (simp add: fx_inv_def)
  from \<open>fx_step K n r r'\<close> show "fx_inv K n r'"
  proof cases
    case (fx_queue e f c p)
    then show ?thesis using inv_queue [OF inv] by simp
  next
    case (fx_next e f c p)
    then show ?thesis using inv_next [OF inv] by simp
  next
    case (fx_promise es)
    then show ?thesis using inv_promise [OF inv] by simp
  next
    case (fx_store e m v)
    then show ?thesis using wf
      by (simp, intro inv_other_data [OF inv]) (auto simp: data_laws)
  next
    case (fx_remove e m)
    then show ?thesis using wf
      by (simp, intro inv_other_data [OF inv]) (auto simp: data_laws)
  qed
qed

definition waiting :: "kinds \<Rightarrow> nat \<Rightarrow> fx_run \<Rightarrow> nat list" where
  "waiting K e r = (case queue_of (get_data K e ''fxqueue'' (q_store (fx_page r))) of
      None \<Rightarrow> [] | Some q \<Rightarrow> concat (map (\<lambda>x. case x of Fn f \<Rightarrow> [f] | Inprogress \<Rightarrow> []) q))"

lemma waiting_map: "concat (map (\<lambda>x. case x of Fn f \<Rightarrow> [f] | Inprogress \<Rightarrow> []) (map Fn ws)) = ws"
  by (induction ws) auto

lemma awaited_0: "awaited K n s i = 0 \<longleftrightarrow> (\<forall>e<n. i \<notin> set (awaiting K s e))"
  by (auto simp: awaited_def sum_nonneg_eq_0_iff count_list_0_iff)


text \<open>Two functions and a promise; the first function is through.\<close>

definition do_queue :: "nat \<Rightarrow> nat \<Rightarrow> fx_run \<Rightarrow> fx_run" where
  "do_queue e f r = (case queue_method div_page e ''fx'' (One f) (fx_page r) of (c, p) \<Rightarrow>
     fx_call e c (r\<lparr>fx_page := p, asked := (asked r)(e := asked r e @ [f])\<rparr>))"

definition do_next :: "nat \<Rightarrow> fx_run \<Rightarrow> fx_run" where
  "do_next e r = (case dequeue_jq div_page e ''fx'' (fx_page r) of (c, p) \<Rightarrow>
     fx_call e c (r\<lparr>fx_page := p, running := (running r)(e := remove1 (hd (running r e)) (running r e))\<rparr>))"

definition fx_example :: fx_run where
  "fx_example = (let r = do_queue 0 8 (do_queue 0 7 fx_start) in
     do_next 0 (r\<lparr>fx_page := promise_jq div_page [0] ''fx'' (fx_page r)\<rparr>))"

lemma do_steps:
  "0 < n \<Longrightarrow> fx_step div_page n r (do_queue 0 f r)"
  "0 < n \<Longrightarrow> running r 0 \<noteq> [] \<Longrightarrow> fx_step div_page n r (do_next 0 r)"
  by (auto simp: do_queue_def do_next_def accept_div split: prod.split intro!: fx_queue fx_next)

lemma fx_example_steps:
  "running (do_queue 0 8 (do_queue 0 7 fx_start)) 0 = [7]"
  "(begun fx_example 0, length (q_promises (fx_page fx_example))) = ([7, 8], 1)"
  by code_simp+


end
