(* ===== verification/JQuery_Events.thy ===== *)
theory JQuery_Events
  imports Doctools JQuery_Callbacks "HOL-Library.AList"
begin

text \<open>
  The event handlers of an element (\<open>jQuery.event\<close> in jquery.js): \<open>add\<close>, \<open>remove\<close>, \<open>handlers\<close> and
  \<open>dispatch\<close>. Shown: the lists that the code keeps by event type, delegated handlers in front, stand
  for one list of handlers in the order in which they were added; an event runs the delegated
  handlers from its target upwards and then the handlers of the element, each group in that order,
  and those only whose namespaces include the ones of the event.

  The table \<open>jQuery.event.special\<close>, the test of a selector against a node and what a handler does
  to its event are parameters. A handler is a number, with the \<open>guid\<close> that \<open>add\<close> finds or gives it. No
  selector is \<open>None\<close>, which the code also reads of the empty string. The names in a namespace have no
  characters that are special in a regular expression, since the code builds one of them. Left out are
  the data of a handler, the hooks \<open>add\<close>, \<open>remove\<close>, \<open>handle\<close>, \<open>preDispatch\<close> and \<open>postDispatch\<close> of special
  events, which change neither lists nor order.
\<close>

section \<open>Types and namespaces\<close>

text \<open>\<open>rtypenamespace.exec\<close>: the type and the namespaces, if there are any.\<close>

definition type_namespace :: "string \<Rightarrow> (string \<times> string option) option" where
  "type_namespace s = (let t = takeWhile (\<lambda>c. c \<noteq> CHR ''.'') s in
     case dropWhile (\<lambda>c. c \<noteq> CHR ''.'') s of
       [] \<Rightarrow> Some (t, None)
     | [c] \<Rightarrow> None
     | c # ns \<Rightarrow> Some (t, Some ns))"

definition namespaces_of :: "string option \<Rightarrow> string list" where
  "namespaces_of ns = sort (split_on (CHR ''.'') (case ns of None \<Rightarrow> [] | Some s \<Rightarrow> s))"

text \<open>
  The regular expression \<open>(^|\.)n1\.(?:.*\.|)n2 ... (\.|$)\<close> that the code builds of names: a match begins
  at the start or after a dot, and between two names anything may stand that ends with a dot.
\<close>

fun dot_suffixes :: "string \<Rightarrow> string list" where
  "dot_suffixes [] = []"
| "dot_suffixes (c # cs) = (if c = CHR ''.'' then cs # dot_suffixes cs else dot_suffixes cs)"

fun ns_from :: "string list \<Rightarrow> string \<Rightarrow> bool" where
  "ns_from [] s = (case s of [] \<Rightarrow> True | c # cs \<Rightarrow> c = CHR ''.'')"
| "ns_from [n] s = (take (length n) s = n \<and> (case drop (length n) s of [] \<Rightarrow> True | c # cs \<Rightarrow> c = CHR ''.''))"
| "ns_from (n # m # ns) s = (take (length n) s = n \<and> (case drop (length n) s of [] \<Rightarrow> False
     | c # cs \<Rightarrow> c = CHR ''.'' \<and> list_ex (ns_from (m # ns)) (cs # dot_suffixes cs)))"

definition ns_test :: "string list \<Rightarrow> string \<Rightarrow> bool" where
  "ns_test ns s = list_ex (ns_from ns) (s # dot_suffixes s)"

section \<open>The registry of an element\<close>

record handle_obj =
  ho_type :: string
  origType :: string
  ho_handler :: nat
  ho_guid :: nat
  selector :: "string option"
  namespace :: string

record handler_list =
  handler_objs :: "handle_obj list"
  delegateCount :: nat

text \<open>
  The data of an element: \<open>events\<close>, whether it has the main handler, and the types for which the browser
  calls the main handler.
\<close>

record elem_events =
  ev_events :: "(string \<times> handler_list) list option"
  ev_handle :: bool
  ev_native :: "string list"

definition no_events :: elem_events where
  "no_events = \<lparr>ev_events = None, ev_handle = False, ev_native = []\<rparr>"

text \<open>
  An entry of \<open>jQuery.event.special\<close>: the types it maps to, and whether its \<open>setup\<close> and \<open>teardown\<close> do the
  work of the browser's listener.
\<close>

record special_event =
  sp_delegateType :: "string option"
  sp_bindType :: "string option"
  sp_setup :: bool
  sp_teardown :: bool

definition plain_special :: special_event where
  "plain_special = \<lparr>sp_delegateType = None, sp_bindType = None, sp_setup = False, sp_teardown = False\<rparr>"

definition mapped_type :: "(string \<Rightarrow> special_event) \<Rightarrow> string option \<Rightarrow> string \<Rightarrow> string" where
  "mapped_type special sel type =
     (case (if sel \<noteq> None then sp_delegateType (special type) else sp_bindType (special type)) of
        None \<Rightarrow> type | Some t \<Rightarrow> if t = [] then type else t)"

text \<open>Delegated handlers are put behind the delegated handlers, others at the end.\<close>

definition insert_handler :: "handle_obj \<Rightarrow> handler_list \<Rightarrow> handler_list" where
  "insert_handler h hl = (if selector h \<noteq> None
     then \<lparr>handler_objs = take (delegateCount hl) (handler_objs hl) @ [h] @ drop (delegateCount hl) (handler_objs hl),
           delegateCount = delegateCount hl + 1\<rparr>
     else hl\<lparr>handler_objs := handler_objs hl @ [h]\<rparr>)"

definition add_type :: "(string \<Rightarrow> special_event) \<Rightarrow> nat \<Rightarrow> nat \<Rightarrow> string option \<Rightarrow> string \<Rightarrow> elem_events \<Rightarrow> elem_events" where
  "add_type special handler guid sel word d = (case type_namespace word of
      None \<Rightarrow> d
    | Some (origT, ns) \<Rightarrow>
        if origT = [] then d
        else (let type = mapped_type special sel origT;
            h = \<lparr>ho_type = type, origType = origT, ho_handler = handler, ho_guid = guid, selector = sel,
                 namespace = join ''.'' (namespaces_of ns)\<rparr>;
            events = (case ev_events d of None \<Rightarrow> [] | Some evs \<Rightarrow> evs) in
          case map_of events type of
            None \<Rightarrow> d\<lparr>ev_events := Some (AList.update type (insert_handler h \<lparr>handler_objs = [], delegateCount = 0\<rparr>) events),
              ev_native := (if sp_setup (special type) then ev_native d else type # ev_native d)\<rparr>
          | Some hl \<Rightarrow> d\<lparr>ev_events := Some (AList.update type (insert_handler h hl) events)\<rparr>))"

text \<open>The words of \<open>types\<close>, the last one first.\<close>

definition type_words :: "string \<Rightarrow> string list" where
  "type_words types = (case nonblank_words [] types of [] \<Rightarrow> [[]] | ws \<Rightarrow> ws)"

definition event_add :: "(string \<Rightarrow> special_event) \<Rightarrow> string \<Rightarrow> nat \<Rightarrow> nat \<Rightarrow> string option \<Rightarrow> elem_events \<Rightarrow> elem_events" where
  "event_add special types handler guid sel d =
     foldl (\<lambda>d word. add_type special handler guid sel word d)
       (d\<lparr>ev_events := Some (case ev_events d of None \<Rightarrow> [] | Some evs \<Rightarrow> evs), ev_handle := True\<rparr>) (rev (type_words types))"

section \<open>Removing handlers\<close>

definition removes :: "bool \<Rightarrow> string \<Rightarrow> nat option \<Rightarrow> string list option \<Rightarrow> string option \<Rightarrow> handle_obj \<Rightarrow> bool" where
  "removes mappedTypes origT guid ns sel h \<longleftrightarrow>
     (mappedTypes \<or> origT = origType h) \<and> (guid = None \<or> guid = Some (ho_guid h))
     \<and> (case ns of None \<Rightarrow> True | Some names \<Rightarrow> ns_test names (namespace h))
     \<and> (sel = None \<or> sel = selector h \<or> sel = Some ''**'' \<and> selector h \<noteq> None)"

text \<open>The loop from the end of the list, which takes out what matches.\<close>

fun remove_handlers :: "(handle_obj \<Rightarrow> bool) \<Rightarrow> nat \<Rightarrow> handler_list \<Rightarrow> handler_list" where
  "remove_handlers m 0 hl = hl"
| "remove_handlers m (Suc j) hl = (let h = handler_objs hl ! j in
     remove_handlers m j (if m h
       then \<lparr>handler_objs = take j (handler_objs hl) @ drop (Suc j) (handler_objs hl),
             delegateCount = (if selector h \<noteq> None then delegateCount hl - 1 else delegateCount hl)\<rparr>
       else hl))"

definition remove_type :: "(string \<Rightarrow> special_event) \<Rightarrow> bool \<Rightarrow> string \<Rightarrow> string option \<Rightarrow> nat option \<Rightarrow> string option \<Rightarrow>
    elem_events \<Rightarrow> elem_events" where
  "remove_type special mappedTypes origT ns guid sel d =
     (let type = mapped_type special sel origT;
          events = (case ev_events d of None \<Rightarrow> [] | Some evs \<Rightarrow> evs) in
      case map_of events type of
        None \<Rightarrow> d
      | Some hl \<Rightarrow> (let hl' = remove_handlers (removes mappedTypes origT guid (map_option (\<lambda>s. namespaces_of (Some s)) ns) sel)
            (length (handler_objs hl)) hl in
          if handler_objs hl \<noteq> [] \<and> handler_objs hl' = []
          then d\<lparr>ev_events := Some (AList.delete type events),
                 ev_native := (if sp_teardown (special origT) then ev_native d else removeAll type (ev_native d))\<rparr>
          else d\<lparr>ev_events := Some (AList.update type hl' events)\<rparr>))"

text \<open>The end of \<open>remove\<close>: an element without handlers has no event data.\<close>

definition clear_events :: "elem_events \<Rightarrow> elem_events" where
  "clear_events d = (if ev_events d = Some [] then d\<lparr>ev_events := None, ev_handle := False\<rparr> else d)"

text \<open>
  \<open>remove\<close>: \<open>depth\<close> is what is left of the call stack, \<open>None\<close> its overflow. A word without a type calls
  \<open>remove\<close> for every type of the element.
\<close>

fun event_remove :: "nat \<Rightarrow> (string \<Rightarrow> special_event) \<Rightarrow> bool \<Rightarrow> string list \<Rightarrow> nat option \<Rightarrow> string option \<Rightarrow>
    elem_events \<Rightarrow> elem_events option" where
  "event_remove 0 special mappedTypes ws guid sel d = None"
| "event_remove (Suc depth) special mappedTypes ws guid sel d =
     (if ev_events d = None then Some d
      else map_option clear_events (foldl (\<lambda>r word. Option.bind r (\<lambda>d.
          case (case type_namespace word of None \<Rightarrow> ([], None) | Some tn \<Rightarrow> tn) of (origT, ns) \<Rightarrow>
            if origT \<noteq> [] then Some (remove_type special mappedTypes origT ns guid sel d)
            else foldl (\<lambda>r type. Option.bind r (\<lambda>d. event_remove depth special True (type_words (type @ word)) guid sel d))
              (Some d) (map fst (case ev_events d of None \<Rightarrow> [] | Some evs \<Rightarrow> evs))))
        (Some d) (rev ws)))"

section \<open>Dispatching an event\<close>

text \<open>What the code reads of a node.\<close>

record ev_node =
  nd_type :: nat
  nd_disabled :: bool

text \<open>
  \<open>handlers\<close>: \<open>path\<close> is the target with its ancestors up to the root. The tests of selectors (\<open>sel_test\<close>)
  give the same answer for the same selector and node, so the table of answers is not needed.
\<close>

definition event_handlers :: "(nat \<Rightarrow> ev_node) \<Rightarrow> (string \<Rightarrow> nat \<Rightarrow> bool) \<Rightarrow> nat \<Rightarrow> nat list \<Rightarrow> bool \<Rightarrow> string \<Rightarrow> handler_list \<Rightarrow>
    (nat \<times> handle_obj list) list" where
  "event_handlers node sel_test this path button type hl =
     (if delegateCount hl \<noteq> 0 \<and> nd_type (node (hd path)) \<noteq> 0 \<and> (\<not> button \<or> type \<noteq> ''click'') then
        concat (map (\<lambda>cur.
          if nd_type (node cur) = 1 \<and> (\<not> nd_disabled (node cur) \<or> type \<noteq> ''click'') then
            (let matches = filter (\<lambda>h. case selector h of None \<Rightarrow> sel_test ''undefined'' cur | Some s \<Rightarrow> sel_test s cur)
               (take (delegateCount hl) (handler_objs hl)) in
             if matches = [] then [] else [(cur, matches)])
          else []) (takeWhile (\<lambda>cur. cur \<noteq> this) path))
      else [])
     @ (if delegateCount hl < length (handler_objs hl) then [(this, drop (delegateCount hl) (handler_objs hl))] else [])"

text \<open>What a handler does to the event: it returns \<open>false\<close>, stops the propagation, stops it at once, or prevents the default.\<close>

record reaction =
  returns_false :: bool
  stops :: bool
  stops_now :: bool
  prevents :: bool

record event_state =
  stopped :: bool
  stopped_now :: bool
  prevented :: bool

definition react :: "reaction \<Rightarrow> event_state \<Rightarrow> event_state" where
  "react r st = \<lparr>stopped = (stopped st \<or> stops r \<or> stops_now r \<or> returns_false r),
     stopped_now = (stopped_now st \<or> stops_now r), prevented = (prevented st \<or> prevents r \<or> returns_false r)\<rparr>"

fun run_matched :: "(nat \<Rightarrow> handle_obj \<Rightarrow> reaction) \<Rightarrow> string list option \<Rightarrow> nat \<Rightarrow> handle_obj list \<Rightarrow> event_state \<Rightarrow>
    (nat \<times> handle_obj) list \<times> event_state" where
  "run_matched R ns el [] st = ([], st)"
| "run_matched R ns el (h # hs) st =
     (if stopped_now st then ([], st)
      else if (case ns of None \<Rightarrow> True | Some names \<Rightarrow> ns_test names (namespace h))
      then (case run_matched R ns el hs (react (R el h) st) of (made, st') \<Rightarrow> ((el, h) # made, st'))
      else run_matched R ns el hs st)"

fun run_queue :: "(nat \<Rightarrow> handle_obj \<Rightarrow> reaction) \<Rightarrow> string list option \<Rightarrow> (nat \<times> handle_obj list) list \<Rightarrow> event_state \<Rightarrow>
    (nat \<times> handle_obj) list \<times> event_state" where
  "run_queue R ns [] st = ([], st)"
| "run_queue R ns ((el, hs) # q) st =
     (if stopped st then ([], st)
      else (case run_matched R ns el hs st of (made, st1) \<Rightarrow>
        (case run_queue R ns q st1 of (made', st2) \<Rightarrow> (made @ made', st2))))"

text \<open>\<open>dispatch\<close> of an event that is in the state \<open>st\<close>; an event of the browser is new.\<close>

definition dispatch_on :: "(nat \<Rightarrow> handle_obj \<Rightarrow> reaction) \<Rightarrow> (nat \<Rightarrow> ev_node) \<Rightarrow> (string \<Rightarrow> nat \<Rightarrow> bool) \<Rightarrow> nat \<Rightarrow> nat list \<Rightarrow> bool \<Rightarrow>
    string \<Rightarrow> string list option \<Rightarrow> elem_events \<Rightarrow> event_state \<Rightarrow> (nat \<times> handle_obj) list \<times> event_state" where
  "dispatch_on R node sel_test this path button type ns d st =
     (let hl = (case map_of (case ev_events d of None \<Rightarrow> [] | Some evs \<Rightarrow> evs) type of
          None \<Rightarrow> \<lparr>handler_objs = [], delegateCount = 0\<rparr> | Some hl \<Rightarrow> hl) in
      run_queue R ns (event_handlers node sel_test this path button type hl) st)"

definition new_event :: event_state where
  "new_event = \<lparr>stopped = False, stopped_now = False, prevented = False\<rparr>"

definition dispatch :: "(nat \<Rightarrow> handle_obj \<Rightarrow> reaction) \<Rightarrow> (nat \<Rightarrow> ev_node) \<Rightarrow> (string \<Rightarrow> nat \<Rightarrow> bool) \<Rightarrow> nat \<Rightarrow> nat list \<Rightarrow> bool \<Rightarrow>
    string \<Rightarrow> string list option \<Rightarrow> elem_events \<Rightarrow> (nat \<times> handle_obj) list \<times> event_state" where
  "dispatch R node sel_test this path button type ns d = dispatch_on R node sel_test this path button type ns d new_event"

section \<open>Namespaces\<close>

text \<open>The test of the namespaces asks whether the names are among those of the handler.\<close>

fun suffixes1 :: "'a list \<Rightarrow> 'a list list" where
  "suffixes1 [] = []"
| "suffixes1 (x # xs) = (x # xs) # suffixes1 xs"

lemma dot_suffixes_plain: "CHR ''.'' \<notin> set s \<Longrightarrow> dot_suffixes (s @ t) = dot_suffixes t"
  by (induction s) auto

lemma dot_suffixes_join:
  "hs \<noteq> [] \<Longrightarrow> \<forall>h\<in>set hs. CHR ''.'' \<notin> set h \<Longrightarrow>
    join ''.'' hs # dot_suffixes (join ''.'' hs) = map (join ''.'') (suffixes1 hs)"
proof (induction hs)
  case (Cons h hs)
  then show ?case using dot_suffixes_plain [of h "[]"] dot_suffixes_plain [of h "''.'' @ join ''.'' hs"] by (cases hs) auto
qed simp

lemma take_name:
  assumes "CHR ''.'' \<notin> set n" "CHR ''.'' \<notin> set h"
  shows "take (length n) (h @ CHR ''.'' # t) = n \<and> (case drop (length n) (h @ CHR ''.'' # t) of [] \<Rightarrow> False | c # cs \<Rightarrow> c = CHR ''.'' \<and> P cs)
    \<longleftrightarrow> n = h \<and> P t"
  using assms
proof (induction n arbitrary: h)
  case Nil
  then show ?case by (cases h) auto
next
  case (Cons c n)
  then show ?case by (cases h) auto
qed

lemma ns_from_join:
  assumes "\<forall>n\<in>set (n # ns). CHR ''.'' \<notin> set n" "\<forall>h\<in>set (h # hs). CHR ''.'' \<notin> set h"
  shows "ns_from (n # ns) (join ''.'' (h # hs)) \<longleftrightarrow>
    n = h \<and> (ns = [] \<or> hs \<noteq> [] \<and> list_ex (ns_from ns) (map (join ''.'') (suffixes1 hs)))"
proof (cases hs)
  case Nil
  have nd: "drop (length n) h \<noteq> CHR ''.'' # cs" for cs using assms(2) by (metis in_set_dropD list.set_intros(1))
  have "take (length n) h = n \<and> (case drop (length n) h of [] \<Rightarrow> True | c # cs \<Rightarrow> c = CHR ''.'') \<longleftrightarrow> n = h"
    using nd by (auto split: list.split simp: take_all_iff)
  moreover have "\<not> (case drop (length n) h of [] \<Rightarrow> False | c # cs \<Rightarrow> c = CHR ''.'' \<and> P cs)" for P
    using nd by (auto split: list.split)
  ultimately show ?thesis using Nil by (cases ns) auto
next
  case (Cons h' hs')
  note nm = take_name [of n h "join ''.'' hs"]
  have j: "join ''.'' (h # hs) = h @ CHR ''.'' # join ''.'' hs" using Cons by simp
  have "join ''.'' hs # dot_suffixes (join ''.'' hs) = map (join ''.'') (suffixes1 hs)"
    using Cons assms(2) by (intro dot_suffixes_join) auto
  then show ?thesis
    using nm [of "\<lambda>cs. True"] nm [of "\<lambda>cs. list_ex (ns_from ns) (cs # dot_suffixes cs)"] assms Cons
    by (cases ns) (auto simp: j split: list.splits)
qed

lemma list_ex_suffixes:
  "list_ex P (suffixes1 (h # hs)) \<longleftrightarrow> P (h # hs) \<or> list_ex P (suffixes1 hs)"
  by simp

lemma ns_test_subseq:
  assumes "\<forall>n\<in>set ns. CHR ''.'' \<notin> set n" "ns \<noteq> []" "\<forall>h\<in>set hs. CHR ''.'' \<notin> set h" "hs \<noteq> []"
  shows "ns_test ns (join ''.'' hs) \<longleftrightarrow> subseq ns hs"
proof -
  have "list_ex (ns_from ns) (map (join ''.'') (suffixes1 hs)) \<longleftrightarrow> subseq ns hs"
    if "\<forall>n\<in>set ns. CHR ''.'' \<notin> set n" "ns \<noteq> []" "\<forall>h\<in>set hs. CHR ''.'' \<notin> set h" for ns hs
    using that
  proof (induction hs arbitrary: ns)
    case (Cons h hs)
    obtain n ms where ns: "ns = n # ms" using Cons.prems(2) by (cases ns) auto
    have "ns_from ns (join ''.'' (h # hs)) \<longleftrightarrow> n = h \<and> (ms = [] \<or> hs \<noteq> [] \<and> list_ex (ns_from ms) (map (join ''.'') (suffixes1 hs)))"
      unfolding ns using Cons.prems by (intro ns_from_join) (auto simp: ns)
    also have "\<dots> \<longleftrightarrow> n = h \<and> subseq ms hs"
      using Cons.IH [of ms] Cons.prems ns by (cases "ms = []"; cases hs) auto
    finally show ?case using Cons.IH [of ns] Cons.prems
      by (auto simp: ns subseq_Cons' intro: subseq_Cons2')
  qed simp
  then show ?thesis using assms dot_suffixes_join [OF assms(4,3)] unfolding ns_test_def by metis
qed

lemma sorted_subseq:
  "sorted xs \<Longrightarrow> sorted ys \<Longrightarrow> subseq xs ys \<longleftrightarrow> mset xs \<subseteq># mset (ys :: 'a :: linorder list)"
proof (induction ys arbitrary: xs)
  case (Cons y ys)
  show ?case
  proof (cases xs)
    case (Cons x xs')
    show ?thesis
    proof (cases "x = y")
      case True
      then show ?thesis using Cons Cons.IH [of xs'] Cons.prems by simp
    next
      case False
      have "mset xs \<subseteq># mset (y # ys) \<longleftrightarrow> mset xs \<subseteq># mset ys"
      proof
        assume sub: "mset xs \<subseteq># mset (y # ys)"
        then have "x \<in> set ys" using False Cons by (auto dest: mset_subset_eqD)
        then have "y \<notin> set xs" using Cons.prems False Cons by (auto dest: order_antisym)
        then show "mset xs \<subseteq># mset ys" using sub by (metis Diff_eq_empty_iff_mset minus_add_mset_if_not_in_lhs mset.simps(2) set_mset_mset)
      qed (auto intro: subset_mset.order_trans)
      then show ?thesis using Cons.IH [of xs] Cons.prems Cons False by simp
    qed
  qed simp
qed (auto dest: list_emb_Nil2)

lemma split_on_parts: "\<forall>w\<in>set (split_on c s). c \<notin> set w"
proof (induction s)
  case (Cons a s)
  then show ?case by (auto split: list.split)
qed simp

lemma split_on_nonempty: "split_on c s \<noteq> []"
  by (induction s) (auto split: list.split)

lemma namespaces_of_props: "sorted (namespaces_of ns)" "namespaces_of ns \<noteq> []" "\<forall>n\<in>set (namespaces_of ns). CHR ''.'' \<notin> set n"
proof -
  show "sorted (namespaces_of ns)" by (simp add: namespaces_of_def)
  have "set (namespaces_of ns) = set (split_on (CHR ''.'') (case ns of None \<Rightarrow> [] | Some s \<Rightarrow> s))"
    by (simp add: namespaces_of_def)
  then show "\<forall>n\<in>set (namespaces_of ns). CHR ''.'' \<notin> set n" using split_on_parts by metis
  show "namespaces_of ns \<noteq> []" using split_on_nonempty by (metis namespaces_of_def mset_sort mset_zero_iff_right)
qed

text \<open>A handler bound with the namespaces \<open>bs\<close> is reached under the namespaces \<open>as\<close> if they are among \<open>bs\<close>.\<close>

lemma ns_test_subset:
  "ns_test (namespaces_of as') (join ''.'' (namespaces_of bs)) \<longleftrightarrow> mset (namespaces_of as') \<subseteq># mset (namespaces_of bs)"
  using ns_test_subseq sorted_subseq namespaces_of_props by metis

section \<open>The registry as one list\<close>

text \<open>
  The lists of an element stand for the list \<open>L\<close> of its handlers in the order in which they were added.
\<close>

definition of_type :: "string \<Rightarrow> bool \<Rightarrow> handle_obj list \<Rightarrow> handle_obj list" where
  "of_type t dlg L = filter (\<lambda>h. ho_type h = t \<and> (selector h \<noteq> None) = dlg) L"

definition list_for :: "string \<Rightarrow> handle_obj list \<Rightarrow> handler_list" where
  "list_for t L = \<lparr>handler_objs = of_type t True L @ of_type t False L, delegateCount = length (of_type t True L)\<rparr>"

definition good_type :: "string \<Rightarrow> bool" where
  "good_type t \<longleftrightarrow> t \<noteq> [] \<and> CHR ''.'' \<notin> set t \<and> (\<forall>c\<in>set t. \<not> is_space c)"

definition stands_for :: "elem_events \<Rightarrow> handle_obj list \<Rightarrow> bool" where
  "stands_for d L \<longleftrightarrow>
     (let evs = (case ev_events d of None \<Rightarrow> [] | Some evs \<Rightarrow> evs) in
      distinct (map fst evs)
      \<and> (\<forall>t. map_of evs t = (if \<exists>h\<in>set L. ho_type h = t then Some (list_for t L) else None)))
     \<and> (\<forall>h\<in>set L. good_type (ho_type h))"

lemma of_type_simps [simp]:
  "of_type t b [] = []"
  "of_type t b (L @ L') = of_type t b L @ of_type t b L'"
  "of_type t b [h] = (if ho_type h = t \<and> (selector h \<noteq> None) = b then [h] else [])"
  "of_type t b (filter P L) = filter P (of_type t b L)"
  by (auto simp: of_type_def conj_commute)

lemma insert_handler_list: "insert_handler h (list_for (ho_type h) L) = list_for (ho_type h) (L @ [h])"
  by (simp add: insert_handler_def list_for_def)

lemma list_for_empty: "\<not> (\<exists>h\<in>set L. ho_type h = t) \<Longrightarrow> list_for t L = \<lparr>handler_objs = [], delegateCount = 0\<rparr>"
  by (auto simp: list_for_def of_type_def filter_empty_conv)

lemma list_for_other: "ho_type h \<noteq> t \<Longrightarrow> list_for t (L @ [h]) = list_for t L"
  by (simp add: list_for_def)

lemma remove_handlers_loop:
  "remove_handlers m (length xs) \<lparr>handler_objs = xs @ ys, delegateCount = k\<rparr> =
    \<lparr>handler_objs = filter (\<lambda>h. \<not> m h) xs @ ys, delegateCount = k - length (filter (\<lambda>h. m h \<and> selector h \<noteq> None) xs)\<rparr>"
proof (induction xs arbitrary: ys k rule: rev_induct)
  case (snoc x xs)
  show ?case using snoc.IH [of "x # ys" k] snoc.IH [of ys k] snoc.IH [of ys "k - 1"] by (simp add: nth_append)
qed simp

lemma remove_handlers_list:
  "remove_handlers m (length (handler_objs (list_for t L))) (list_for t L) = list_for t (filter (\<lambda>h. \<not> m h) L)"
proof -
  have sel: "filter (\<lambda>h. m h \<and> selector h \<noteq> None) (of_type t True L) = filter m (of_type t True L)"
    "filter (\<lambda>h. m h \<and> selector h \<noteq> None) (of_type t False L) = []"
    by (auto simp: of_type_def filter_empty_conv intro!: filter_cong)
  have "length (filter m xs) + length (filter (\<lambda>h. \<not> m h) xs) = length xs" for xs :: "handle_obj list"
    by (rule sum_length_filter_compl)
  then have "length (of_type t True L) - length (filter m (of_type t True L)) = length (filter (\<lambda>h. \<not> m h) (of_type t True L))"
    by (metis add_diff_cancel_left')
  then show ?thesis
    using remove_handlers_loop [of m "of_type t True L @ of_type t False L" "[]" "length (of_type t True L)"] sel
    by (simp add: list_for_def)
qed

lemma stands_forD:
  assumes "stands_for d L"
  shows "map_of (case ev_events d of None \<Rightarrow> [] | Some evs \<Rightarrow> evs) t =
      (if \<exists>h\<in>set L. ho_type h = t then Some (list_for t L) else None)"
    "distinct (map fst (case ev_events d of None \<Rightarrow> [] | Some evs \<Rightarrow> evs))" "h \<in> set L \<Longrightarrow> good_type (ho_type h)"
  using assms unfolding stands_for_def Let_def by blast+

lemma stands_forI:
  assumes "ev_events d = Some evs" "distinct (map fst evs)"
    "\<And>t. map_of evs t = (if \<exists>h\<in>set L. ho_type h = t then Some (list_for t L) else None)"
    "\<And>h. h \<in> set L \<Longrightarrow> good_type (ho_type h)"
  shows "stands_for d L"
  using assms by (simp add: stands_for_def)

text \<open>The handler that a word of \<open>types\<close> adds.\<close>

definition added_by :: "(string \<Rightarrow> special_event) \<Rightarrow> nat \<Rightarrow> nat \<Rightarrow> string option \<Rightarrow> string \<Rightarrow> handle_obj list" where
  "added_by special handler guid sel word = (case type_namespace word of
      None \<Rightarrow> []
    | Some (origT, ns) \<Rightarrow> if origT = [] then [] else
        [\<lparr>ho_type = mapped_type special sel origT, origType = origT, ho_handler = handler, ho_guid = guid, selector = sel,
          namespace = join ''.'' (namespaces_of ns)\<rparr>])"

text \<open>The types to which special events are mapped are types, and are not mapped any further.\<close>

definition good_special :: "(string \<Rightarrow> special_event) \<Rightarrow> bool" where
  "good_special special \<longleftrightarrow> (\<forall>t sel. good_type t \<longrightarrow> good_type (mapped_type special sel t)
     \<and> mapped_type special None (mapped_type special sel t) = mapped_type special sel t)"

lemma nonblank_words_chars:
  "\<forall>c\<in>set acc. \<not> is_space c \<Longrightarrow> w \<in> set (nonblank_words acc s) \<Longrightarrow> w \<noteq> [] \<and> (\<forall>c\<in>set w. \<not> is_space c)"
proof (induction s arbitrary: acc)
  case (Cons c cs)
  show ?case
  proof (cases "is_space c")
    case True
    then consider "w \<in> set (nonblank_words [] cs)" | "acc \<noteq> []" "w = rev acc" using Cons.prems(2) by (auto split: if_splits)
    then show ?thesis using Cons.IH [of "[]"] Cons.prems(1) by cases simp_all
  next
    case False
    have "\<forall>x\<in>set (c # acc). \<not> is_space x" using Cons.prems(1) False by (metis set_ConsD)
    moreover have "w \<in> set (nonblank_words (c # acc) cs)" using Cons.prems(2) False by simp
    ultimately show ?thesis by (rule Cons.IH)
  qed
qed (auto split: if_splits)

lemma type_words_chars: "w \<in> set (type_words s) \<Longrightarrow> \<forall>c\<in>set w. \<not> is_space c"
  using nonblank_words_chars [of "[]" w s] by (auto simp: type_words_def split: list.splits)

lemma word_type:
  assumes "\<forall>c\<in>set w. \<not> is_space c" "type_namespace w = Some (t, ns)" "t \<noteq> []"
  shows "good_type t"
proof -
  have t: "t = takeWhile (\<lambda>c. c \<noteq> CHR ''.'') w"
    using assms(2) by (auto simp: type_namespace_def Let_def split: list.splits)
  then show ?thesis using assms(1,3) unfolding t good_type_def by (auto dest: set_takeWhileD)
qed

lemma add_type_stands:
  assumes d: "stands_for d L" "ev_events d \<noteq> None" and s: "good_special special" and w: "\<forall>c\<in>set w. \<not> is_space c"
  shows "stands_for (add_type special handler guid sel w d) (L @ added_by special handler guid sel w)"
    "ev_events (add_type special handler guid sel w d) \<noteq> None"
proof -
  have "stands_for (add_type special handler guid sel w d) (L @ added_by special handler guid sel w)
    \<and> ev_events (add_type special handler guid sel w d) \<noteq> None"
  proof (cases "type_namespace w")
    case (Some tn)
    obtain t ns where tn: "tn = (t, ns)" by fastforce
    show ?thesis
    proof (cases "t = []")
      case False
      let ?t = "mapped_type special sel t"
      let ?h = "\<lparr>ho_type = ?t, origType = t, ho_handler = handler, ho_guid = guid, selector = sel,
          namespace = join ''.'' (namespaces_of ns)\<rparr>"
      obtain evs where evs: "ev_events d = Some evs" using d(2) by auto
      have good: "good_type ?t" using word_type [OF w] Some tn False s by (auto simp: good_special_def)
      note D = stands_forD [OF d(1), unfolded evs option.case]
      have ins: "insert_handler ?h (case map_of evs ?t of None \<Rightarrow> \<lparr>handler_objs = [], delegateCount = 0\<rparr> | Some hl \<Rightarrow> hl)
          = list_for ?t (L @ [?h])"
        using insert_handler_list [of ?h L] list_for_empty [of L ?t] D(1) [of ?t] by (auto split: if_splits)
      have eq: "ev_events (add_type special handler guid sel w d) = Some (AList.update ?t (list_for ?t (L @ [?h])) evs)"
        using ins Some tn False evs by (auto simp: add_type_def Let_def split: option.splits)
      moreover have "stands_for (add_type special handler guid sel w d) (L @ [?h])"
      proof (rule stands_forI [OF eq])
        show "distinct (map fst (AList.update ?t (list_for ?t (L @ [?h])) evs))" using D(2) by (rule distinct_update)
        show "map_of (AList.update ?t (list_for ?t (L @ [?h])) evs) t' =
            (if \<exists>h\<in>set (L @ [?h]). ho_type h = t' then Some (list_for t' (L @ [?h])) else None)" for t'
          using D(1) [of t'] list_for_other [of ?h t' L] by (auto simp: update_conv')
      qed (use D(3) good in auto)
      ultimately show ?thesis using Some tn False by (simp add: added_by_def)
    qed (use d Some tn in \<open>simp add: add_type_def added_by_def\<close>)
  qed (use d in \<open>simp add: add_type_def added_by_def\<close>)
  then show "stands_for (add_type special handler guid sel w d) (L @ added_by special handler guid sel w)"
    "ev_events (add_type special handler guid sel w d) \<noteq> None" by blast+
qed

lemma event_add_stands:
  assumes d: "stands_for d L" and s: "good_special special"
  shows "stands_for (event_add special types handler guid sel d)
    (L @ concat (map (added_by special handler guid sel) (rev (type_words types))))"
proof -
  have *: "stands_for (foldl (\<lambda>d word. add_type special handler guid sel word d) d' ws)
      (L' @ concat (map (added_by special handler guid sel) ws))"
    if "stands_for d' L'" "ev_events d' \<noteq> None" "\<forall>w\<in>set ws. \<forall>c\<in>set w. \<not> is_space c" for d' L' ws
    using that
  proof (induction ws arbitrary: d' L')
    case (Cons w ws)
    then show ?case using Cons.IH [OF add_type_stands [OF Cons.prems(1,2) s, of w handler guid sel]] by simp
  qed simp
  have "stands_for (d\<lparr>ev_events := Some (case ev_events d of None \<Rightarrow> [] | Some evs \<Rightarrow> evs), ev_handle := True\<rparr>) L"
    using d by (simp add: stands_for_def Let_def)
  then show ?thesis unfolding event_add_def using type_words_chars by (intro *) auto
qed

text \<open>Removing: what a word of \<open>types\<close> removes.\<close>

definition removed_by :: "(string \<Rightarrow> special_event) \<Rightarrow> nat option \<Rightarrow> string option \<Rightarrow> string \<Rightarrow> handle_obj \<Rightarrow> bool" where
  "removed_by special guid sel word h = (case type_namespace word of
      None \<Rightarrow> False
    | Some (t, ns) \<Rightarrow> (t \<noteq> [] \<longrightarrow> ho_type h = mapped_type special sel t)
        \<and> removes (t = []) t guid (map_option (\<lambda>s. namespaces_of (Some s)) ns) sel h)"

lemma list_for_keep:
  assumes "\<And>h. ho_type h = t \<Longrightarrow> P h = Q h"
  shows "list_for t (filter P L) = list_for t (filter Q L)"
proof -
  have "of_type t b (filter P L) = of_type t b (filter Q L)" for b
    unfolding of_type_def filter_filter by (rule filter_cong) (use assms in auto)
  then show ?thesis unfolding list_for_def by simp
qed

lemma set_list_for: "set (handler_objs (list_for t L)) = {h \<in> set L. ho_type h = t}"
  by (auto simp: list_for_def of_type_def)

lemma remove_type_stands:
  assumes d: "stands_for d L"
  shows "stands_for (remove_type special mt t ns guid sel d) (filter (\<lambda>h. \<not> (ho_type h = mapped_type special sel t
    \<and> removes mt t guid (map_option (\<lambda>s. namespaces_of (Some s)) ns) sel h)) L)"
proof -
  let ?t = "mapped_type special sel t" and ?m = "removes mt t guid (map_option (\<lambda>s. namespaces_of (Some s)) ns) sel"
  let ?L = "filter (\<lambda>h. \<not> (ho_type h = ?t \<and> ?m h)) L"
  let ?evs = "case ev_events d of None \<Rightarrow> [] | Some evs \<Rightarrow> evs"
  note D = stands_forD [OF d]
  show ?thesis
  proof (cases "\<exists>h\<in>set L. ho_type h = ?t")
    case False
    then have "?L = L" by (auto simp: filter_id_conv)
    moreover have "remove_type special mt t ns guid sel d = d" using False D(1) [of ?t] by (simp add: remove_type_def Let_def)
    ultimately show ?thesis using d by simp
  next
    case True
    then obtain evs where evs: "ev_events d = Some evs" using D(1) [of ?t] by (cases "ev_events d") auto
    note E = D [unfolded evs option.case]
    have hl: "remove_handlers ?m (length (handler_objs (list_for ?t L))) (list_for ?t L) = list_for ?t ?L"
      using remove_handlers_list [of ?m ?t L] list_for_keep [of ?t "\<lambda>h. \<not> ?m h" "\<lambda>h. \<not> (ho_type h = ?t \<and> ?m h)" L] by simp
    have other: "list_for t' ?L = list_for t' L" if "t' \<noteq> ?t" for t'
      using list_for_keep [of t' "\<lambda>h. \<not> (ho_type h = ?t \<and> ?m h)" "\<lambda>h. True" L] that by simp
    have ex: "(\<exists>h\<in>set ?L. ho_type h = t') \<longleftrightarrow> (if t' = ?t then handler_objs (list_for ?t ?L) \<noteq> [] else \<exists>h\<in>set L. ho_type h = t')" for t'
      using set_list_for [of ?t ?L] by (auto simp: set_empty [symmetric] simp del: set_empty)
    have ne: "handler_objs (list_for ?t L) \<noteq> []" using True set_list_for [of ?t L] by (auto simp: set_empty [symmetric] simp del: set_empty)
    let ?evs' = "if handler_objs (list_for ?t ?L) = [] then AList.delete ?t evs else AList.update ?t (list_for ?t ?L) evs"
    have eq: "ev_events (remove_type special mt t ns guid sel d) = Some ?evs'"
      using True hl ne E(1) [of ?t] evs by (simp add: remove_type_def Let_def)
    show ?thesis
    proof (rule stands_forI [OF eq])
      show "distinct (map fst ?evs')" using E(2) by (simp add: distinct_update distinct_delete)
      show "map_of ?evs' t' = (if \<exists>h\<in>set ?L. ho_type h = t' then Some (list_for t' ?L) else None)" for t'
        using E(1) [of t'] other [of t'] by (simp only: ex) (auto simp: update_conv' delete_conv')
    qed (use E(3) in auto)
  qed
qed

lemma clear_events_stands: "stands_for d L \<Longrightarrow> stands_for (clear_events d) L"
proof (cases "ev_events d = Some []")
  case True
  assume d: "stands_for d L"
  have "L = []"
  proof (cases L)
    case (Cons h hs)
    then show ?thesis using stands_forD(1) [OF d, of "ho_type h"] True by simp
  qed
  then show ?thesis by (simp add: clear_events_def True stands_for_def)
qed (simp add: clear_events_def)

text \<open>The registry of a page with a table of special events.\<close>

definition registry_ok :: "(string \<Rightarrow> special_event) \<Rightarrow> elem_events \<Rightarrow> handle_obj list \<Rightarrow> bool" where
  "registry_ok special d L \<longleftrightarrow> stands_for d L
     \<and> (\<forall>h\<in>set L. mapped_type special None (ho_type h) = ho_type h \<and> (\<exists>ns. namespace h = join ''.'' (namespaces_of ns)))"

lemma nonblank_words_word:
  "w \<noteq> [] \<or> acc \<noteq> [] \<Longrightarrow> \<forall>c\<in>set w. \<not> is_space c \<Longrightarrow> nonblank_words acc w = [rev acc @ w]"
proof (induction w arbitrary: acc)
  case (Cons c w)
  have "\<not> is_space c" "\<forall>c\<in>set w. \<not> is_space c" using Cons.prems(2) by (meson list.set_intros)+
  then show ?case using Cons.IH [of "c # acc"] by (metis append.assoc append_Cons append_Nil list.distinct(1) nonblank_words.simps(2) rev.simps(2))
qed simp

lemma type_words_word: "w \<noteq> [] \<Longrightarrow> \<forall>c\<in>set w. \<not> is_space c \<Longrightarrow> type_words w = [w]"
  by (simp only: type_words_def nonblank_words_word list.case rev.simps append_Nil simp_thms)

lemma type_namespace_alt:
  "type_namespace w = (let r = dropWhile (\<lambda>c. c \<noteq> CHR ''.'') w in
     if length r = 1 then None else Some (takeWhile (\<lambda>c. c \<noteq> CHR ''.'') w, if r = [] then None else Some (tl r)))"
  unfolding type_namespace_def Let_def
  by (cases "dropWhile (\<lambda>c. c \<noteq> CHR ''.'') w" rule: list.exhaust; cases "tl (dropWhile (\<lambda>c. c \<noteq> CHR ''.'') w)")
    (simp_all only: list.case list.sel list.size simp_thms if_True if_False list.distinct, simp_all)

lemma type_namespace_app:
  assumes "good_type t" "type_namespace w = Some ([], ns)"
  shows "type_namespace (t @ w) = Some (t, ns)"
proof -
  have w: "takeWhile (\<lambda>c. c \<noteq> CHR ''.'') w = []"
    using assms(2) unfolding type_namespace_alt Let_def by (metis option.distinct(1) option.inject prod.inject)
  have t: "\<forall>c\<in>set t. c \<noteq> CHR ''.''" using assms(1) unfolding good_type_def by blast
  have "takeWhile (\<lambda>c. c \<noteq> CHR ''.'') (t @ w) = t @ takeWhile (\<lambda>c. c \<noteq> CHR ''.'') w"
    "dropWhile (\<lambda>c. c \<noteq> CHR ''.'') (t @ w) = dropWhile (\<lambda>c. c \<noteq> CHR ''.'') w"
    using t by (meson takeWhile_append2 dropWhile_append2)+
  then have tw: "takeWhile (\<lambda>c. c \<noteq> CHR ''.'') (t @ w) = t"
    "dropWhile (\<lambda>c. c \<noteq> CHR ''.'') (t @ w) = dropWhile (\<lambda>c. c \<noteq> CHR ''.'') w"
    unfolding w by (simp_all only: append_Nil2)
  show ?thesis using assms(2) unfolding type_namespace_alt Let_def tw w
    by (metis option.distinct(1) option.inject prod.inject)
qed

lemma remove_one_type:
  assumes d: "registry_ok special d L" and t: "good_type t" "mapped_type special None t = t"
    and w: "\<forall>c\<in>set w. \<not> is_space c" "type_namespace w = Some ([], ns)"
  shows "\<exists>d'. event_remove (Suc n) special True (type_words (t @ w)) guid None d = Some d'
    \<and> registry_ok special d' (filter (\<lambda>h. \<not> (ho_type h = t \<and> removed_by special guid None w h)) L)"
proof (cases "ev_events d")
  case None
  have "L = []"
  proof (cases L)
    case (Cons h hs)
    then show ?thesis using stands_forD(1) [of d L "ho_type h"] d None by (simp add: registry_ok_def)
  qed
  then show ?thesis using None d by simp
next
  case (Some evs)
  have "type_words (t @ w) = [t @ w]"
    using t(1) w(1) by (intro type_words_word) (auto simp: good_type_def)
  then have "event_remove (Suc n) special True (type_words (t @ w)) guid None d =
      Some (clear_events (remove_type special True t ns guid None d))"
    using Some t(1) type_namespace_app [OF t(1) w(2)] by (simp add: good_type_def)
  moreover have "(\<lambda>h. \<not> (ho_type h = t \<and> removed_by special guid None w h)) =
      (\<lambda>h. \<not> (ho_type h = mapped_type special None t \<and> removes True t guid (map_option (\<lambda>s. namespaces_of (Some s)) ns) None h))"
    using t(2) w(2) by (auto simp: removed_by_def removes_def)
  ultimately show ?thesis
    using clear_events_stands [OF remove_type_stands, of d L special True t ns guid None] d
    by (auto simp: registry_ok_def)
qed

lemma remove_all_types:
  assumes "registry_ok special d L" "\<forall>t\<in>set ks. good_type t \<and> mapped_type special None t = t"
    and "\<forall>c\<in>set w. \<not> is_space c" "type_namespace w = Some ([], ns)"
  shows "\<exists>d'. foldl (\<lambda>r type. Option.bind r (\<lambda>d. event_remove (Suc n) special True (type_words (type @ w)) guid None d)) (Some d) ks = Some d'
    \<and> registry_ok special d' (filter (\<lambda>h. \<not> (ho_type h \<in> set ks \<and> removed_by special guid None w h)) L)"
  using assms(1,2)
proof (induction ks arbitrary: d L)
  case (Cons t ks)
  obtain d1 where d1: "event_remove (Suc n) special True (type_words (t @ w)) guid None d = Some d1"
    "registry_ok special d1 (filter (\<lambda>h. \<not> (ho_type h = t \<and> removed_by special guid None w h)) L)"
    using remove_one_type [OF Cons.prems(1) _ _ assms(3,4), of t n guid] Cons.prems(2) by auto
  have "filter (\<lambda>h. \<not> (ho_type h \<in> set ks \<and> removed_by special guid None w h))
      (filter (\<lambda>h. \<not> (ho_type h = t \<and> removed_by special guid None w h)) L) =
    filter (\<lambda>h. \<not> (ho_type h \<in> set (t # ks) \<and> removed_by special guid None w h)) L"
    unfolding filter_filter by (rule filter_cong) auto
  then show ?case using Cons.IH [OF d1(2)] Cons.prems(2) d1(1) by (simp del: event_remove.simps)
qed simp

text \<open>A word has a type, or it stands for all types and there is no selector.\<close>

definition word_ok :: "string option \<Rightarrow> string \<Rightarrow> bool" where
  "word_ok sel w \<longleftrightarrow> (case type_namespace w of None \<Rightarrow> False | Some (t, ns) \<Rightarrow> t \<noteq> [] \<or> sel = None)"

lemma remove_word:
  assumes d: "registry_ok special d L" and w: "word_ok sel w" "\<forall>c\<in>set w. \<not> is_space c"
  shows "\<exists>d'. (case (case type_namespace w of None \<Rightarrow> ([], None) | Some tn \<Rightarrow> tn) of (origT, ns) \<Rightarrow>
      if origT \<noteq> [] then Some (remove_type special False origT ns guid sel d)
      else foldl (\<lambda>r type. Option.bind r (\<lambda>d. event_remove (Suc n) special True (type_words (type @ w)) guid sel d))
        (Some d) (map fst (case ev_events d of None \<Rightarrow> [] | Some evs \<Rightarrow> evs))) = Some d'
    \<and> registry_ok special d' (filter (\<lambda>h. \<not> removed_by special guid sel w h) L)"
proof -
  obtain t ns where tn: "type_namespace w = Some (t, ns)" "t \<noteq> [] \<or> sel = None"
    using w(1) by (auto simp: word_ok_def split: option.splits)
  show ?thesis
  proof (cases "t = []")
    case False
    then have "(\<lambda>h. \<not> removed_by special guid sel w h) = (\<lambda>h. \<not> (ho_type h = mapped_type special sel t
        \<and> removes False t guid (map_option (\<lambda>s. namespaces_of (Some s)) ns) sel h))"
      using tn by (simp add: removed_by_def)
    then show ?thesis using remove_type_stands [of d L special False t ns guid sel] d tn False by (auto simp: registry_ok_def)
  next
    case True
    let ?ks = "map fst (case ev_events d of None \<Rightarrow> [] | Some evs \<Rightarrow> evs)"
    have ks: "t' \<in> set ?ks \<longleftrightarrow> (\<exists>h\<in>set L. ho_type h = t')" for t'
      using stands_forD(1) [of d L t'] d map_of_eq_None_iff [of "case ev_events d of None \<Rightarrow> [] | Some evs \<Rightarrow> evs" t']
      by (auto simp: registry_ok_def split: if_splits)
    have good: "\<forall>t'\<in>set ?ks. good_type t' \<and> mapped_type special None t' = t'"
    proof
      fix t' assume "t' \<in> set ?ks"
      then obtain h where "h \<in> set L" "ho_type h = t'" using ks [of t'] by blast
      then show "good_type t' \<and> mapped_type special None t' = t'" using d stands_forD(3) [of d L h] by (auto simp: registry_ok_def)
    qed
    have "filter (\<lambda>h. \<not> (ho_type h \<in> set ?ks \<and> removed_by special guid None w h)) L =
        filter (\<lambda>h. \<not> removed_by special guid None w h) L"
    proof (rule filter_cong)
      fix h assume "h \<in> set L"
      then have "ho_type h \<in> set ?ks" using ks [of "ho_type h"] by blast
      then show "(\<not> (ho_type h \<in> set ?ks \<and> removed_by special guid None w h)) = (\<not> removed_by special guid None w h)" by blast
    qed simp
    then show ?thesis using remove_all_types [OF d good w(2), of ns n guid] tn True by (simp del: event_remove.simps)
  qed
qed

lemma event_remove_stands:
  assumes d: "registry_ok special d L" and ws: "\<forall>w\<in>set ws. word_ok sel w \<and> (\<forall>c\<in>set w. \<not> is_space c)"
  shows "\<exists>d'. event_remove (Suc (Suc n)) special False ws guid sel d = Some d'
    \<and> registry_ok special d' (filter (\<lambda>h. \<not> (\<exists>w\<in>set ws. removed_by special guid sel w h)) L)"
proof (cases "ev_events d")
  case None
  have "L = []"
  proof (cases L)
    case (Cons h hs)
    then show ?thesis using stands_forD(1) [of d L "ho_type h"] d None by (simp add: registry_ok_def)
  qed
  then show ?thesis using None d by simp
next
  case (Some evs)
  let ?step = "\<lambda>r word. Option.bind r (\<lambda>d.
          case (case type_namespace word of None \<Rightarrow> ([], None) | Some tn \<Rightarrow> tn) of (origT, ns) \<Rightarrow>
            if origT \<noteq> [] then Some (remove_type special False origT ns guid sel d)
            else foldl (\<lambda>r type. Option.bind r (\<lambda>d. event_remove (Suc n) special True (type_words (type @ word)) guid sel d))
              (Some d) (map fst (case ev_events d of None \<Rightarrow> [] | Some evs \<Rightarrow> evs)))"
  have *: "\<exists>d'. foldl ?step (Some d) us = Some d'
      \<and> registry_ok special d' (filter (\<lambda>h. \<not> (\<exists>w\<in>set us. removed_by special guid sel w h)) L)"
    if "registry_ok special d L" "\<forall>w\<in>set us. word_ok sel w \<and> (\<forall>c\<in>set w. \<not> is_space c)" for d L us
    using that
  proof (induction us arbitrary: d L)
    case (Cons u us)
    have u: "word_ok sel u" "\<forall>c\<in>set u. \<not> is_space c" using Cons.prems(2) by (meson list.set_intros(1))+
    obtain d1 where d1: "?step (Some d) u = Some d1" "registry_ok special d1 (filter (\<lambda>h. \<not> removed_by special guid sel u h) L)"
      unfolding bind.bind_lunit using remove_word [OF Cons.prems(1) u] by blast
    have us: "\<forall>w\<in>set us. word_ok sel w \<and> (\<forall>c\<in>set w. \<not> is_space c)" using Cons.prems(2) by (meson list.set_intros(2))
    have eq: "filter (\<lambda>h. \<not> (\<exists>w\<in>set us. removed_by special guid sel w h)) (filter (\<lambda>h. \<not> removed_by special guid sel u h) L) =
        filter (\<lambda>h. \<not> (\<exists>w\<in>set (u # us). removed_by special guid sel w h)) L"
      unfolding filter_filter by (rule filter_cong) auto
    obtain d2 where d2: "foldl ?step (Some d1) us = Some d2"
      "registry_ok special d2 (filter (\<lambda>h. \<not> (\<exists>w\<in>set (u # us). removed_by special guid sel w h)) L)"
      using Cons.IH [OF d1(2) us] unfolding eq by blast
    have "foldl ?step (Some d) (u # us) = Some d2" unfolding foldl.simps d1(1) by (rule d2(1))
    then show ?case using d2(2) by blast
  qed simp
  obtain d' where "foldl ?step (Some d) (rev ws) = Some d'"
    "registry_ok special d' (filter (\<lambda>h. \<not> (\<exists>w\<in>set ws. removed_by special guid sel w h)) L)"
    using *[OF d, of "rev ws"] ws unfolding set_rev by blast
  moreover from this have "event_remove (Suc (Suc n)) special False ws guid sel d = Some (clear_events d')"
    using Some by (simp only: event_remove.simps(2) [of "Suc n"] option.distinct if_False option.map)
  moreover have "registry_ok special (clear_events d') (filter (\<lambda>h. \<not> (\<exists>w\<in>set ws. removed_by special guid sel w h)) L)"
    using calculation(2) clear_events_stands unfolding registry_ok_def by blast
  ultimately show ?thesis by blast
qed

section \<open>Pages\<close>

text \<open>The calls of \<open>on\<close> and \<open>off\<close> for an element, and what they mean for the list of its handlers.\<close>

datatype event_op = On string nat nat "string option" | Off string "nat option" "string option"

fun ev_do :: "nat \<Rightarrow> (string \<Rightarrow> special_event) \<Rightarrow> event_op \<Rightarrow> elem_events \<Rightarrow> elem_events option" where
  "ev_do depth special (On types handler guid sel) d = Some (event_add special types handler guid sel d)"
| "ev_do depth special (Off types guid sel) d = event_remove depth special False (type_words types) guid sel d"

fun ev_list :: "(string \<Rightarrow> special_event) \<Rightarrow> event_op \<Rightarrow> handle_obj list \<Rightarrow> handle_obj list" where
  "ev_list special (On types handler guid sel) L = L @ concat (map (added_by special handler guid sel) (rev (type_words types)))"
| "ev_list special (Off types guid sel) L = filter (\<lambda>h. \<not> (\<exists>w\<in>set (type_words types). removed_by special guid sel w h)) L"

fun ev_ok :: "event_op \<Rightarrow> bool" where
  "ev_ok (On types handler guid sel) = True"
| "ev_ok (Off types guid sel) = (\<forall>w\<in>set (type_words types). word_ok sel w)"

definition ev_run :: "nat \<Rightarrow> (string \<Rightarrow> special_event) \<Rightarrow> event_op list \<Rightarrow> elem_events option" where
  "ev_run depth special ops = foldl (\<lambda>r op. Option.bind r (ev_do depth special op)) (Some no_events) ops"

definition ev_handlers :: "(string \<Rightarrow> special_event) \<Rightarrow> event_op list \<Rightarrow> handle_obj list" where
  "ev_handlers special ops = foldl (\<lambda>L op. ev_list special op L) [] ops"

lemma ev_do_stands:
  assumes d: "registry_ok special d L" and s: "good_special special" and op: "ev_ok op"
  shows "\<exists>d'. ev_do (Suc (Suc n)) special op d = Some d' \<and> registry_ok special d' (ev_list special op L)"
proof (cases op)
  case (On types handler guid sel)
  have "mapped_type special None (ho_type h) = ho_type h \<and> (\<exists>ns. namespace h = join ''.'' (namespaces_of ns))"
    if h: "h \<in> set (added_by special handler guid sel w)" and w: "w \<in> set (type_words types)" for h w
  proof -
    obtain tn where tn: "type_namespace w = Some tn" using h by (cases "type_namespace w") (auto simp: added_by_def)
    obtain t ns where t': "tn = (t, ns)" by fastforce
    then have t: "type_namespace w = Some (t, ns)" "t \<noteq> []" "ho_type h = mapped_type special sel t"
      "namespace h = join ''.'' (namespaces_of ns)"
      using h tn by (auto simp: added_by_def split: if_splits)
    have "good_type t" by (rule word_type [OF type_words_chars [OF w] t(1,2)])
    then show ?thesis using s t(3,4) by (auto simp: good_special_def)
  qed
  then have "registry_ok special (event_add special types handler guid sel d) (ev_list special op L)"
    using d event_add_stands [OF _ s, of d L types handler guid sel] On by (auto simp: registry_ok_def)
  then show ?thesis using On by simp
next
  case (Off types guid sel)
  then have ws: "\<forall>w\<in>set (type_words types). word_ok sel w \<and> (\<forall>c\<in>set w. \<not> is_space c)"
    using op type_words_chars unfolding Off ev_ok.simps by blast
  show ?thesis unfolding Off ev_do.simps ev_list.simps by (rule event_remove_stands [OF d ws])
qed

text \<open>
  A component that keeps its state in one way and promises another: every operation it accepts returns,
  and the two states stay related. Then so does every sequence of operations.
\<close>

locale op_simulation =
  fixes accepted :: "'o \<Rightarrow> bool" and conc :: "'o \<Rightarrow> 'c \<Rightarrow> 'c option" and abst :: "'o \<Rightarrow> 'a \<Rightarrow> 'a" and rel :: "'c \<Rightarrow> 'a \<Rightarrow> bool"
  assumes step: "accepted op \<Longrightarrow> rel c a \<Longrightarrow> \<exists>c'. conc op c = Some c' \<and> rel c' (abst op a)"
begin

lemma all_steps:
  assumes "rel c a" "\<forall>op\<in>set ops. accepted op"
  shows "\<exists>c'. foldl (\<lambda>r op. Option.bind r (conc op)) (Some c) ops = Some c' \<and> rel c' (foldl (\<lambda>a op. abst op a) a ops)"
  using assms(2)
proof (induction ops rule: rev_induct)
  case (snoc op ops)
  then obtain c1 where c1: "foldl (\<lambda>r op. Option.bind r (conc op)) (Some c) ops = Some c1" "rel c1 (foldl (\<lambda>a op. abst op a) a ops)"
    by auto
  then show ?case using step [OF _ c1(2), of op] snoc.prems by auto
qed (use assms(1) in simp)

end

interpretation registry: op_simulation "\<lambda>op. good_special special \<and> ev_ok op" "ev_do (Suc (Suc n)) special"
    "ev_list special" "registry_ok special" for special n
  by unfold_locales (blast intro: ev_do_stands)

lemma ev_run_stands:
  assumes "good_special special" "\<forall>op\<in>set ops. ev_ok op"
  shows "\<exists>d. ev_run (Suc (Suc n)) special ops = Some d \<and> registry_ok special d (ev_handlers special ops)"
  unfolding ev_run_def ev_handlers_def using assms
  by (intro registry.all_steps) (auto simp: registry_ok_def stands_for_def no_events_def)

section \<open>The order of calls\<close>

definition ns_ok :: "string list option \<Rightarrow> handle_obj \<Rightarrow> bool" where
  "ns_ok ns h = (case ns of None \<Rightarrow> True | Some names \<Rightarrow> mset names \<subseteq># mset (split_on (CHR ''.'') (namespace h)))"

text \<open>
  The handlers that are due for an event, by the list of all handlers: at every node from the target up
  to the element, the delegated handlers whose selector the node matches; then those of the element.
\<close>

definition due :: "(nat \<Rightarrow> ev_node) \<Rightarrow> (string \<Rightarrow> nat \<Rightarrow> bool) \<Rightarrow> nat \<Rightarrow> nat list \<Rightarrow> bool \<Rightarrow> string \<Rightarrow> string list option \<Rightarrow>
    handle_obj list \<Rightarrow> (nat \<times> handle_obj) list" where
  "due node sel_test this path button type ns L =
     (if nd_type (node (hd path)) \<noteq> 0 \<and> (\<not> button \<or> type \<noteq> ''click'') then
        concat (map (\<lambda>cur. if nd_type (node cur) = 1 \<and> (\<not> nd_disabled (node cur) \<or> type \<noteq> ''click'')
            then map (Pair cur) (filter (\<lambda>h. ho_type h = type \<and> ns_ok ns h \<and> (case selector h of None \<Rightarrow> False | Some s \<Rightarrow> sel_test s cur)) L)
            else []) (takeWhile (\<lambda>cur. cur \<noteq> this) path))
      else [])
     @ map (Pair this) (filter (\<lambda>h. ho_type h = type \<and> ns_ok ns h \<and> selector h = None) L)"

definition calls_of :: "string list option \<Rightarrow> (nat \<times> handle_obj list) list \<Rightarrow> (nat \<times> handle_obj) list" where
  "calls_of ns q = concat (map (\<lambda>(el, hs). map (Pair el) (filter (\<lambda>h. case ns of None \<Rightarrow> True | Some names \<Rightarrow> ns_test names (namespace h)) hs)) q)"

lemma calls_of_simps [simp]:
  "calls_of ns [] = []"
  "calls_of ns ((el, hs) # q) =
    map (Pair el) (filter (\<lambda>h. case ns of None \<Rightarrow> True | Some names \<Rightarrow> ns_test names (namespace h)) hs) @ calls_of ns q"
  by (simp_all add: calls_of_def)

lemma react_simps [simp]:
  "stopped_now (react r st) = (stopped_now st \<or> stops_now r)"
  "stopped (react r st) = (stopped st \<or> stops r \<or> stops_now r \<or> returns_false r)"
  by (simp_all add: react_def)

text \<open>The two loops of \<open>dispatch\<close>, written with the projections of their results.\<close>

lemma run_matched_Cons:
  "run_matched R ns el (h # hs) st =
    (if stopped_now st then ([], st)
     else if (case ns of None \<Rightarrow> True | Some names \<Rightarrow> ns_test names (namespace h))
     then ((el, h) # fst (run_matched R ns el hs (react (R el h) st)), snd (run_matched R ns el hs (react (R el h) st)))
     else run_matched R ns el hs st)"
  by (simp add: case_prod_beta)

lemma run_queue_Cons:
  "run_queue R ns ((el, hs) # q) st =
    (if stopped st then ([], st)
     else (fst (run_matched R ns el hs st) @ fst (run_queue R ns q (snd (run_matched R ns el hs st))),
       snd (run_queue R ns q (snd (run_matched R ns el hs st)))))"
  by (simp add: case_prod_beta)

lemma run_matched_prefix:
  assumes "stopped_now st \<longrightarrow> stopped st"
  shows "prefix (fst (run_matched R ns el hs st)) (calls_of ns [(el, hs)])
   \<and> (fst (run_matched R ns el hs st) = calls_of ns [(el, hs)] \<or> stopped_now (snd (run_matched R ns el hs st)))
   \<and> (stopped_now (snd (run_matched R ns el hs st)) \<longrightarrow> stopped (snd (run_matched R ns el hs st)))"
  using assms
proof (induction hs arbitrary: st)
  case (Cons h hs)
  let ?t = "case ns of None \<Rightarrow> True | Some names \<Rightarrow> ns_test names (namespace h)"
  consider "stopped_now st" | "\<not> stopped_now st" "?t" | "\<not> stopped_now st" "\<not> ?t" by blast
  then show ?case
  proof cases
    case 2
    have "stopped_now (react (R el h) st) \<longrightarrow> stopped (react (R el h) st)" using 2(1) by simp
    from Cons.IH [OF this] 2 show ?thesis unfolding run_matched_Cons by simp
  next
    case 3
    then show ?thesis using Cons.IH [OF Cons.prems] unfolding run_matched_Cons by simp
  qed (use Cons.prems in \<open>simp_all add: run_matched_Cons del: run_matched.simps\<close>)
qed simp

lemma run_queue_prefix:
  assumes "stopped_now st \<longrightarrow> stopped st"
  shows "prefix (fst (run_queue R ns q st)) (calls_of ns q)
    \<and> (fst (run_queue R ns q st) = calls_of ns q \<or> stopped (snd (run_queue R ns q st)))
    \<and> (stopped_now (snd (run_queue R ns q st)) \<longrightarrow> stopped (snd (run_queue R ns q st)))"
  using assms
proof (induction q arbitrary: st)
  case (Cons x q)
  obtain el hs where x: "x = (el, hs)" by fastforce
  let ?m = "run_matched R ns el hs st"
  note p = run_matched_prefix [OF Cons.prems, of R ns el hs]
  have app: "calls_of ns (x # q) = calls_of ns [x] @ calls_of ns q" by (simp add: calls_of_def)
  show ?case
  proof (cases "stopped st")
    case False
    then have run: "run_queue R ns (x # q) st = (fst ?m @ fst (run_queue R ns q (snd ?m)), snd (run_queue R ns q (snd ?m)))"
      unfolding x run_queue_Cons by simp
    show ?thesis
    proof (cases "fst ?m = calls_of ns [x]")
      case True
      then show ?thesis unfolding run app using Cons.IH [of "snd ?m"] p by simp
    next
      case False
      then have s: "stopped_now (snd ?m)" "stopped (snd ?m)" "prefix (fst ?m) (calls_of ns [x])" using p x by auto
      then have "run_queue R ns q (snd ?m) = ([], snd ?m)" by (cases q) auto
      then show ?thesis unfolding run app using s by (simp add: prefix_prefix)
    qed
  qed (simp add: x Cons.prems)
qed simp

lemma run_queue_all:
  assumes R: "\<And>el h. \<not> stops (R el h) \<and> \<not> stops_now (R el h) \<and> \<not> returns_false (R el h)" and st: "\<not> stopped st" "\<not> stopped_now st"
  shows "fst (run_queue R ns q st) = calls_of ns q \<and> \<not> stopped (snd (run_queue R ns q st)) \<and> \<not> stopped_now (snd (run_queue R ns q st))"
proof -
  have m: "fst (run_matched R ns el hs st) = calls_of ns [(el, hs)] \<and> \<not> stopped (snd (run_matched R ns el hs st))
      \<and> \<not> stopped_now (snd (run_matched R ns el hs st))" if "\<not> stopped st" "\<not> stopped_now st" for el hs st
    using that
  proof (induction hs arbitrary: st)
    case (Cons h hs)
    show ?case using Cons.IH [of "react (R el h) st"] Cons.IH [of st] R [of el h] Cons.prems unfolding run_matched_Cons by simp
  qed simp
  show ?thesis using st
  proof (induction q arbitrary: st)
    case (Cons x q)
    obtain el hs where x: "x = (el, hs)" by fastforce
    then show ?case using Cons.IH [of "snd (run_matched R ns el hs st)"] m [OF Cons.prems, of el hs] Cons.prems
      unfolding x run_queue_Cons by simp
  qed simp
qed

text \<open>The queue of \<open>handlers\<close> is the list of the handlers that are due.\<close>

lemma ns_test_ok:
  assumes "namespace h = join ''.'' (namespaces_of bs)" "ns = map_option (\<lambda>s. namespaces_of (Some s)) as'"
  shows "(case ns of None \<Rightarrow> True | Some names \<Rightarrow> ns_test names (namespace h)) = ns_ok ns h"
proof -
  have "split_on (CHR ''.'') (join ''.'' (namespaces_of bs)) = namespaces_of bs"
    using namespaces_of_props [of bs] by (intro split_on_join) auto
  then show ?thesis using assms ns_test_subset by (cases as') (auto simp: ns_ok_def)
qed

lemma handlers_due:
  assumes L: "\<forall>h\<in>set L. \<exists>bs. namespace h = join ''.'' (namespaces_of bs)" and ns: "ns = map_option (\<lambda>s. namespaces_of (Some s)) as'"
  shows "calls_of ns (event_handlers node sel_test this path button type (list_for type L)) =
    due node sel_test this path button type ns L"
proof -
  let ?ns = "\<lambda>h. case ns of None \<Rightarrow> True | Some names \<Rightarrow> ns_test names (namespace h)"
  let ?sel = "\<lambda>cur h. case selector h of None \<Rightarrow> sel_test ''undefined'' cur | Some s \<Rightarrow> sel_test s cur"
  have nsL: "?ns h = ns_ok ns h" if "h \<in> set L" for h using ns_test_ok [OF _ ns] L that by blast
  have dlg: "filter ?ns (filter (?sel cur) (of_type type True L)) =
      filter (\<lambda>h. ho_type h = type \<and> ns_ok ns h \<and> (case selector h of None \<Rightarrow> False | Some s \<Rightarrow> sel_test s cur)) L" for cur
    unfolding of_type_def filter_filter by (rule filter_cong) (auto simp: nsL split: option.split)
  have dir: "filter ?ns (of_type type False L) = filter (\<lambda>h. ho_type h = type \<and> ns_ok ns h \<and> selector h = None) L"
    unfolding of_type_def filter_filter by (rule filter_cong) (auto simp: nsL)
  have app: "calls_of ns (q @ q') = calls_of ns q @ calls_of ns q'" for q q' by (simp add: calls_of_def)
  have con: "calls_of ns (concat (map f xs)) = concat (map (\<lambda>x. calls_of ns (f x)) xs)" for f and xs :: "nat list"
    by (induction xs) (simp_all add: app)
  have one: "calls_of ns (let m = filter (?sel cur) (of_type type True L) in if m = [] then [] else [(cur, m)]) =
      map (Pair cur) (filter (\<lambda>h. ho_type h = type \<and> ns_ok ns h \<and> (case selector h of None \<Rightarrow> False | Some s \<Rightarrow> sel_test s cur)) L)" for cur
    unfolding dlg [symmetric] by (simp add: Let_def del: filter_filter)
  have none: "concat (map (\<lambda>cur. if P cur then map (Pair cur)
        (filter (\<lambda>h. ho_type h = type \<and> ns_ok ns h \<and> (case selector h of None \<Rightarrow> False | Some s \<Rightarrow> sel_test s cur)) L) else []) xs) = []"
    if "of_type type True L = []" for P xs
    unfolding dlg [symmetric] that by (simp add: concat_eq_Nil_conv image_iff) blast
  have rest: "(if of_type type False L \<noteq> [] then calls_of ns [(this, of_type type False L)] else []) =
      map (Pair this) (filter (\<lambda>h. ho_type h = type \<and> ns_ok ns h \<and> selector h = None) L)"
    unfolding dir [symmetric] by simp
  have cut: "take (length (of_type type True L)) (of_type type True L @ of_type type False L) = of_type type True L"
    "drop (length (of_type type True L)) (of_type type True L @ of_type type False L) = of_type type False L"
    "length (of_type type True L) < length (of_type type True L @ of_type type False L) \<longleftrightarrow> of_type type False L \<noteq> []"
    by simp_all
  have if_calls: "calls_of ns (if b then q else []) = (if b then calls_of ns q else [])" for b q by simp
  show ?thesis
  proof (cases "of_type type True L = []")
    case True
    show ?thesis
      unfolding event_handlers_def due_def list_for_def handler_list.select_convs app cut rest none [OF True] if_calls con one
      by (simp only: True list.size if_False simp_thms append_Nil calls_of_simps if_cancel)
  next
    case False
    then have "length (of_type type True L) \<noteq> 0" by simp
    then show ?thesis
      unfolding event_handlers_def due_def list_for_def handler_list.select_convs app cut rest if_calls con one
      by (simp only: simp_thms)
  qed
qed

text \<open>The entries of \<open>jQuery.event.special\<close> that map a type to another, for a browser whose events bubble.\<close>

definition special_table :: "string \<Rightarrow> special_event" where
  "special_table t = (case map_of [(''mouseenter'', ''mouseover''), (''mouseleave'', ''mouseout''),
        (''pointerenter'', ''pointerover''), (''pointerleave'', ''pointerout'')] t of
      Some fix_t \<Rightarrow> plain_special\<lparr>sp_delegateType := Some fix_t, sp_bindType := Some fix_t\<rparr>
    | None \<Rightarrow> if t = ''focus'' then plain_special\<lparr>sp_delegateType := Some ''focusin''\<rparr>
        else if t = ''blur'' then plain_special\<lparr>sp_delegateType := Some ''focusout''\<rparr>
        else plain_special)"

lemma good_special_table: "good_special special_table"
proof -
  show ?thesis
    by (auto simp: good_special_def mapped_type_def special_table_def plain_special_def good_type_def is_space_def)
qed

lemma stands_list:
  assumes "stands_for d L"
  shows "(case map_of (case ev_events d of None \<Rightarrow> [] | Some evs \<Rightarrow> evs) type of
      None \<Rightarrow> \<lparr>handler_objs = [], delegateCount = 0\<rparr> | Some hl \<Rightarrow> hl) = list_for type L"
  using stands_forD(1) [OF assms, of type] list_for_empty [of L type] by simp

text \<open>The calls of one event at one element, whatever its state: those that are due, or a first part if the event is stopped.\<close>

lemma dispatch_calls:
  assumes d: "registry_ok special d L" and ns: "ns = map_option (\<lambda>s. namespaces_of (Some s)) names" and st: "stopped_now st \<longrightarrow> stopped st"
    and r_def: "r = dispatch_on R node sel_test this path button type ns d st"
    and expected_def: "expected = due node sel_test this path button type ns L"
  shows "prefix (fst r) expected" "fst r = expected \<or> stopped (snd r)" "stopped_now (snd r) \<longrightarrow> stopped (snd r)"
    "(\<And>el h. \<not> stops (R el h) \<and> \<not> stops_now (R el h) \<and> \<not> returns_false (R el h)) \<Longrightarrow> \<not> stopped st \<Longrightarrow>
       fst r = expected \<and> \<not> stopped (snd r)"
proof -
  let ?q = "event_handlers node sel_test this path button type (list_for type L)"
  have L: "\<forall>h\<in>set L. \<exists>bs. namespace h = join ''.'' (namespaces_of bs)" using d by (simp add: registry_ok_def)
  have r: "r = run_queue R ns ?q st"
    using stands_list [of d L type] d by (simp add: r_def dispatch_on_def registry_ok_def)
  have e: "expected = calls_of ns ?q" unfolding expected_def by (rule handlers_due [OF L ns, symmetric])
  show "prefix (fst r) expected" "fst r = expected \<or> stopped (snd r)" "stopped_now (snd r) \<longrightarrow> stopped (snd r)"
    unfolding r e using run_queue_prefix [OF st] by blast+
  show "fst r = expected \<and> \<not> stopped (snd r)"
    if "\<And>el h. \<not> stops (R el h) \<and> \<not> stops_now (R el h) \<and> \<not> returns_false (R el h)" "\<not> stopped st"
  proof -
    have "\<not> stopped_now st" using st that(2) by blast
    then show ?thesis unfolding r e using run_queue_all [where R = R and ns = ns and q = ?q, OF that] by blast
  qed
qed

lemma events_calls:
  assumes "good_special special" "\<forall>op\<in>set ops. ev_ok op"
  shows "\<exists>d. ev_run (Suc (Suc n)) special ops = Some d
    \<and> (let ns = map_option (\<lambda>s. namespaces_of (Some s)) names;
         made = fst (dispatch R node sel_test this path button type ns d);
         expected = due node sel_test this path button type ns (ev_handlers special ops) in
       prefix made expected
       \<and> ((\<forall>el h. \<not> stops (R el h) \<and> \<not> stops_now (R el h) \<and> \<not> returns_false (R el h)) \<longrightarrow> made = expected))"
proof -
  obtain d where d: "ev_run (Suc (Suc n)) special ops = Some d" "registry_ok special d (ev_handlers special ops)"
    using ev_run_stands [OF assms] by blast
  have st: "stopped_now new_event \<longrightarrow> stopped new_event" "\<not> stopped new_event" by (simp_all add: new_event_def)
  note c = dispatch_calls [where names = names and R = R and node = node and sel_test = sel_test and this = this and path = path
      and button = button and type = type, OF d(2) refl st(1) refl refl]
  show ?thesis using d(1) c(1) c(4) st(2) unfolding Let_def dispatch_def by (intro exI [of _ d]) blast
qed



text \<open>A word that ends with its only dot has no type for \<open>off\<close>, and so has every word made of it: \<open>off\<close> never returns.\<close>

lemma off_trailing_dot:
  assumes "ev_events d = Some (kv # evs)" "good_type (fst kv)" "CHR ''.'' \<notin> set u" "\<forall>c\<in>set u. \<not> is_space c"
  shows "event_remove n special mt [u @ ''.''] guid sel d = None"
  using assms(3,4)
proof (induction n arbitrary: u mt)
  case (Suc n)
  let ?u = "fst kv @ u"
  have u: "CHR ''.'' \<notin> set ?u" "\<forall>c\<in>set ?u. \<not> is_space c" using Suc.prems assms(2) unfolding good_type_def set_append by blast+
  have tn: "type_namespace (u @ ''.'') = None"
    using Suc.prems(1) takeWhile_append2 [of u "\<lambda>c. c \<noteq> CHR ''.''" "''.''"] dropWhile_append2 [of u "\<lambda>c. c \<noteq> CHR ''.''" "''.''"]
    unfolding type_namespace_def Let_def by fastforce
  have "\<forall>c\<in>set (?u @ ''.''). \<not> is_space c" using u(2) unfolding set_append by (auto simp: is_space_def)
  then have tw: "type_words (fst kv @ u @ ''.'') = [?u @ ''.'']" using type_words_word [of "?u @ ''.''"] unfolding append_assoc by blast
  have bad: "foldl (\<lambda>r x. Option.bind r (f x)) None xs = None" for f :: "string \<Rightarrow> elem_events \<Rightarrow> elem_events option" and xs
    by (induction xs) simp_all
  show ?case using Suc.IH [OF u, of True] assms(1) tn tw bad by simp
qed simp

end
