(* ===== verification/JQuery_Trigger.thy ===== *)
theory JQuery_Trigger
  imports JQuery_Events
begin

text \<open>
  \<open>jQuery.event.trigger\<close>: an event that a script triggers runs along a path from its target to the window.
  Shown: at every node of the path it calls the handlers that are due there, then the \<open>on\<close> handler
  of the node, until a handler stops it.

  The nodes, their \<open>on\<close> handlers and the hooks \<open>trigger\<close> and \<open>noBubble\<close> of special events are data of the
  environment. The default action that follows is a call of a method of the browser and is left out.
\<close>

section \<open>Triggering\<close>

record trigger_env =
  te_special :: "string \<Rightarrow> special_event"
  te_hook :: "string \<Rightarrow> bool"
  te_noBubble :: "string \<Rightarrow> bool"
  te_node :: "nat \<Rightarrow> ev_node"
  te_ancestors :: "nat \<Rightarrow> nat list"
  te_document :: nat
  te_window :: nat
  te_events :: "nat \<Rightarrow> elem_events"
  te_inline :: "nat \<Rightarrow> string \<Rightarrow> bool option"
  te_accept :: "nat \<Rightarrow> bool"
  te_triggered :: "string option"

text \<open>The type and the sorted namespaces of an event; without a name there is no test of namespaces.\<close>

definition trigger_type :: "string \<Rightarrow> string \<times> string list" where
  "trigger_type word = (if CHR ''.'' \<in> set word
     then (hd (split_on (CHR ''.'') word), sort (tl (split_on (CHR ''.'') word))) else (word, []))"

definition trigger_ns :: "string list \<Rightarrow> string list option" where
  "trigger_ns names = (if join ''.'' names = [] then None else Some names)"

definition focus_morph :: "string \<Rightarrow> bool" where
  "focus_morph s \<longleftrightarrow> s = ''focusinfocus'' \<or> s = ''focusoutblur''"

text \<open>
  The nodes of \<open>eventPath\<close> with the type the event has there: the first one with \<open>bindType\<close>, the others with
  \<open>delegateType\<close>. A focus event visits its target a second time.
\<close>

definition bubble_nodes :: "trigger_env \<Rightarrow> nat \<Rightarrow> string \<Rightarrow> string \<Rightarrow> nat list" where
  "bubble_nodes env el0 type bubbleType =
     (let up = (if focus_morph (bubbleType @ type) then el0 # te_ancestors env el0 else te_ancestors env el0);
          tmp = (if up = [] then el0 else last up) in
      up @ (if tmp = te_document env then [te_window env] else []))"

definition eventPath :: "trigger_env \<Rightarrow> bool \<Rightarrow> nat \<Rightarrow> string \<Rightarrow> (nat \<times> string) list" where
  "eventPath env onlyHandlers el0 type =
     (let bubbleType = mapped_type (te_special env) (Some ''*'') type in
      (el0, mapped_type (te_special env) None type)
      # (if \<not> onlyHandlers \<and> \<not> te_noBubble env type \<and> el0 \<noteq> te_window env
         then map (\<lambda>cur. (cur, bubbleType)) (bubble_nodes env el0 type bubbleType) else []))"

text \<open>The call of \<open>elemData.handle\<close>, if the node has handlers of the type.\<close>

definition call_handle :: "trigger_env \<Rightarrow> (nat \<Rightarrow> handle_obj \<Rightarrow> reaction) \<Rightarrow> (nat \<Rightarrow> string \<Rightarrow> nat \<Rightarrow> bool) \<Rightarrow> nat list \<Rightarrow> string list option \<Rightarrow>
    nat \<Rightarrow> string \<Rightarrow> event_state \<Rightarrow> (nat \<times> handle_obj) list \<times> event_state" where
  "call_handle env R sel_test target_path ns cur t st =
     (let d = te_events env cur in
      if map_of (case ev_events d of None \<Rightarrow> [] | Some evs \<Rightarrow> evs) t \<noteq> None \<and> ev_handle d \<and> te_triggered env \<noteq> Some t
      then dispatch_on R (te_node env) (sel_test cur) cur target_path False t ns d st else ([], st))"

text \<open>A handler that is called is given with its node, an \<open>on\<close> handler as \<open>None\<close>.\<close>

type_synonym called = "nat \<times> handle_obj option"

definition inline_at :: "trigger_env \<Rightarrow> string \<Rightarrow> nat \<Rightarrow> bool option" where
  "inline_at env type cur = (if CHR '':'' \<notin> set type \<and> te_accept env cur then te_inline env cur (''on'' @ type) else None)"

fun fire :: "trigger_env \<Rightarrow> (nat \<Rightarrow> handle_obj \<Rightarrow> reaction) \<Rightarrow> (nat \<Rightarrow> string \<Rightarrow> nat \<Rightarrow> bool) \<Rightarrow> nat list \<Rightarrow> string list option \<Rightarrow> string \<Rightarrow>
    (nat \<times> string) list \<Rightarrow> event_state \<Rightarrow> called list \<times> event_state" where
  "fire env R sel_test target_path ns type [] st = ([], st)"
| "fire env R sel_test target_path ns type ((cur, t) # q) st =
     (if stopped st then ([], st)
      else (case call_handle env R sel_test target_path ns cur t st of (made, st1) \<Rightarrow>
        (let st2 = (if inline_at env type cur = Some True then st1\<lparr>prevented := True\<rparr> else st1) in
         case fire env R sel_test target_path ns type q st2 of (made', st3) \<Rightarrow>
           (map (\<lambda>(el, h). (el, Some h)) made @ (if inline_at env type cur \<noteq> None then [(cur, None)] else []) @ made', st3))))"

definition trigger :: "trigger_env \<Rightarrow> (nat \<Rightarrow> handle_obj \<Rightarrow> reaction) \<Rightarrow> (nat \<Rightarrow> string \<Rightarrow> nat \<Rightarrow> bool) \<Rightarrow> string \<Rightarrow> nat \<Rightarrow> bool \<Rightarrow>
    called list \<times> event_state" where
  "trigger env R sel_test word el0 onlyHandlers =
     (if nd_type (te_node env el0) = 3 \<or> nd_type (te_node env el0) = 8 then ([], new_event)
      else if (case te_triggered env of None \<Rightarrow> False | Some t \<Rightarrow> focus_morph (word @ t)) then ([], new_event)
      else (case trigger_type word of (type, names) \<Rightarrow>
        if \<not> onlyHandlers \<and> te_hook env type then ([], new_event)
        else fire env R sel_test (el0 # te_ancestors env el0) (trigger_ns names) type (eventPath env onlyHandlers el0 type) new_event))"

section \<open>The main handler\<close>

text \<open>An element with event data has the main handler.\<close>

definition handle_ok :: "elem_events \<Rightarrow> bool" where
  "handle_ok d \<longleftrightarrow> (ev_events d \<noteq> None \<longrightarrow> ev_handle d)"

lemma foldl_bind_keeps:
  assumes "\<And>w d d'. I d \<Longrightarrow> f w d = Some d' \<Longrightarrow> I d'"
  shows "foldl (\<lambda>r w. Option.bind r (f w)) r ws = Some d' \<Longrightarrow> (\<And>d. r = Some d \<Longrightarrow> I d) \<Longrightarrow> I d'"
proof (induction ws arbitrary: r)
  case (Cons w ws)
  have "I d" if "Option.bind r (f w) = Some d" for d using assms that Cons.prems(2) by (cases r) auto
  then show ?case using Cons.IH Cons.prems(1) by simp
qed simp

lemma add_type_handle: "ev_handle (add_type special handler guid sel w d) = ev_handle d"
  by (simp add: add_type_def Let_def split: option.split)

lemma event_add_handle: "handle_ok (event_add special types handler guid sel d)"
proof -
  have "ev_handle (foldl (\<lambda>d w. add_type special handler guid sel w d) d' ws) = ev_handle d'" for d' ws
    by (induction ws arbitrary: d') (simp_all add: add_type_handle)
  then show ?thesis by (simp add: handle_ok_def event_add_def)
qed

lemma remove_type_handle: "handle_ok d \<Longrightarrow> handle_ok (remove_type special mt t ns guid sel d)"
  by (cases "ev_events d") (auto simp: handle_ok_def remove_type_def Let_def split: option.split)

lemma event_remove_handle: "event_remove n special mt ws guid sel d = Some d' \<Longrightarrow> handle_ok d \<Longrightarrow> handle_ok d'"
proof (induction n arbitrary: mt ws d d')
  case (Suc n)
  have clear: "handle_ok d \<Longrightarrow> handle_ok (clear_events d)" for d by (auto simp: handle_ok_def clear_events_def)
  let ?word = "\<lambda>word d. case (case type_namespace word of None \<Rightarrow> ([], None) | Some tn \<Rightarrow> tn) of (origT, ns) \<Rightarrow>
      if origT \<noteq> [] then Some (remove_type special mt origT ns guid sel d)
      else foldl (\<lambda>r type. Option.bind r (\<lambda>d. event_remove n special True (type_words (type @ word)) guid sel d))
        (Some d) (map fst (case ev_events d of None \<Rightarrow> [] | Some evs \<Rightarrow> evs))"
  have word: "handle_ok d2" if "handle_ok d1" "?word w d1 = Some d2" for w d1 d2
  proof -
    obtain t ns where tn: "(case type_namespace w of None \<Rightarrow> ([], None) | Some tn \<Rightarrow> tn) = (t, ns)" by fastforce
    show ?thesis
    proof (cases "t = []")
      case True
      then have "foldl (\<lambda>r type. Option.bind r (\<lambda>d. event_remove n special True (type_words (type @ w)) guid sel d))
          (Some d1) (map fst (case ev_events d1 of None \<Rightarrow> [] | Some evs \<Rightarrow> evs)) = Some d2" using that(2) unfolding tn by simp
      then show ?thesis by (rule foldl_bind_keeps [rotated]) (use Suc.IH that(1) in auto)
    next
      case False
      then show ?thesis using that(2) remove_type_handle [OF that(1), of special mt t ns guid sel] unfolding tn by simp
    qed
  qed
  show ?case
  proof (cases "ev_events d")
    case (Some evs)
    then obtain d1 where d1: "foldl (\<lambda>r w. Option.bind r (?word w)) (Some d) (rev ws) = Some d1" "d' = clear_events d1"
      using Suc.prems(1) by auto
    have "handle_ok d1" by (rule foldl_bind_keeps [OF word d1(1)]) (use Suc.prems(2) in simp_all)
    then show ?thesis using d1(2) clear by simp
  qed (use Suc.prems in simp)
qed simp

lemma ev_run_handle: "ev_run n special ops = Some d \<Longrightarrow> handle_ok d"
proof -
  assume run: "ev_run n special ops = Some d"
  have "handle_ok d2" if "handle_ok d1" "ev_do n special op d1 = Some d2" for op d1 d2
    using that event_add_handle event_remove_handle by (cases op) auto
  then show ?thesis using run unfolding ev_run_def
    by (rule foldl_bind_keeps) (simp_all add: handle_ok_def no_events_def)
qed

section \<open>The namespaces of a triggered event\<close>

lemma join_nonempty: "s \<noteq> [] \<Longrightarrow> join ''.'' (namespaces_of (Some s)) \<noteq> []"
proof -
  assume s: "s \<noteq> []"
  show ?thesis
  proof (cases "CHR ''.'' \<in> set s")
    case False
    then have "namespaces_of (Some s) = [s]" using split_on_none [of "CHR ''.''" s] by (simp add: namespaces_of_def)
    then show ?thesis using s by simp
  next
    case True
    then obtain a b where "s = a @ CHR ''.'' # b" "CHR ''.'' \<notin> set a" by (meson split_list_first)
    then have "split_on (CHR ''.'') s = a # split_on (CHR ''.'') b" by (simp add: split_on_append)
    then have "length (namespaces_of (Some s)) \<ge> 2" using split_on_nonempty [of "CHR ''.''" b]
      by (cases "split_on (CHR ''.'') b") (simp_all add: namespaces_of_def)
    then obtain x y zs where "namespaces_of (Some s) = x # y # zs" by (metis Suc_le_length_iff numeral_2_eq_2)
    then show ?thesis by simp
  qed
qed

lemma trigger_names:
  "\<exists>names. trigger_ns (snd (trigger_type word)) = map_option (\<lambda>s. namespaces_of (Some s)) names"
proof (cases "CHR ''.'' \<in> set word")
  case True
  then obtain a b where ab: "word = a @ CHR ''.'' # b" "CHR ''.'' \<notin> set a" by (meson split_list_first)
  then have n: "snd (trigger_type word) = namespaces_of (Some b)" by (simp add: trigger_type_def split_on_append namespaces_of_def)
  show ?thesis
  proof (cases "b = []")
    case True
    then show ?thesis unfolding n by (intro exI [of _ None]) (simp add: trigger_ns_def namespaces_of_def)
  next
    case False
    then show ?thesis unfolding n using join_nonempty by (intro exI [of _ "Some b"]) (simp add: trigger_ns_def)
  qed
qed (intro exI [of _ None], simp add: trigger_type_def trigger_ns_def)

section \<open>What is called\<close>

text \<open>The handlers that are due along a path, by the lists \<open>L\<close> of the handlers of the nodes.\<close>

definition due_at :: "trigger_env \<Rightarrow> (nat \<Rightarrow> handle_obj list) \<Rightarrow> (nat \<Rightarrow> string \<Rightarrow> nat \<Rightarrow> bool) \<Rightarrow> nat list \<Rightarrow> string list option \<Rightarrow> nat \<Rightarrow> string \<Rightarrow>
    (nat \<times> handle_obj) list" where
  "due_at env L sel_test target_path ns cur t =
     (if te_triggered env = Some t then [] else due (te_node env) (sel_test cur) cur target_path False t ns (L cur))"

definition due_along :: "trigger_env \<Rightarrow> (nat \<Rightarrow> handle_obj list) \<Rightarrow> (nat \<Rightarrow> string \<Rightarrow> nat \<Rightarrow> bool) \<Rightarrow> nat list \<Rightarrow> string list option \<Rightarrow> string \<Rightarrow>
    (nat \<times> string) list \<Rightarrow> called list" where
  "due_along env L sel_test target_path ns type q = concat (map (\<lambda>(cur, t).
     map (\<lambda>(el, h). (el, Some h)) (due_at env L sel_test target_path ns cur t)
     @ (if inline_at env type cur \<noteq> None then [(cur, None)] else [])) q)"

definition trigger_due :: "trigger_env \<Rightarrow> (nat \<Rightarrow> handle_obj list) \<Rightarrow> (nat \<Rightarrow> string \<Rightarrow> nat \<Rightarrow> bool) \<Rightarrow> string \<Rightarrow> nat \<Rightarrow> bool \<Rightarrow> called list" where
  "trigger_due env L sel_test word el0 onlyHandlers = (case trigger_type word of (type, names) \<Rightarrow>
     if nd_type (te_node env el0) \<in> {3, 8} \<or> (case te_triggered env of None \<Rightarrow> False | Some t \<Rightarrow> focus_morph (word @ t)) \<or> \<not> onlyHandlers \<and> te_hook env type then []
     else due_along env L sel_test (el0 # te_ancestors env el0) (trigger_ns names) type (eventPath env onlyHandlers el0 type))"

lemma no_list_due:
  assumes "stands_for d L" "map_of (case ev_events d of None \<Rightarrow> [] | Some evs \<Rightarrow> evs) t = None"
  shows "due node sel_test this path button t ns L = []"
proof -
  have "\<forall>h\<in>set L. ho_type h \<noteq> t" using stands_forD(1) [OF assms(1), of t] assms(2) by (auto split: if_splits)
  then have "filter (\<lambda>h. ho_type h = t \<and> Q h) L = []" for Q by (auto simp: filter_empty_conv)
  then show ?thesis by (auto simp: due_def)
qed

lemma call_handle_calls:
  assumes d: "registry_ok (te_special env) (te_events env cur) (L cur)" "handle_ok (te_events env cur)"
    and ns: "ns = map_option (\<lambda>s. namespaces_of (Some s)) names" and st: "stopped_now st \<longrightarrow> stopped st"
    and r: "r = call_handle env R sel_test target_path ns cur t st" and e: "expected = due_at env L sel_test target_path ns cur t"
  shows "prefix (fst r) expected" "fst r = expected \<or> stopped (snd r)" "stopped_now (snd r) \<longrightarrow> stopped (snd r)"
    "(\<And>el h. \<not> stops (R el h) \<and> \<not> stops_now (R el h) \<and> \<not> returns_false (R el h)) \<Longrightarrow> \<not> stopped st \<Longrightarrow>
       fst r = expected \<and> \<not> stopped (snd r)"
proof -
  let ?m = "map_of (case ev_events (te_events env cur) of None \<Rightarrow> [] | Some evs \<Rightarrow> evs) t"
  have "prefix (fst r) expected \<and> (fst r = expected \<or> stopped (snd r)) \<and> (stopped_now (snd r) \<longrightarrow> stopped (snd r))
      \<and> ((\<forall>el h. \<not> stops (R el h) \<and> \<not> stops_now (R el h) \<and> \<not> returns_false (R el h)) \<longrightarrow> \<not> stopped st \<longrightarrow>
         fst r = expected \<and> \<not> stopped (snd r))"
  proof (cases "?m \<noteq> None \<and> te_triggered env \<noteq> Some t")
    case True
    then have "ev_handle (te_events env cur)" using d(2) by (cases "ev_events (te_events env cur)") (auto simp: handle_ok_def)
    then have r': "r = dispatch_on R (te_node env) (sel_test cur) cur target_path False t ns (te_events env cur) st"
      using True r by (simp add: call_handle_def Let_def)
    have e': "expected = due (te_node env) (sel_test cur) cur target_path False t ns (L cur)" using True e by (simp add: due_at_def)
    note c = dispatch_calls [OF d(1) ns st r' e']
    show ?thesis using c(1-3) c(4) by blast
  next
    case False
    then have "expected = []" using e no_list_due [of "te_events env cur" "L cur" t] d(1) by (auto simp: due_at_def registry_ok_def)
    moreover have "r = ([], st)" using False r by (auto simp: call_handle_def Let_def)
    ultimately show ?thesis using st by simp
  qed
  then show "prefix (fst r) expected" "fst r = expected \<or> stopped (snd r)" "stopped_now (snd r) \<longrightarrow> stopped (snd r)"
    "(\<And>el h. \<not> stops (R el h) \<and> \<not> stops_now (R el h) \<and> \<not> returns_false (R el h)) \<Longrightarrow> \<not> stopped st \<Longrightarrow>
       fst r = expected \<and> \<not> stopped (snd r)" by blast+
qed

text \<open>
  The loop of \<open>trigger\<close>: all calls of the nodes before the last one that is reached, and there a first part of the
  handlers that are due and the \<open>on\<close> handler, which a stopped event calls as well.
\<close>

definition stops_on :: "trigger_env \<Rightarrow> (nat \<Rightarrow> handle_obj list) \<Rightarrow> (nat \<Rightarrow> string \<Rightarrow> nat \<Rightarrow> bool) \<Rightarrow> nat list \<Rightarrow> string list option \<Rightarrow> string \<Rightarrow>
    (nat \<times> string) list \<Rightarrow> called list \<Rightarrow> bool" where
  "stops_on env L sel_test target_path ns type q made \<longleftrightarrow> (\<exists>q1 cur t q2 part.
     q = q1 @ (cur, t) # q2 \<and> prefix part (due_at env L sel_test target_path ns cur t)
     \<and> made = due_along env L sel_test target_path ns type q1 @ map (\<lambda>(el, h). (el, Some h)) part
         @ (if inline_at env type cur \<noteq> None then [(cur, None)] else []))"

lemma due_along_Cons:
  "due_along env L sel_test tp ns type ((cur, t) # q) = map (\<lambda>(el, h). (el, Some h)) (due_at env L sel_test tp ns cur t)
     @ (if inline_at env type cur \<noteq> None then [(cur, None)] else []) @ due_along env L sel_test tp ns type q"
  by (simp add: due_along_def)

lemma stops_on_Cons:
  assumes "stops_on env L sel_test tp ns type q made"
  shows "stops_on env L sel_test tp ns type ((cur, t) # q) (map (\<lambda>(el, h). (el, Some h)) (due_at env L sel_test tp ns cur t)
     @ (if inline_at env type cur \<noteq> None then [(cur, None)] else []) @ made)"
proof -
  obtain q1 c u q2 part where q: "q = q1 @ (c, u) # q2" "prefix part (due_at env L sel_test tp ns c u)"
    "made = due_along env L sel_test tp ns type q1 @ map (\<lambda>(el, h). (el, Some h)) part @ (if inline_at env type c \<noteq> None then [(c, None)] else [])"
    using assms unfolding stops_on_def by blast
  show ?thesis unfolding stops_on_def
    by (intro exI [of _ "(cur, t) # q1"] exI [of _ c] exI [of _ u] exI [of _ q2] exI [of _ part]) (simp add: q due_along_Cons)
qed

lemma fire_Cons:
  "fire env R sel_test tp ns type ((cur, t) # q) st =
     (if stopped st then ([], st)
      else let r = call_handle env R sel_test tp ns cur t st;
          st2 = (if inline_at env type cur = Some True then (snd r)\<lparr>prevented := True\<rparr> else snd r);
          f = fire env R sel_test tp ns type q st2 in
        (map (\<lambda>(el, h). (el, Some h)) (fst r) @ (if inline_at env type cur \<noteq> None then [(cur, None)] else []) @ fst f, snd f))"
  by (simp add: case_prod_beta Let_def)

lemma fire_calls:
  assumes d: "\<And>cur. registry_ok (te_special env) (te_events env cur) (L cur)" "\<And>cur. handle_ok (te_events env cur)"
    and ns: "ns = map_option (\<lambda>s. namespaces_of (Some s)) names"
  shows "\<not> stopped st \<Longrightarrow> stopped_now st \<longrightarrow> stopped st \<Longrightarrow>
    (q \<noteq> [] \<longrightarrow> stops_on env L sel_test tp ns type q (fst (fire env R sel_test tp ns type q st)))
    \<and> ((\<forall>el h. \<not> stops (R el h) \<and> \<not> stops_now (R el h) \<and> \<not> returns_false (R el h)) \<longrightarrow>
       fst (fire env R sel_test tp ns type q st) = due_along env L sel_test tp ns type q)"
proof (induction q arbitrary: st)
  case (Cons x q)
  obtain cur t where x: "x = (cur, t)" by fastforce
  let ?r = "call_handle env R sel_test tp ns cur t st" and ?inl = "if inline_at env type cur \<noteq> None then [(cur, None)] else []"
  let ?st2 = "if inline_at env type cur = Some True then (snd ?r)\<lparr>prevented := True\<rparr> else snd ?r"
  let ?f = "fire env R sel_test tp ns type q ?st2"
  note c = call_handle_calls [where env = env and cur = cur and L = L and R = R and sel_test = sel_test and target_path = tp and t = t,
      OF d(1,2) ns Cons.prems(2) refl refl]
  have run: "fst (fire env R sel_test tp ns type (x # q) st) = map (\<lambda>(el, h). (el, Some h)) (fst ?r) @ ?inl @ fst ?f"
    unfolding x fire_Cons using Cons.prems(1) by (simp add: Let_def)
  have st2: "stopped ?st2 = stopped (snd ?r)" "stopped_now ?st2 = stopped_now (snd ?r)" by simp_all
  have here: "stops_on env L sel_test tp ns type (x # q) (map (\<lambda>(el, h). (el, Some h)) (fst ?r) @ ?inl)"
    unfolding stops_on_def by (intro exI [of _ "[]"] exI [of _ cur] exI [of _ t] exI [of _ q] exI [of _ "fst ?r"]) (use c(1) in \<open>simp add: x due_along_def\<close>)
  have stopsx: "stops_on env L sel_test tp ns type (x # q) (fst (fire env R sel_test tp ns type (x # q) st))"
  proof (cases "stopped (snd ?r) \<or> q = []")
    case True
    then have "fst ?f = []" using st2(1) by (cases q) (auto simp: fire_Cons simp del: fire.simps(2))
    then show ?thesis using here unfolding run by simp
  next
    case False
    then have full: "fst ?r = due_at env L sel_test tp ns cur t" using c(2) by blast
    have "stops_on env L sel_test tp ns type q (fst ?f)" using Cons.IH [of ?st2] False c(3) st2 by auto
    from stops_on_Cons [OF this, of cur t] show ?thesis unfolding run unfolding full x .
  qed
  moreover have "fst (fire env R sel_test tp ns type (x # q) st) = due_along env L sel_test tp ns type (x # q)"
    if R: "\<forall>el h. \<not> stops (R el h) \<and> \<not> stops_now (R el h) \<and> \<not> returns_false (R el h)"
  proof -
    have full: "fst ?r = due_at env L sel_test tp ns cur t \<and> \<not> stopped (snd ?r)" using c(4) R Cons.prems(1) by blast
    then have "fst ?f = due_along env L sel_test tp ns type q" using Cons.IH [of ?st2] st2 c(3) R by auto
    then show ?thesis unfolding run unfolding x due_along_Cons using full by simp
  qed
  ultimately show ?case by blast
qed (simp add: due_along_def)


definition click_ops :: "nat \<Rightarrow> event_op list" where
  "click_ops cur = (if cur = 5 then [On ''click.a'' 1 10 None, On ''click'' 2 11 None]
     else if cur = 4 then [On ''click.b.a'' 3 12 (Some ''li''), On ''click.a'' 4 13 None, Off ''click'' (Some 13) None] else [])"

definition click_env :: trigger_env where
  "click_env = \<lparr>te_special = special_table, te_hook = (\<lambda>t. False), te_noBubble = (\<lambda>t. t = ''load''),
     te_node = (\<lambda>n. \<lparr>nd_type = (if n = 0 then 9 else 1), nd_disabled = False\<rparr>), te_ancestors = (\<lambda>n. if n = 5 then [4, 0] else if n = 4 then [0] else []),
     te_document = 0, te_window = 9, te_events = (\<lambda>cur. the (ev_run 2 special_table (click_ops cur))),
     te_inline = (\<lambda>n t. if n = 4 \<and> t = ''onclick'' then Some True else None), te_accept = (\<lambda>n. True), te_triggered = None\<rparr>"


end
