(* ===== verification/JQuery_Selectors.thy ===== *)
theory JQuery_Selectors
  imports Doctools
begin

text \<open>
  The selector engine of jquery.js (Sizzle): the matcher that a list of tokens is compiled to
  (\<open>matcherFromTokens\<close>, \<open>addCombinator\<close>, \<open>elementMatcher\<close>) and the loop that runs it over elements
  (\<open>matcherFromGroupMatchers\<close>). While it walks to ancestors or to preceding siblings the engine stores what
  it finds on the nodes, in arrays that the nodes of one walk share. Shown: with this store the engine
  selects the elements that the selector describes.

  A node is its number in the order of the document, so parents and preceding siblings have smaller
  numbers. Tokens hold the strings of their match with escapes replaced. Filters for
  children and pseudo-classes are a parameter; positional pseudo-classes, which select by the place in a
  result and make the compiler return a matcher for sets, are not among the tokens.
\<close>

section \<open>The document\<close>

datatype direction = ParentNode | PreviousSibling

record sel_dom =
  sd_parent :: "nat \<Rightarrow> nat option"
  sd_previous :: "nat \<Rightarrow> nat option"
  sd_type :: "nat \<Rightarrow> nat"
  sd_name :: "nat \<Rightarrow> string"
  sd_attr :: "nat \<Rightarrow> string \<Rightarrow> string option"
  sd_document :: nat

definition elem_dir :: "sel_dom \<Rightarrow> direction \<Rightarrow> nat \<Rightarrow> nat option" where
  "elem_dir D d e = (case d of ParentNode \<Rightarrow> sd_parent D e | PreviousSibling \<Rightarrow> sd_previous D e)"

text \<open>The nodes that \<open>while ( (elem = elem[ dir ]) )\<close> goes through.\<close>

function walk :: "sel_dom \<Rightarrow> direction \<Rightarrow> nat \<Rightarrow> nat list" where
  "walk D d e = (case elem_dir D d e of None \<Rightarrow> [] | Some p \<Rightarrow> if p < e then p # walk D d p else [])"
  by pat_completeness auto
termination by (relation "measure (\<lambda>(D, d, e). e)") auto

declare walk.simps [simp del]

section \<open>Tokens and filters\<close>

datatype token_filter = ID string | TAG string | CLASS string | ATTR string string string | OTHER nat

record relative =
  rel_dir :: direction
  rel_first :: bool

datatype sel_token = Rel relative | Flt token_filter

definition relative_of :: "char \<Rightarrow> relative option" where
  "relative_of c = map_of [(CHR ''>'', \<lparr>rel_dir = ParentNode, rel_first = True\<rparr>), (CHR '' '', \<lparr>rel_dir = ParentNode, rel_first = False\<rparr>),
     (CHR ''+'', \<lparr>rel_dir = PreviousSibling, rel_first = True\<rparr>), (CHR ''~'', \<lparr>rel_dir = PreviousSibling, rel_first = False\<rparr>)] c"

definition sel_space :: "char \<Rightarrow> bool" where
  "sel_space c \<longleftrightarrow> c \<in> {CHR '' '', CHR 0x09, CHR 0x0D, CHR 0x0A, CHR 0x0C}"

text \<open>The pattern of \<open>CLASS\<close>: the name after the start or a blank, and before a blank or the end.\<close>

fun class_at :: "bool \<Rightarrow> string \<Rightarrow> string \<Rightarrow> bool" where
  "class_at start name [] = (start \<and> name = [])"
| "class_at start name (c # cs) = (start \<and> take (length name) (c # cs) = name
      \<and> (case drop (length name) (c # cs) of [] \<Rightarrow> True | b # bs \<Rightarrow> sel_space b) \<or> class_at (sel_space c) name cs)"

text \<open>\<open>result.replace( rwhitespace, " " )\<close>; the flag says that the character before was a blank.\<close>

fun squeeze :: "bool \<Rightarrow> string \<Rightarrow> string" where
  "squeeze blank [] = []"
| "squeeze blank (c # cs) = (if sel_space c then (if blank then squeeze True cs else CHR '' '' # squeeze True cs) else c # squeeze False cs)"

definition attr_test :: "string \<Rightarrow> string \<Rightarrow> string option \<Rightarrow> bool" where
  "attr_test operator check result = (case result of
      None \<Rightarrow> operator = ''!=''
    | Some r \<Rightarrow>
        if operator = [] then True
        else if operator = ''='' then r = check
        else if operator = ''!='' then r \<noteq> check
        else if operator = ''^='' then check \<noteq> [] \<and> indexOf_str r check = 0
        else if operator = ''*='' then check \<noteq> [] \<and> indexOf_str r check > -1
        else if operator = ''$='' then check \<noteq> [] \<and> drop (length r - length check) r = check
        else if operator = ''~='' then indexOf_str ('' '' @ squeeze False r @ '' '') check > -1
        else if operator = ''|='' then r = check \<or> take (length check + 1) r = check @ ''-''
        else False)"

definition filter_test :: "sel_dom \<Rightarrow> (nat \<Rightarrow> nat \<Rightarrow> bool) \<Rightarrow> token_filter \<Rightarrow> nat \<Rightarrow> bool" where
  "filter_test D other f e = (case f of
      ID i \<Rightarrow> sd_attr D e ''id'' = Some i
    | TAG n \<Rightarrow> n = ''*'' \<or> sd_name D e \<noteq> [] \<and> toLowerCase (sd_name D e) = toLowerCase n
    | CLASS n \<Rightarrow> class_at True n (case sd_attr D e ''class'' of None \<Rightarrow> [] | Some c \<Rightarrow> c)
    | ATTR n operator check \<Rightarrow> attr_test operator check (sd_attr D e n)
    | OTHER i \<Rightarrow> other i e)"

section \<open>Compiling\<close>

text \<open>
  The functions that the compiler builds: the check of the context (whether the selector begins with a
  combinator, which one, and the \<open>doneName\<close>s of its two walks), a filter, a combinator with its \<open>doneName\<close>, and
  all of several.
\<close>

datatype matcher =
    MContext bool relative nat nat
  | MFilter token_filter
  | MComb relative nat matcher
  | MEach "matcher list"

definition elementMatcher :: "matcher list \<Rightarrow> matcher" where
  "elementMatcher ms = (case ms of [m] \<Rightarrow> m | _ \<Rightarrow> MEach ms)"

fun add_tokens :: "sel_token list \<Rightarrow> matcher list \<Rightarrow> nat \<Rightarrow> matcher list \<times> nat" where
  "add_tokens [] ms n = (ms, n)"
| "add_tokens (Rel r # ts) ms n = add_tokens ts [MComb r n (elementMatcher ms)] (n + 1)"
| "add_tokens (Flt f # ts) ms n = add_tokens ts (ms @ [MFilter f]) n"

text \<open>\<open>done\<close> is the counter of the engine; an empty list of tokens is an error.\<close>

definition matcherFromTokens :: "sel_token list \<Rightarrow> nat \<Rightarrow> (matcher \<times> nat) option" where
  "matcherFromTokens toks done_n = (case toks of
      [] \<Rightarrow> None
    | t # ts \<Rightarrow> (let leading = (case t of Rel r \<Rightarrow> True | Flt f \<Rightarrow> False);
          implicit = (case t of Rel r \<Rightarrow> r | Flt f \<Rightarrow> \<lparr>rel_dir = ParentNode, rel_first = False\<rparr>);
          (ms, n) = add_tokens (if leading then ts else toks) [MContext leading implicit done_n (done_n + 1)] (done_n + 2) in
        Some (elementMatcher ms, n)))"

text \<open>\<open>compile\<close>: the groups are compiled from the last to the first.\<close>

fun compile_groups :: "sel_token list list \<Rightarrow> nat \<Rightarrow> (matcher list \<times> nat) option" where
  "compile_groups [] n = Some ([], n)"
| "compile_groups (g # gs) n = (case matcherFromTokens g n of
      None \<Rightarrow> None
    | Some (m, n1) \<Rightarrow> (case compile_groups gs n1 of None \<Rightarrow> None | Some (ms, n2) \<Rightarrow> Some (m # ms, n2)))"

definition compile_sel :: "sel_token list list \<Rightarrow> nat \<Rightarrow> (matcher list \<times> nat) option" where
  "compile_sel groups n = compile_groups (rev groups) n"

section \<open>Running\<close>

text \<open>
  The arrays \<open>[ dirruns, doneName, result ]\<close> by their addresses, and what \<open>elem[ expando ][ dir ]\<close> refers to.
\<close>

record dir_cell =
  dc_runs :: nat
  dc_done :: nat
  dc_res :: "bool option"

record engine =
  dirruns :: nat
  cells :: "nat \<Rightarrow> dir_cell"
  next_cell :: nat
  dir_cache :: "nat \<times> direction \<Rightarrow> nat option"

datatype sel_context = CNode nat | CNodes "nat list"

record sel_env =
  se_dom :: sel_dom
  se_other :: "nat \<Rightarrow> nat \<Rightarrow> bool"
  se_context :: sel_context
  se_xml :: bool
  se_outermost :: "sel_context option"

type_synonym run_matcher = "nat \<Rightarrow> engine \<Rightarrow> bool \<times> engine"

definition checked :: "sel_dom \<Rightarrow> relative \<Rightarrow> bool \<Rightarrow> nat \<Rightarrow> bool" where
  "checked D r base e \<longleftrightarrow> sd_type D e = 1 \<or> base \<and> rel_dir r = ParentNode"

fun first_loop :: "(nat \<Rightarrow> bool) \<Rightarrow> run_matcher \<Rightarrow> nat list \<Rightarrow> engine \<Rightarrow> bool \<times> engine" where
  "first_loop ok f [] st = (False, st)"
| "first_loop ok f (e # es) st = (if ok e then f e st else first_loop ok f es st)"

fun xml_loop :: "(nat \<Rightarrow> bool) \<Rightarrow> run_matcher \<Rightarrow> nat list \<Rightarrow> engine \<Rightarrow> bool \<times> engine" where
  "xml_loop ok f [] st = (False, st)"
| "xml_loop ok f (e # es) st = (if ok e
     then (case f e st of (b, st1) \<Rightarrow> if b then (True, st1) else xml_loop ok f es st1)
     else xml_loop ok f es st)"

definition set_res :: "nat \<Rightarrow> bool option \<Rightarrow> engine \<Rightarrow> engine" where
  "set_res a v st = st\<lparr>cells := (cells st)(a := (cells st a)\<lparr>dc_res := v\<rparr>)\<rparr>"

fun dir_loop :: "(nat \<Rightarrow> bool) \<Rightarrow> direction \<Rightarrow> nat \<Rightarrow> nat \<Rightarrow> run_matcher \<Rightarrow> nat list \<Rightarrow> engine \<Rightarrow> bool \<times> engine" where
  "dir_loop ok d dn a f [] st = (False, st)"
| "dir_loop ok d dn a f (e # es) st = (if ok e
     then (case dir_cache st (e, d) of
         Some b \<Rightarrow> if dc_runs (cells st b) = dirruns st \<and> dc_done (cells st b) = dn
           then (dc_res (cells st b) = Some True, set_res a (dc_res (cells st b)) st)
           else (case f e (st\<lparr>dir_cache := (dir_cache st)((e, d) := Some a)\<rparr>) of (v, st1) \<Rightarrow>
             if v then (True, set_res a (Some v) st1) else dir_loop ok d dn a f es (set_res a (Some v) st1))
       | None \<Rightarrow> (case f e (st\<lparr>dir_cache := (dir_cache st)((e, d) := Some a)\<rparr>) of (v, st1) \<Rightarrow>
             if v then (True, set_res a (Some v) st1) else dir_loop ok d dn a f es (set_res a (Some v) st1)))
     else dir_loop ok d dn a f es st)"

definition new_cell :: "nat \<Rightarrow> engine \<Rightarrow> engine" where
  "new_cell dn st = st\<lparr>cells := (cells st)(next_cell st := \<lparr>dc_runs = dirruns st, dc_done = dn, dc_res = None\<rparr>),
     next_cell := next_cell st + 1\<rparr>"

definition addCombinator :: "sel_env \<Rightarrow> relative \<Rightarrow> bool \<Rightarrow> nat \<Rightarrow> run_matcher \<Rightarrow> run_matcher" where
  "addCombinator env r base dn f e st =
     (let ok = checked (se_dom env) r base; es = walk (se_dom env) (rel_dir r) e in
      if rel_first r then first_loop ok f es st
      else if se_xml env then xml_loop ok f es (new_cell dn st)
      else dir_loop ok (rel_dir r) dn (next_cell st) f es (new_cell dn st))"

definition is_context :: "sel_context \<Rightarrow> nat \<Rightarrow> bool" where
  "is_context ctx e = (case ctx of CNode c \<Rightarrow> e = c | CNodes cs \<Rightarrow> e \<in> set cs)"

fun run_m :: "sel_env \<Rightarrow> matcher \<Rightarrow> nat \<Rightarrow> engine \<Rightarrow> bool \<times> engine"
  and run_ms :: "sel_env \<Rightarrow> matcher list \<Rightarrow> nat \<Rightarrow> engine \<Rightarrow> bool \<times> engine" where
  "run_m env (MContext leading r dn dn') e st =
     (if \<not> leading \<and> (se_xml env \<or> Some (se_context env) \<noteq> se_outermost env) then (True, st)
      else addCombinator env r True (case se_context env of CNode c \<Rightarrow> dn | CNodes cs \<Rightarrow> dn')
        (\<lambda>x st. (is_context (se_context env) x, st)) e st)"
| "run_m env (MFilter f) e st = (filter_test (se_dom env) (se_other env) f e, st)"
| "run_m env (MComb r dn m) e st = addCombinator env r False dn (\<lambda>x st. run_m env m x st) e st"
| "run_m env (MEach ms) e st = run_ms env ms e st"
| "run_ms env [] e st = (True, st)"
| "run_ms env (m # ms) e st = (case run_ms env ms e st of (b, st1) \<Rightarrow> if b then run_m env m e st1 else (False, st1))"

fun any_matcher :: "sel_env \<Rightarrow> matcher list \<Rightarrow> nat \<Rightarrow> engine \<Rightarrow> bool \<times> engine" where
  "any_matcher env [] e st = (False, st)"
| "any_matcher env (m # ms) e st = (case run_m env m e st of (b, st1) \<Rightarrow> if b then (True, st1) else any_matcher env ms e st1)"

fun match_loop :: "sel_env \<Rightarrow> matcher list \<Rightarrow> nat list \<Rightarrow> engine \<Rightarrow> nat list \<times> engine" where
  "match_loop env ms [] st = ([], st)"
| "match_loop env ms (e # es) st = (case any_matcher env ms e st of (b, st1) \<Rightarrow>
     (case match_loop env ms es (st1\<lparr>dirruns := dirruns st\<rparr>) of (rs, st2) \<Rightarrow> ((if b then e # rs else rs), st2)))"

text \<open>The outermost call of the function that \<open>matcherFromGroupMatchers\<close> returns, without matchers for sets.\<close>

definition superMatcher :: "sel_dom \<Rightarrow> (nat \<Rightarrow> nat \<Rightarrow> bool) \<Rightarrow> matcher list \<Rightarrow> nat list \<Rightarrow> sel_context \<Rightarrow> bool \<Rightarrow> engine \<Rightarrow> nat list \<times> engine" where
  "superMatcher D other ms es ctx xml st =
     match_loop \<lparr>se_dom = D, se_other = other, se_context = ctx, se_xml = xml,
         se_outermost = (if ctx \<noteq> CNode (sd_document D) then Some ctx else None)\<rparr> ms es
       (st\<lparr>dirruns := dirruns st + 1\<rparr>)"

section \<open>What matchers mean\<close>

definition reach :: "sel_dom \<Rightarrow> relative \<Rightarrow> bool \<Rightarrow> (nat \<Rightarrow> bool) \<Rightarrow> nat \<Rightarrow> bool" where
  "reach D r base P e = (let xs = filter (checked D r base) (walk D (rel_dir r) e) in
     if rel_first r then xs \<noteq> [] \<and> P (hd xs) else list_ex P xs)"

fun sem_m :: "sel_env \<Rightarrow> matcher \<Rightarrow> nat \<Rightarrow> bool" where
  "sem_m env (MContext leading r dn dn') e = (\<not> leading \<and> (se_xml env \<or> Some (se_context env) \<noteq> se_outermost env)
     \<or> reach (se_dom env) r True (is_context (se_context env)) e)"
| "sem_m env (MFilter f) e = filter_test (se_dom env) (se_other env) f e"
| "sem_m env (MComb r dn m) e = reach (se_dom env) r False (\<lambda>x. sem_m env m x) e"
| "sem_m env (MEach ms) e = list_all (\<lambda>m. sem_m env m e) ms"

text \<open>
  What a stored result means: by the \<open>doneName\<close> of a walk, whether the node or one of the nodes that the
  walk goes to from there is a match.
\<close>

type_synonym cache_table = "(nat \<times> (nat \<Rightarrow> bool)) list"

definition from_here :: "sel_dom \<Rightarrow> relative \<Rightarrow> bool \<Rightarrow> (nat \<Rightarrow> bool) \<Rightarrow> nat \<Rightarrow> bool" where
  "from_here D r base P e = list_ex (\<lambda>x. checked D r base x \<and> P x) (e # walk D (rel_dir r) e)"

fun table_of :: "sel_env \<Rightarrow> matcher \<Rightarrow> cache_table" where
  "table_of env (MContext leading r dn dn') = [(case se_context env of CNode c \<Rightarrow> dn | CNodes cs \<Rightarrow> dn',
     from_here (se_dom env) r True (is_context (se_context env)))]"
| "table_of env (MFilter f) = []"
| "table_of env (MComb r dn m) = (dn, from_here (se_dom env) r False (sem_m env m)) # table_of env m"
| "table_of env (MEach ms) = concat (map (table_of env) ms)"

definition stored_ok :: "engine \<Rightarrow> nat \<times> (nat \<Rightarrow> bool) \<Rightarrow> bool" where
  "stored_ok st x \<longleftrightarrow> (\<forall>k b. dir_cache st k = Some b \<longrightarrow> dc_runs (cells st b) = dirruns st \<longrightarrow> dc_done (cells st b) = fst x
     \<longrightarrow> (dc_res (cells st b) = Some True \<longleftrightarrow> snd x (fst k)))"

abbreviation cache_ok :: "cache_table \<Rightarrow> engine \<Rightarrow> bool" where
  "cache_ok T st \<equiv> list_all (stored_ok st) T"

definition wf_engine :: "engine \<Rightarrow> bool" where
  "wf_engine st \<longleftrightarrow> (\<forall>k b. dir_cache st k = Some b \<longrightarrow> b < next_cell st) \<and> (\<forall>b<next_cell st. dc_runs (cells st b) \<le> dirruns st)"

text \<open>What a run of a matcher may change: its own walks only.\<close>

definition engine_frame :: "nat set \<Rightarrow> engine \<Rightarrow> engine \<Rightarrow> bool" where
  "engine_frame N st st' \<longleftrightarrow> dirruns st' = dirruns st \<and> next_cell st \<le> next_cell st'
     \<and> (\<forall>b<next_cell st. dc_runs (cells st' b) = dc_runs (cells st b) \<and> dc_done (cells st' b) = dc_done (cells st b)
          \<and> (dc_done (cells st b) \<notin> N \<longrightarrow> cells st' b = cells st b))
     \<and> (\<forall>k. dir_cache st' k = dir_cache st k \<or> (\<exists>b<next_cell st'. dir_cache st' k = Some b \<and> dc_done (cells st' b) \<in> N))"

lemma frame_refl [simp]: "engine_frame N st st" by (simp add: engine_frame_def)

lemma frame_mono: "engine_frame N st st' \<Longrightarrow> N \<subseteq> M \<Longrightarrow> engine_frame M st st'"
  unfolding engine_frame_def by blast

lemma frameD:
  assumes "engine_frame N st st'"
  shows "dirruns st' = dirruns st" "next_cell st \<le> next_cell st'"
    "b < next_cell st \<Longrightarrow> dc_runs (cells st' b) = dc_runs (cells st b)"
    "b < next_cell st \<Longrightarrow> dc_done (cells st' b) = dc_done (cells st b)"
    "b < next_cell st \<Longrightarrow> dc_done (cells st b) \<notin> N \<Longrightarrow> cells st' b = cells st b"
    "dir_cache st' k = dir_cache st k \<or> (\<exists>b<next_cell st'. dir_cache st' k = Some b \<and> dc_done (cells st' b) \<in> N)"
  using assms unfolding engine_frame_def by blast+

lemma frame_trans:
  assumes A: "engine_frame N s1 s2" and B: "engine_frame N s2 s3"
  shows "engine_frame N s1 s3"
proof -
  have "dir_cache s3 k = dir_cache s1 k \<or> (\<exists>b<next_cell s3. dir_cache s3 k = Some b \<and> dc_done (cells s3 b) \<in> N)" for k
  proof (cases "dir_cache s3 k = dir_cache s2 k \<and> dir_cache s2 k \<noteq> dir_cache s1 k")
    case True
    then obtain b where b: "b < next_cell s2" "dir_cache s2 k = Some b" "dc_done (cells s2 b) \<in> N" using frameD(6) [OF A, of k] by auto
    then show ?thesis using True frameD(2,4) [OF B] by (intro disjI2 exI [of _ b]) auto
  next
    case False
    then show ?thesis using frameD(6) [OF B, of k] by auto
  qed
  moreover have "dc_runs (cells s3 b) = dc_runs (cells s1 b) \<and> dc_done (cells s3 b) = dc_done (cells s1 b)
      \<and> (dc_done (cells s1 b) \<notin> N \<longrightarrow> cells s3 b = cells s1 b)" if "b < next_cell s1" for b
    using that frameD(3-5) [OF A, of b] frameD(3-5) [OF B, of b] frameD(2) [OF A] by auto
  ultimately show ?thesis using frameD(1,2) [OF A] frameD(1,2) [OF B] unfolding engine_frame_def by simp
qed

lemma wf_engineD:
  "dir_cache st k = Some b \<Longrightarrow> wf_engine st \<Longrightarrow> b < next_cell st"
  "b < next_cell st \<Longrightarrow> wf_engine st \<Longrightarrow> dc_runs (cells st b) \<le> dirruns st"
  unfolding wf_engine_def by blast+

lemma cache_ok_frame:
  assumes f: "engine_frame N st st'" and wf: "wf_engine st" and T: "fst ` set T \<inter> N = {}" "cache_ok T st"
  shows "cache_ok T st'"
proof -
  have "stored_ok st' x" if x: "x \<in> set T" for x
    unfolding stored_ok_def
  proof (intro allI impI)
    fix k b assume b: "dir_cache st' k = Some b" "dc_runs (cells st' b) = dirruns st'" "dc_done (cells st' b) = fst x"
    have dn: "fst x \<notin> N" using x T(1) by blast
    then have old: "dir_cache st k = Some b" using frameD(6) [OF f, of k] b by auto
    then have "b < next_cell st" using wf by (rule wf_engineD(1))
    then have "cells st' b = cells st b" using frameD(4,5) [OF f, of b] dn b(3) by simp
    then show "(dc_res (cells st' b) = Some True) = snd x (fst k)"
      using T(2) x old b frameD(1) [OF f] unfolding list_all_iff stored_ok_def by metis
  qed
  then show ?thesis by (simp add: list_all_iff)
qed

section \<open>The walks\<close>

text \<open>A part of the engine that decides \<open>P\<close>, with its table.\<close>

definition decides :: "cache_table \<Rightarrow> run_matcher \<Rightarrow> (nat \<Rightarrow> bool) \<Rightarrow> bool" where
  "decides T f P \<longleftrightarrow> (\<forall>e st. wf_engine st \<and> cache_ok T st \<longrightarrow>
     fst (f e st) = P e \<and> wf_engine (snd (f e st)) \<and> cache_ok T (snd (f e st)) \<and> engine_frame (fst ` set T) st (snd (f e st)))"

lemma decidesD:
  assumes "decides T f P" "wf_engine st" "cache_ok T st" "f e st = (b, st')"
  shows "b = P e" "wf_engine st'" "cache_ok T st'" "engine_frame (fst ` set T) st st'"
  using assms unfolding decides_def by (metis fst_conv snd_conv)+

lemma first_loop_decides:
  assumes "decides T f P" "wf_engine st" "cache_ok T st"
  shows "fst (first_loop ok f es st) = (filter ok es \<noteq> [] \<and> P (hd (filter ok es)))"
    "wf_engine (snd (first_loop ok f es st))" "cache_ok T (snd (first_loop ok f es st))"
    "engine_frame (fst ` set T) st (snd (first_loop ok f es st))"
  using assms by (induction es) (auto simp: decides_def)

lemma xml_loop_decides:
  assumes "decides T f P" "wf_engine st" "cache_ok T st"
  shows "fst (xml_loop ok f es st) = list_ex P (filter ok es)
    \<and> wf_engine (snd (xml_loop ok f es st)) \<and> cache_ok T (snd (xml_loop ok f es st))
    \<and> engine_frame (fst ` set T) st (snd (xml_loop ok f es st))"
  using assms(2,3)
proof (induction es arbitrary: st)
  case (Cons e es)
  obtain b st1 where r: "f e st = (b, st1)" by fastforce
  note d = decidesD [OF assms(1) Cons.prems r]
  show ?case using d r Cons.IH [OF d(2,3)] Cons.IH [OF Cons.prems] by (auto intro: frame_trans)
qed simp

text \<open>
  The loop with the store: \<open>es\<close> is what is left of the walk and \<open>a\<close> the array of this walk, which the nodes
  visited so far refer to; for all of them the answer depends on the rest of the walk.
\<close>

definition chained :: "sel_dom \<Rightarrow> direction \<Rightarrow> nat list \<Rightarrow> bool" where
  "chained D d es \<longleftrightarrow> (\<forall>i<length es. walk D d (es ! i) = drop (Suc i) es)"

lemma chained_Cons [simp]: "chained D d (e # es) \<longleftrightarrow> walk D d e = es \<and> chained D d es"
  unfolding chained_def by (auto simp: All_less_Suc2)

lemma chained_Nil [simp]: "chained D d []" by (simp add: chained_def)

lemma chained_walk: "chained D d (walk D d e)"
proof (induction D d e rule: walk.induct)
  case (1 D d e)
  then show ?case by (subst walk.simps) (auto split: option.split)
qed

definition pending :: "nat \<Rightarrow> nat \<Rightarrow> (nat \<Rightarrow> bool) \<Rightarrow> bool \<Rightarrow> engine \<Rightarrow> bool" where
  "pending a dn R left st \<longleftrightarrow> a < next_cell st \<and> dc_done (cells st a) = dn \<and> dc_runs (cells st a) = dirruns st \<and> dc_res (cells st a) \<noteq> Some True
     \<and> (\<forall>k b. dir_cache st k = Some b \<longrightarrow> dc_runs (cells st b) = dirruns st \<longrightarrow> dc_done (cells st b) = dn \<longrightarrow>
          (if b = a then R (fst k) = left else (dc_res (cells st b) = Some True \<longleftrightarrow> R (fst k))))"

lemma pendingD:
  assumes "pending a dn R left st"
  shows "a < next_cell st" "dc_done (cells st a) = dn" "dc_runs (cells st a) = dirruns st" "dc_res (cells st a) \<noteq> Some True"
    "dir_cache st k = Some a \<Longrightarrow> R (fst k) = left"
    "dir_cache st k = Some b \<Longrightarrow> dc_runs (cells st b) = dirruns st \<Longrightarrow> dc_done (cells st b) = dn \<Longrightarrow> b \<noteq> a \<Longrightarrow>
       dc_res (cells st b) = Some True \<longleftrightarrow> R (fst k)"
  using assms unfolding pending_def by (blast, blast, blast, blast) (metis assms pending_def)+

lemma set_res_simps [simp]:
  "dirruns (set_res a v st) = dirruns st" "next_cell (set_res a v st) = next_cell st" "dir_cache (set_res a v st) = dir_cache st"
  "dc_runs (cells (set_res a v st) b) = dc_runs (cells st b)" "dc_done (cells (set_res a v st) b) = dc_done (cells st b)"
  "dc_res (cells (set_res a v st) b) = (if b = a then v else dc_res (cells st b))"
  by (simp_all add: set_res_def)

lemma set_res_wf [simp]: "wf_engine (set_res a v st) = wf_engine st"
  by (simp add: wf_engine_def)

lemma set_res_frame: "dc_done (cells st a) \<in> N \<Longrightarrow> engine_frame N st (set_res a v st)"
  by (auto simp: engine_frame_def set_res_def)

text \<open>The walk ends with the answer \<open>left\<close> in its array: what it left on the nodes is right.\<close>

lemma pending_done:
  assumes p: "pending a dn R left st" and v: "(v = Some True) = left"
  shows "stored_ok (set_res a v st) (dn, R)"
  unfolding stored_ok_def
proof (intro allI impI)
  fix k b assume b: "dir_cache (set_res a v st) k = Some b" "dc_runs (cells (set_res a v st) b) = dirruns (set_res a v st)"
    "dc_done (cells (set_res a v st) b) = fst (dn, R)"
  show "(dc_res (cells (set_res a v st) b) = Some True) = snd (dn, R) (fst k)"
    using pendingD(5) [OF p, of k] pendingD(6) [OF p, of k b] b v by (cases "b = a") auto
qed

lemma pending_visit:
  assumes p: "pending a dn R left st" and e: "R e = left"
  shows "pending a dn R left (st\<lparr>dir_cache := (dir_cache st)((e, d) := Some a)\<rparr>)"
  unfolding pending_def
proof (intro conjI allI impI)
  fix k b assume b: "dir_cache (st\<lparr>dir_cache := (dir_cache st)((e, d) := Some a)\<rparr>) k = Some b"
    "dc_runs (cells (st\<lparr>dir_cache := (dir_cache st)((e, d) := Some a)\<rparr>) b) = dirruns (st\<lparr>dir_cache := (dir_cache st)((e, d) := Some a)\<rparr>)"
    "dc_done (cells (st\<lparr>dir_cache := (dir_cache st)((e, d) := Some a)\<rparr>) b) = dn"
  show "if b = a then R (fst k) = left
      else (dc_res (cells (st\<lparr>dir_cache := (dir_cache st)((e, d) := Some a)\<rparr>) b) = Some True) = R (fst k)"
    using b e pendingD(5) [OF p, of k] pendingD(6) [OF p, of k b] by (cases "k = (e, d)") (auto split: if_splits)
qed (use pendingD(1-4) [OF p] in simp_all)

lemma pending_frame:
  assumes p: "pending a dn R left st" and f: "engine_frame N st st'" and wf: "wf_engine st" and dn: "dn \<notin> N"
  shows "pending a dn R left st'"
proof -
  have a: "cells st' a = cells st a" using pendingD(1,2) [OF p] frameD(5) [OF f] dn by blast
  show ?thesis unfolding pending_def
  proof (intro conjI allI impI)
    fix k b assume b: "dir_cache st' k = Some b" "dc_runs (cells st' b) = dirruns st'" "dc_done (cells st' b) = dn"
    have old: "dir_cache st k = Some b" using frameD(6) [OF f, of k] b dn by auto
    then have "b < next_cell st" using wf by (rule wf_engineD(1))
    then have "cells st' b = cells st b" using frameD(4,5) [OF f, of b] dn b(3) by simp
    then show "if b = a then R (fst k) = left else (dc_res (cells st' b) = Some True) = R (fst k)"
      using pendingD(5) [OF p, of k] pendingD(6) [OF p, of k b] old b frameD(1) [OF f] by simp
  qed (use a pendingD(1-4) [OF p] frameD(1,2) [OF f] in simp_all)
qed

lemma pending_fail:
  assumes p: "pending a dn R left st"
  shows "pending a dn R left (set_res a (Some False) st)"
  unfolding pending_def
proof (intro conjI allI impI)
  fix k b assume b: "dir_cache (set_res a (Some False) st) k = Some b" "dc_runs (cells (set_res a (Some False) st) b) = dirruns (set_res a (Some False) st)"
    "dc_done (cells (set_res a (Some False) st) b) = dn"
  show "if b = a then R (fst k) = left else (dc_res (cells (set_res a (Some False) st) b) = Some True) = R (fst k)"
    using b pendingD(5) [OF p, of k] pendingD(6) [OF p, of k b] by simp
qed (use pendingD(1-4) [OF p] in simp_all)

text \<open>The nodes that are left have not been visited by this walk.\<close>

definition ahead :: "nat \<Rightarrow> nat list \<Rightarrow> engine \<Rightarrow> bool" where
  "ahead a es st \<longleftrightarrow> (\<forall>k. dir_cache st k = Some a \<longrightarrow> (\<forall>x\<in>set es. x < fst k))"

lemma walk_less: "x \<in> set (walk D d e) \<Longrightarrow> x < e"
proof (induction D d e rule: walk.induct)
  case (1 D d e)
  obtain p where p: "elem_dir D d e = Some p" "p < e" "x = p \<or> x \<in> set (walk D d p)"
    using "1.prems" walk.simps [of D d e] by (cases "elem_dir D d e") (auto split: if_splits)
  then show ?case using "1.IH" [OF p(1,2)] by auto
qed

lemma ahead_visit: "ahead a (e # es) st \<Longrightarrow> walk D d e = es \<Longrightarrow> ahead a es (st\<lparr>dir_cache := (dir_cache st)((e, d) := Some a)\<rparr>)"
  using walk_less [of _ D d e] by (auto simp: ahead_def)

lemma ahead_frame:
  assumes "ahead a es st" "engine_frame N st st'" "a < next_cell st" "dc_done (cells st a) \<notin> N"
  shows "ahead a es st'"
  unfolding ahead_def
proof (intro allI impI)
  fix k assume "dir_cache st' k = Some a"
  then have "dir_cache st k = Some a" using frameD(4) [OF assms(2,3)] frameD(6) [OF assms(2), of k] assms(4) by auto
  then show "\<forall>x\<in>set es. x < fst k" using assms(1) unfolding ahead_def by blast
qed

lemma visit_frame: "a < next_cell st \<Longrightarrow> dc_done (cells st a) = dn \<Longrightarrow>
    engine_frame (insert dn N) st (st\<lparr>dir_cache := (dir_cache st)((e, d) := Some a)\<rparr>)"
  by (auto simp: engine_frame_def)

lemma visit_wf: "wf_engine st \<Longrightarrow> a < next_cell st \<Longrightarrow> wf_engine (st\<lparr>dir_cache := (dir_cache st)((e, d) := Some a)\<rparr>)"
  by (auto simp: wf_engine_def)

lemma cache_ok_set_res:
  assumes "cache_ok T st" "wf_engine st" "dc_done (cells st a) \<notin> fst ` set T"
  shows "cache_ok T (set_res a v st)"
  by (rule cache_ok_frame [OF set_res_frame [of st a "{dc_done (cells st a)}"] assms(2) _ assms(1)]) (use assms(3) in auto)

text \<open>A node that has no answer yet is given the array of the walk, and is tested.\<close>

lemma visit_step:
  assumes f: "decides T f P" and dn: "dn \<notin> fst ` set T" and st: "wf_engine st" "cache_ok T st"
    and p: "pending a dn R left st" "R e = left" and a: "ahead a (e # es) st" "walk D d e = es"
    and r: "f e (st\<lparr>dir_cache := (dir_cache st)((e, d) := Some a)\<rparr>) = (v, st1)"
  shows "v = P e" "wf_engine st1" "cache_ok T (set_res a w st1)" "pending a dn R left st1" "ahead a es st1"
    "engine_frame (insert dn (fst ` set T)) st (set_res a w st1)"
proof -
  let ?st = "st\<lparr>dir_cache := (dir_cache st)((e, d) := Some a)\<rparr>" and ?N = "fst ` set T"
  have wf: "wf_engine ?st" by (rule visit_wf [OF st(1) pendingD(1) [OF p(1)]])
  have fr0: "engine_frame {dn} st ?st" by (rule visit_frame [OF pendingD(1,2) [OF p(1)]])
  have c: "cache_ok T ?st" by (rule cache_ok_frame [OF fr0 st(1) _ st(2)]) (use dn in auto)
  note d = decidesD [OF f wf c r]
  show p1: "pending a dn R left st1" by (rule pending_frame [OF pending_visit [OF p] d(4) wf dn])
  show "ahead a es st1"
    by (rule ahead_frame [OF ahead_visit [OF a] d(4)]) (use pendingD(1,2) [OF p(1)] dn in simp_all)
  show "v = P e" "wf_engine st1" by (fact d)+
  show "cache_ok T (set_res a w st1)" using d(2,3) pendingD(2) [OF p1] dn by (intro cache_ok_set_res) auto
  have "engine_frame (insert dn ?N) st ?st" using fr0 by (rule frame_mono) simp
  moreover have "engine_frame (insert dn ?N) ?st st1" using d(4) by (rule frame_mono) blast
  moreover have "engine_frame (insert dn ?N) st1 (set_res a w st1)" using pendingD(2) [OF p1] by (intro set_res_frame) simp
  ultimately show "engine_frame (insert dn ?N) st (set_res a w st1)" by (blast intro: frame_trans)
qed

lemma dir_loop_decides:
  assumes f: "decides T f P" and dn: "dn \<notin> fst ` set T" and R: "R = (\<lambda>e. list_ex (\<lambda>x. ok x \<and> P x) (e # walk D d e))"
    and st: "wf_engine st" "cache_ok T st" "chained D d es" "pending a dn R (list_ex (\<lambda>x. ok x \<and> P x) es) st" "ahead a es st"
  shows "fst (dir_loop ok d dn a f es st) = list_ex (\<lambda>x. ok x \<and> P x) es \<and> wf_engine (snd (dir_loop ok d dn a f es st))
    \<and> cache_ok ((dn, R) # T) (snd (dir_loop ok d dn a f es st))
    \<and> engine_frame (insert dn (fst ` set T)) st (snd (dir_loop ok d dn a f es st))"
  using st
proof (induction es arbitrary: st)
  case Nil
  have "set_res a (dc_res (cells st a)) st = st" by (simp add: set_res_def)
  then show ?case using pending_done [OF Nil(4), of "dc_res (cells st a)"] pendingD(4) [OF Nil(4)] Nil by simp
next
  case (Cons e es)
  let ?left = "list_ex (\<lambda>x. ok x \<and> P x)"
  note p = Cons.prems(4)
  have ch: "walk D d e = es" "chained D d es" using Cons.prems(3) by simp_all
  have Re: "R e = ?left (e # es)" using ch(1) R by simp
  consider "\<not> ok e"
    | b where "ok e" "dir_cache st (e, d) = Some b" "dc_runs (cells st b) = dirruns st" "dc_done (cells st b) = dn"
    | "ok e" "\<not> (\<exists>b. dir_cache st (e, d) = Some b \<and> dc_runs (cells st b) = dirruns st \<and> dc_done (cells st b) = dn)" by blast
  then show ?case
  proof cases
    case 1
    then show ?thesis using Cons.IH [OF Cons.prems(1,2) ch(2)] p Cons.prems(5) by (simp add: ahead_def)
  next
    case (2 b)
    have "b \<noteq> a" using Cons.prems(5) 2(2) by (auto simp: ahead_def)
    then have v: "(dc_res (cells st b) = Some True) = ?left (e # es)" using pendingD(6) [OF p 2(2-4)] Re by simp
    have "dir_loop ok d dn a f (e # es) st = (dc_res (cells st b) = Some True, set_res a (dc_res (cells st b)) st)" using 2 by simp
    then show ?thesis using v pending_done [OF p v] cache_ok_set_res [OF Cons.prems(2,1), of a "dc_res (cells st b)"] Cons.prems(1)
        set_res_frame [of st a "insert dn (fst ` set T)"] pendingD(2) [OF p] dn by simp
  next
    case 3
    obtain v st1 where r: "f e (st\<lparr>dir_cache := (dir_cache st)((e, d) := Some a)\<rparr>) = (v, st1)" by fastforce
    note s = visit_step [OF f dn Cons.prems(1,2) p Re Cons.prems(5) ch(1) r]
    have run: "dir_loop ok d dn a f (e # es) st =
        (if v then (True, set_res a (Some True) st1) else dir_loop ok d dn a f es (set_res a (Some False) st1))"
      using 3 r by (auto split: option.split)
    show ?thesis
    proof (cases v)
      case True
      then have "?left (e # es)" using s(1) 3(1) by simp
      then show ?thesis using run True s(2,3,6) pending_done [OF s(4), of "Some True"] by simp
    next
      case False
      then have l: "?left (e # es) = ?left es" using s(1) by simp
      let ?st = "set_res a (Some False) st1"
      have "wf_engine ?st" "ahead a es ?st" "pending a dn R (?left es) ?st" using s(2,5) pending_fail [OF s(4)] l by (simp_all add: ahead_def)
      from Cons.IH [OF this(1) s(3) ch(2) this(3,2)] show ?thesis using run False l frame_trans [OF s(6)] by auto
    qed
  qed
qed

section \<open>Combinators and matchers\<close>

lemma new_cell_simps [simp]:
  "dirruns (new_cell dn st) = dirruns st" "next_cell (new_cell dn st) = Suc (next_cell st)" "dir_cache (new_cell dn st) = dir_cache st"
  "cells (new_cell dn st) = (cells st)(next_cell st := \<lparr>dc_runs = dirruns st, dc_done = dn, dc_res = None\<rparr>)"
  by (simp_all add: new_cell_def)

lemma new_cell_wf: "wf_engine st \<Longrightarrow> wf_engine (new_cell dn st)"
  by (auto simp: wf_engine_def less_Suc_eq dest!: spec)

lemma new_cell_frame: "engine_frame N st (new_cell dn st)"
  by (auto simp: engine_frame_def)

lemma new_cell_pending:
  assumes "wf_engine st" "stored_ok st (dn, R)"
  shows "pending (next_cell st) dn R left (new_cell dn st)" "ahead (next_cell st) es (new_cell dn st)"
proof -
  have old: "dir_cache st k = Some b \<Longrightarrow> b \<noteq> next_cell st" for k b using wf_engineD(1) [of st k b] assms(1) by auto
  then show "ahead (next_cell st) es (new_cell dn st)" by (auto simp: ahead_def)
  show "pending (next_cell st) dn R left (new_cell dn st)" unfolding pending_def
    using old assms(2) by (auto simp: stored_ok_def)
qed

lemma addCombinator_decides:
  assumes f: "decides T f P" and dn: "dn \<notin> fst ` set T"
  shows "decides ((dn, from_here (se_dom env) r base P) # T) (addCombinator env r base dn f) (reach (se_dom env) r base P)"
  unfolding decides_def
proof (intro allI impI, elim conjE)
  fix e st
  let ?D = "se_dom env" and ?d = "rel_dir r"
  let ?R = "from_here ?D r base P" and ?ok = "checked ?D r base" and ?es = "walk ?D ?d e" and ?run = "addCombinator env r base dn f e st"
  let ?goal = "fst ?run = reach ?D r base P e \<and> wf_engine (snd ?run) \<and> cache_ok ((dn, ?R) # T) (snd ?run)
    \<and> engine_frame (fst ` set ((dn, ?R) # T)) st (snd ?run)"
  assume wf: "wf_engine st" and c: "cache_ok ((dn, ?R) # T) st"
  have other: "cache_ok ((dn, ?R) # T) st' \<and> engine_frame (insert dn (fst ` set T)) st st'"
    if "cache_ok T st'" "engine_frame (fst ` set T) st st'" for st'
    using cache_ok_frame [OF that(2) wf, of "[(dn, ?R)]"] frame_mono [OF that(2), of "insert dn (fst ` set T)"] c dn that(1) by auto
  have new: "wf_engine (new_cell dn st)" "cache_ok T (new_cell dn st)"
    using new_cell_wf [OF wf] cache_ok_frame [OF new_cell_frame [of "{}"] wf, of T] c by simp_all
  consider "rel_first r" | "\<not> rel_first r" "se_xml env" | "\<not> rel_first r" "\<not> se_xml env" by blast
  then show ?goal
  proof cases
    case 1
    then show ?thesis using first_loop_decides [OF f wf, of ?ok ?es] c other by (simp add: addCombinator_def reach_def Let_def)
  next
    case 2
    note x = xml_loop_decides [OF f new, of ?ok ?es]
    then have "engine_frame (fst ` set T) st (snd (xml_loop ?ok f ?es (new_cell dn st)))" by (blast intro: frame_trans [OF new_cell_frame])
    then show ?thesis using 2 x other by (simp add: addCombinator_def reach_def Let_def)
  next
    case 3
    have R: "?R = (\<lambda>e. list_ex (\<lambda>x. ?ok x \<and> P x) (e # walk ?D ?d e))" by (rule ext) (simp add: from_here_def)
    have ex: "list_ex P (filter ?ok ?es) = list_ex (\<lambda>x. ?ok x \<and> P x) ?es" by (auto simp: list_ex_iff)
    have "stored_ok st (dn, ?R)" using c by simp
    note n = new_cell_pending [OF wf this]
    note l = dir_loop_decides [OF f dn R new chained_walk n, of e]
    then have "engine_frame (insert dn (fst ` set T)) st (snd (dir_loop ?ok ?d dn (next_cell st) f ?es (new_cell dn st)))"
      by (blast intro: frame_trans [OF new_cell_frame])
    then show ?thesis using 3 l ex by (simp add: addCombinator_def reach_def Let_def)
  qed
qed

lemma decides_test: "decides [] (\<lambda>x st. (P x, st)) P" by (simp add: decides_def)

lemma decides_more:
  assumes f: "decides T f P" and T': "fst ` set T' \<inter> fst ` set T = {}" and st: "wf_engine st" "cache_ok (T @ T') st"
    and r: "f e st = (b, st')"
  shows "b = P e" "wf_engine st'" "cache_ok (T @ T') st'" "engine_frame (fst ` set (T @ T')) st st'"
proof -
  have "cache_ok T st" "cache_ok T' st" using st(2) by simp_all
  note d = decidesD [OF f st(1) this(1) r]
  show "b = P e" "wf_engine st'" by (fact d)+
  show "cache_ok (T @ T') st'" using d(3) cache_ok_frame [OF d(4) st(1) T'] \<open>cache_ok T' st\<close> by simp
  show "engine_frame (fst ` set (T @ T')) st st'" using d(4) by (rule frame_mono) auto
qed

lemma run_ms_decides:
  assumes "\<And>m. m \<in> set ms \<Longrightarrow> decides (table_of env m) (run_m env m) (sem_m env m)" "distinct (map fst (concat (map (table_of env) ms)))"
  shows "decides (concat (map (table_of env) ms)) (run_ms env ms) (\<lambda>e. list_all (\<lambda>m. sem_m env m e) ms)"
  using assms
proof (induction ms)
  case Nil
  show ?case by (simp add: decides_def)
next
  case (Cons m ms)
  let ?T = "table_of env m" and ?T' = "concat (map (table_of env) ms)"
  have dis: "fst ` set ?T \<inter> fst ` set ?T' = {}" "fst ` set ?T' \<inter> fst ` set ?T = {}" "distinct (map fst ?T')" using Cons.prems(2) by auto
  have m: "decides ?T (run_m env m) (sem_m env m)" and ms: "decides ?T' (run_ms env ms) (\<lambda>e. list_all (\<lambda>m. sem_m env m e) ms)"
    using Cons.prems(1) Cons.IH dis(3) by simp_all
  show ?case unfolding decides_def
  proof (intro allI impI, elim conjE)
    fix e st assume wf: "wf_engine st" and c: "cache_ok (concat (map (table_of env) (m # ms))) st"
    obtain b st1 where r1: "run_ms env ms e st = (b, st1)" by fastforce
    obtain b' st2 where r2: "run_m env m e st1 = (b', st2)" by fastforce
    have c': "cache_ok (?T' @ ?T) st" using c by auto
    note d1 = decides_more [OF ms dis(1) wf c' r1]
    have c1: "cache_ok (?T @ ?T') st1" using d1(3) by auto
    note d2 = decides_more [OF m dis(2) d1(2) c1 r2]
    have N: "fst ` set (?T' @ ?T) = fst ` set (?T @ ?T')" by auto
    show "fst (run_ms env (m # ms) e st) = list_all (\<lambda>m. sem_m env m e) (m # ms) \<and> wf_engine (snd (run_ms env (m # ms) e st))
        \<and> cache_ok (concat (map (table_of env) (m # ms))) (snd (run_ms env (m # ms) e st))
        \<and> engine_frame (fst ` set (concat (map (table_of env) (m # ms)))) st (snd (run_ms env (m # ms) e st))"
      using r1 r2 d1 d2 c1 frame_trans [OF d1(4) [unfolded N] d2(4)] N by auto
  qed
qed

lemma run_m_decides: "distinct (map fst (table_of env m)) \<Longrightarrow> decides (table_of env m) (run_m env m) (sem_m env m)"
proof (induction m)
  case (MContext leading r dn dn')
  let ?n = "case se_context env of CNode c \<Rightarrow> dn | CNodes cs \<Rightarrow> dn'"
  have "decides (table_of env (MContext leading r dn dn')) (addCombinator env r True ?n (\<lambda>x st. (is_context (se_context env) x, st)))
      (reach (se_dom env) r True (is_context (se_context env)))"
    using addCombinator_decides [OF decides_test, of ?n env r True] by simp
  then show ?case by (auto simp: decides_def)
next
  case (MFilter f)
  then show ?case by (simp add: decides_def)
next
  case (MComb r dn m)
  then have "decides (table_of env m) (run_m env m) (sem_m env m)" "dn \<notin> fst ` set (table_of env m)" by auto
  from addCombinator_decides [OF this, of env r False] show ?case by (simp add: decides_def)
next
  case (MEach ms)
  have "distinct (map fst (table_of env m))" if "m \<in> set ms" for m
    using MEach.prems that by (induction ms) auto
  then have "decides (concat (map (table_of env) ms)) (run_ms env ms) (\<lambda>e. list_all (\<lambda>m. sem_m env m e) ms)"
    using MEach by (intro run_ms_decides) auto
  then show ?case by (simp add: decides_def)
qed

text \<open>The loops over groups and elements.\<close>

lemma any_matcher_decides:
  assumes "distinct (map fst (concat (map (table_of env) ms)))"
  shows "decides (concat (map (table_of env) ms)) (any_matcher env ms) (\<lambda>e. list_ex (\<lambda>m. sem_m env m e) ms)"
  using assms
proof (induction ms)
  case Nil
  show ?case by (simp add: decides_def)
next
  case (Cons m ms)
  let ?T = "table_of env m" and ?T' = "concat (map (table_of env) ms)"
  have dis: "fst ` set ?T \<inter> fst ` set ?T' = {}" "fst ` set ?T' \<inter> fst ` set ?T = {}" "distinct (map fst ?T')" "distinct (map fst ?T)"
    using Cons.prems by auto
  have ms: "decides ?T' (any_matcher env ms) (\<lambda>e. list_ex (\<lambda>m. sem_m env m e) ms)" using Cons.IH dis(3) by simp
  show ?case unfolding decides_def
  proof (intro allI impI, elim conjE)
    fix e st assume wf: "wf_engine st" and c: "cache_ok (concat (map (table_of env) (m # ms))) st"
    obtain b st1 where r1: "run_m env m e st = (b, st1)" by fastforce
    obtain b' st2 where r2: "any_matcher env ms e st1 = (b', st2)" by fastforce
    have c': "cache_ok (?T @ ?T') st" using c by auto
    note d1 = decides_more [OF run_m_decides [OF dis(4)] dis(2) wf c' r1]
    have c1: "cache_ok (?T' @ ?T) st1" using d1(3) by auto
    note d2 = decides_more [OF ms dis(1) d1(2) c1 r2]
    have N: "fst ` set (?T' @ ?T) = fst ` set (?T @ ?T')" by auto
    show "fst (any_matcher env (m # ms) e st) = list_ex (\<lambda>m. sem_m env m e) (m # ms) \<and> wf_engine (snd (any_matcher env (m # ms) e st))
        \<and> cache_ok (concat (map (table_of env) (m # ms))) (snd (any_matcher env (m # ms) e st))
        \<and> engine_frame (fst ` set (concat (map (table_of env) (m # ms)))) st (snd (any_matcher env (m # ms) e st))"
      using r1 r2 d1 d2 c1 frame_trans [OF d1(4) d2(4) [unfolded N]] N by auto
  qed
qed

lemma match_loop_selects:
  assumes "distinct (map fst (concat (map (table_of env) ms)))" "wf_engine st" "cache_ok (concat (map (table_of env) ms)) st"
  shows "fst (match_loop env ms es st) = filter (\<lambda>e. list_ex (\<lambda>m. sem_m env m e) ms) es \<and> wf_engine (snd (match_loop env ms es st))"
  using assms(2,3)
proof (induction es arbitrary: st)
  case (Cons e es)
  obtain b st1 where r: "any_matcher env ms e st = (b, st1)" by fastforce
  note d = decidesD [OF any_matcher_decides [OF assms(1)] Cons.prems r]
  have "st1\<lparr>dirruns := dirruns st\<rparr> = st1" using frameD(1) [OF d(4)] by simp
  then show ?case using Cons.IH [OF d(2,3)] r d(1) by (simp add: case_prod_beta)
qed simp

section \<open>Compiled selectors\<close>

text \<open>
  What a selector describes, read from the right: filters, and combinators that ask for a related
  element. What is left of a selector that does not begin with a combinator asks for an ancestor in the
  context, unless the context is the document or the document is not HTML.
\<close>

fun described :: "sel_env \<Rightarrow> sel_token list \<Rightarrow> nat \<Rightarrow> bool" where
  "described env [] e = (se_xml env \<or> Some (se_context env) \<noteq> se_outermost env
     \<or> reach (se_dom env) \<lparr>rel_dir = ParentNode, rel_first = False\<rparr> True (is_context (se_context env)) e)"
| "described env [Rel r] e = reach (se_dom env) r True (is_context (se_context env)) e"
| "described env (Rel r # t # ts) e = reach (se_dom env) r False (\<lambda>x. described env (t # ts) x) e"
| "described env (Flt f # ts) e = (filter_test (se_dom env) (se_other env) f e \<and> described env ts e)"

lemma sem_elementMatcher: "sem_m env (elementMatcher ms) e = list_all (\<lambda>m. sem_m env m e) ms"
  by (cases ms rule: remdups_adj.cases) (simp_all add: elementMatcher_def)

lemma add_tokens_sem:
  assumes "add_tokens ts ms n = (ms', n')" "\<And>e. list_all (\<lambda>m. sem_m env m e) ms = described env us e" "us \<noteq> [] \<or> (\<forall>r. take 1 ts \<noteq> [Rel r])"
  shows "list_all (\<lambda>m. sem_m env m e) ms' = described env (rev ts @ us) e"
  using assms
proof (induction ts ms n arbitrary: us rule: add_tokens.induct)
  case (2 r ts ms n)
  then obtain u vs where us: "us = u # vs" by (cases us) auto
  have "list_all (\<lambda>m. sem_m env m e) [MComb r n (elementMatcher ms)] = described env (Rel r # us) e" for e
  proof -
    have "(\<lambda>x. sem_m env (elementMatcher ms) x) = (\<lambda>x. described env us x)" using "2.prems"(2) by (simp add: sem_elementMatcher)
    then show ?thesis by (simp add: us)
  qed
  then show ?case using "2.IH" [of "Rel r # us"] "2.prems"(1) by simp
next
  case (3 f ts ms n)
  have "list_all (\<lambda>m. sem_m env m e) (ms @ [MFilter f]) = described env (Flt f # us) e" for e
    using "3.prems"(2) by auto
  then show ?case using "3.IH" [of "Flt f # us"] "3.prems"(1) by simp
qed simp

lemma matcherFromTokens_sem:
  assumes "matcherFromTokens g n = Some (m, n')"
  shows "sem_m env m e = described env (rev g) e"
proof -
  obtain t ts where g: "g = t # ts" using assms by (cases g) (auto simp: matcherFromTokens_def)
  show ?thesis
  proof (cases t)
    case (Rel r)
    obtain ms k where ms: "add_tokens ts [MContext True r n (n + 1)] (n + 2) = (ms, k)" by fastforce
    then have "m = elementMatcher ms" using assms g Rel by (simp add: matcherFromTokens_def Let_def)
    then show ?thesis using add_tokens_sem [OF ms, of env "[Rel r]"] g Rel by (simp add: sem_elementMatcher)
  next
    case (Flt f)
    let ?c = "\<lparr>rel_dir = ParentNode, rel_first = False\<rparr>"
    obtain ms k where ms: "add_tokens g [MContext False ?c n (n + 1)] (n + 2) = (ms, k)" by fastforce
    then have "m = elementMatcher ms" using assms g Flt by (simp add: matcherFromTokens_def Let_def)
    then show ?thesis using add_tokens_sem [OF ms, of env "[]"] g Flt by (auto simp: sem_elementMatcher)
  qed
qed

text \<open>The \<open>doneName\<close>s of compiled matchers are different.\<close>

definition names_in :: "sel_env \<Rightarrow> matcher list \<Rightarrow> nat \<Rightarrow> nat \<Rightarrow> bool" where
  "names_in env ms n n' \<longleftrightarrow> distinct (map fst (concat (map (table_of env) ms))) \<and> (\<forall>x\<in>set (concat (map (table_of env) ms)). n \<le> fst x \<and> fst x < n')"

lemma table_elementMatcher: "table_of env (elementMatcher ms) = concat (map (table_of env) ms)"
  by (cases ms rule: remdups_adj.cases) (simp_all add: elementMatcher_def)

lemma add_tokens_names:
  "add_tokens ts ms k = (ms', n') \<Longrightarrow> names_in env ms n k \<Longrightarrow> n \<le> k \<Longrightarrow> names_in env ms' n n' \<and> k \<le> n'"
proof (induction ts ms k rule: add_tokens.induct)
  case (2 r ts ms k)
  have "names_in env [MComb r k (elementMatcher ms)] n (k + 1)"
    using "2.prems"(2,3) by (force simp: names_in_def table_elementMatcher)
  then show ?case using "2.IH" "2.prems"(1,3) by simp
qed (simp_all add: names_in_def)

lemma matcherFromTokens_names:
  assumes "matcherFromTokens g n = Some (m, n')"
  shows "names_in env [m] n n'" "n \<le> n'"
proof -
  obtain ts l r ms where ms: "add_tokens ts [MContext l r n (n + 1)] (n + 2) = (ms, n')" "m = elementMatcher ms"
    using assms by (auto simp: matcherFromTokens_def Let_def split: list.splits prod.splits)
  have "names_in env [MContext l r n (n + 1)] n (n + 2)" by (simp add: names_in_def split: sel_context.split)
  from add_tokens_names [OF ms(1) this] show "names_in env [m] n n'" "n \<le> n'"
    using ms(2) by (simp_all add: names_in_def table_elementMatcher)
qed

lemma compile_groups_ok:
  fixes e :: nat
  shows "compile_groups gs n = Some (ms, n') \<Longrightarrow> names_in env ms n n' \<and> n \<le> n'
    \<and> (list_ex (\<lambda>m. sem_m env m e) ms = list_ex (\<lambda>g. described env (rev g) e) gs)"
proof (induction gs arbitrary: n ms)
  case (Cons g gs)
  obtain m n1 ms1 where m: "matcherFromTokens g n = Some (m, n1)" "compile_groups gs n1 = Some (ms1, n')" "ms = m # ms1"
    using Cons.prems by (auto split: option.splits)
  note a = matcherFromTokens_names(1) [OF m(1), of env] matcherFromTokens_names(2) [OF m(1)] and b = Cons.IH [OF m(2)]
  have "names_in env ms n n'" using a b m(3) unfolding names_in_def by (fastforce simp: disjoint_iff)
  then show ?case using a b m matcherFromTokens_sem [OF m(1), of env e] by auto
qed (simp add: names_in_def)

section \<open>Pages\<close>

text \<open>
  A page compiles selectors, keeps the compiled ones, and runs them in any order on any elements; the
  counters and what is stored on nodes stay from one run to the next.
\<close>

record sel_page =
  sp_compiled :: "(sel_token list list \<times> matcher list) list"
  sp_done :: nat
  sp_engine :: engine

definition sel_start :: "sel_page \<Rightarrow> bool" where
  "sel_start p \<longleftrightarrow> sp_compiled p = [] \<and> next_cell (sp_engine p) = 0 \<and> (\<forall>k. dir_cache (sp_engine p) k = None)"

definition sel_compile :: "sel_token list list \<Rightarrow> sel_page \<Rightarrow> sel_page" where
  "sel_compile gs p = (case compile_sel gs (sp_done p) of
      None \<Rightarrow> p | Some (ms, n) \<Rightarrow> p\<lparr>sp_compiled := (gs, ms) # sp_compiled p, sp_done := n\<rparr>)"

inductive sel_move :: "sel_dom \<Rightarrow> (nat \<Rightarrow> nat \<Rightarrow> bool) \<Rightarrow> sel_page \<Rightarrow> sel_page \<Rightarrow> bool" for D other where
  sel_compiles: "sel_move D other p (sel_compile gs p)"
| sel_selects: "(gs, ms) \<in> set (sp_compiled p) \<Longrightarrow>
    sel_move D other p (p\<lparr>sp_engine := snd (superMatcher D other ms es ctx xml (sp_engine p))\<rparr>)"

definition sel_inv :: "sel_page \<Rightarrow> bool" where
  "sel_inv p \<longleftrightarrow> wf_engine (sp_engine p) \<and> (\<forall>(gs, ms)\<in>set (sp_compiled p). \<exists>n n'. compile_sel gs n = Some (ms, n'))"

definition sel_env_of :: "sel_dom \<Rightarrow> (nat \<Rightarrow> nat \<Rightarrow> bool) \<Rightarrow> sel_context \<Rightarrow> bool \<Rightarrow> sel_env" where
  "sel_env_of D other ctx xml = \<lparr>se_dom = D, se_other = other, se_context = ctx, se_xml = xml,
     se_outermost = (if ctx \<noteq> CNode (sd_document D) then Some ctx else None)\<rparr>"

lemma superMatcher_selects:
  assumes "compile_sel gs n = Some (ms, n')" "wf_engine st"
  shows "fst (superMatcher D other ms es ctx xml st) = filter (\<lambda>e. \<exists>g\<in>set gs. described (sel_env_of D other ctx xml) (rev g) e) es"
    "wf_engine (snd (superMatcher D other ms es ctx xml st))"
proof -
  let ?env = "sel_env_of D other ctx xml" and ?st = "st\<lparr>dirruns := dirruns st + 1\<rparr>"
  have c: "compile_groups (rev gs) n = Some (ms, n')" using assms(1) by (simp add: compile_sel_def)
  have "stored_ok ?st x" for x
    unfolding stored_ok_def using wf_engineD [OF _ assms(2)] by (auto dest!: wf_engineD(1) [OF _ assms(2)] wf_engineD(2) [OF _ assms(2)])
  then have ok: "cache_ok (concat (map (table_of ?env) ms)) ?st" by (simp add: list_all_iff)
  have wf: "wf_engine ?st" using assms(2) by (auto simp: wf_engine_def le_Suc_eq)
  have d: "distinct (map fst (concat (map (table_of ?env) ms)))" using compile_groups_ok [OF c, of ?env] by (simp add: names_in_def)
  have "(\<lambda>e. list_ex (\<lambda>m. sem_m ?env m e) ms) = (\<lambda>e. \<exists>g\<in>set gs. described ?env (rev g) e)"
    using compile_groups_ok [OF c, of ?env] by (auto simp: list_ex_iff)
  then show "fst (superMatcher D other ms es ctx xml st) = filter (\<lambda>e. \<exists>g\<in>set gs. described (sel_env_of D other ctx xml) (rev g) e) es"
    "wf_engine (snd (superMatcher D other ms es ctx xml st))"
    using match_loop_selects [OF d wf ok, of es] by (simp_all add: superMatcher_def sel_env_of_def)
qed

interpretation sel_pages: invariant sel_start "sel_move D other" sel_inv for D other
proof
  show "sel_start p \<Longrightarrow> sel_inv p" for p by (simp add: sel_start_def sel_inv_def wf_engine_def)
  show "sel_inv p \<Longrightarrow> sel_move D other p p' \<Longrightarrow> sel_inv p'" for p p'
  proof (elim sel_move.cases)
    fix q gs assume "sel_inv p" "p = q" "p' = sel_compile gs q"
    then show "sel_inv p'" by (auto simp: sel_inv_def sel_compile_def split: option.split)
  next
    fix gs ms q es ctx xml
    assume a: "sel_inv p" "p = q" "p' = q\<lparr>sp_engine := snd (superMatcher D other ms es ctx xml (sp_engine q))\<rparr>" "(gs, ms) \<in> set (sp_compiled q)"
    then obtain n n' where "compile_sel gs n = Some (ms, n')" "wf_engine (sp_engine q)" by (auto simp: sel_inv_def)
    from superMatcher_selects(2) [OF this] show "sel_inv p'" using a by (simp add: sel_inv_def)
  qed
qed

text \<open>
  C9. However a page has compiled and run selectors before, a compiled selector picks out of any elements,
  in their order, those that one of its groups describes: each filter holds, and each combinator leads to a
  parent, ancestor or sibling that the part to its left describes, within the context. The results
  that the engine stores on nodes while it walks, in arrays that nodes share, never change the answer.
\<close>

theorem selectors_match:
  assumes "reachable sel_start (sel_move D other) p" "(gs, ms) \<in> set (sp_compiled p)"
  shows "fst (superMatcher D other ms es ctx xml (sp_engine p)) =
    filter (\<lambda>e. \<exists>g\<in>set gs. described (sel_env_of D other ctx xml) (rev g) e) es"
proof -
  have "sel_inv p" by (rule sel_pages.reachable_inv [OF assms(1)])
  then obtain n n' where "compile_sel gs n = Some (ms, n')" "wf_engine (sp_engine p)" using assms(2) by (auto simp: sel_inv_def)
  then show ?thesis by (rule superMatcher_selects(1))
qed

text \<open>A document with a list in a division, and the selector \<open>div.menu li > a, p ~ p\<close>, run twice.\<close>

definition menu_doc :: sel_dom where
  "menu_doc = \<lparr>sd_parent = map_of [(1, 0), (2, 1), (3, 2), (4, 3), (5, 4), (6, 1), (7, 1)],
     sd_previous = map_of [(6, 2), (7, 6)], sd_type = (\<lambda>e. if e = 0 then 9 else 1),
     sd_name = (\<lambda>e. [''#document'', ''HTML'', ''DIV'', ''UL'', ''LI'', ''A'', ''P'', ''P''] ! e),
     sd_attr = (\<lambda>e n. if e = 2 \<and> n = ''class'' then Some ''wide menu'' else None), sd_document = 0\<rparr>"

definition menu_selector :: "sel_token list list" where
  "menu_selector = [[Flt (TAG ''div''), Flt (CLASS ''menu''), Rel (the (relative_of (CHR '' ''))), Flt (TAG ''li''),
       Rel (the (relative_of (CHR ''>''))), Flt (TAG ''a'')],
     [Flt (TAG ''p''), Rel (the (relative_of (CHR ''~''))), Flt (TAG ''p'')]]"

definition menu_page :: sel_page where
  "menu_page = sel_compile menu_selector \<lparr>sp_compiled = [], sp_done = 0,
     sp_engine = \<lparr>dirruns = 0, cells = (\<lambda>a. \<lparr>dc_runs = 0, dc_done = 0, dc_res = None\<rparr>), next_cell = 0, dir_cache = (\<lambda>k. None)\<rparr>\<rparr>"

definition menu_matchers :: "matcher list" where
  "menu_matchers = snd (hd (sp_compiled menu_page))"

definition menu_page2 :: sel_page where
  "menu_page2 = menu_page\<lparr>sp_engine := snd (superMatcher menu_doc (\<lambda>i e. False) menu_matchers [1, 2, 3, 4, 5, 6, 7] (CNode 2) False (sp_engine menu_page))\<rparr>"

lemma menu_pages:
  "reachable sel_start (sel_move menu_doc (\<lambda>i e. False)) menu_page2" "(menu_selector, menu_matchers) \<in> set (sp_compiled menu_page2)"
proof -
  let ?p0 = "\<lparr>sp_compiled = [], sp_done = 0,
     sp_engine = \<lparr>dirruns = 0, cells = (\<lambda>a. \<lparr>dc_runs = 0, dc_done = 0, dc_res = None\<rparr>), next_cell = 0, dir_cache = (\<lambda>k. None)\<rparr>\<rparr>"
  have "compile_sel menu_selector 0 \<noteq> None" by code_simp
  then have c: "sp_compiled menu_page = [(menu_selector, menu_matchers)]"
    by (auto simp: menu_matchers_def menu_page_def sel_compile_def)
  have "reachable sel_start (sel_move menu_doc (\<lambda>i e. False)) ?p0" by (rule reachable.intros) (simp add: sel_start_def)
  then have "reachable sel_start (sel_move menu_doc (\<lambda>i e. False)) menu_page"
    unfolding menu_page_def by (rule reachable.intros(2)) (rule sel_compiles)
  then show "reachable sel_start (sel_move menu_doc (\<lambda>i e. False)) menu_page2"
    unfolding menu_page2_def by (rule reachable.intros(2)) (rule sel_selects [of menu_selector], simp add: c)
  show "(menu_selector, menu_matchers) \<in> set (sp_compiled menu_page2)" by (simp add: menu_page2_def c)
qed

lemma selectors_match_witness:
  "fst (superMatcher menu_doc (\<lambda>i e. False) menu_matchers [1, 2, 3, 4, 5, 6, 7] (CNode 0) False (sp_engine menu_page2)) = [5, 7]"
proof -
  have "filter (\<lambda>e. \<exists>g\<in>set menu_selector. described (sel_env_of menu_doc (\<lambda>i e. False) (CNode 0) False) (rev g) e) [1, 2, 3, 4, 5, 6, 7] = [5, 7]"
    by code_simp
  then show ?thesis using selectors_match [OF menu_pages] by simp
qed

end
