(* ===== verification/JQuery_Nth.thy ===== *)
theory JQuery_Nth
  imports Doctools
begin

text \<open>
  The filters of jquery.js for the place of an element among its siblings (\<open>CHILD\<close> in \<open>Expr.preFilter\<close> and
  \<open>Expr.filter\<close>): \<open>:first-child\<close>, \<open>:only-of-type\<close>, \<open>:nth-child(2n+1)\<close> and so on. During a run of the engine they
  keep places that were counted before, on the parent for \<open>nth-child\<close> and on every element passed for
  \<open>nth-last-child\<close>. Shown: in any order of tests the answer is that of the formula for the place of the
  element.

  The children of one parent are a list and an element is an index of it.
\<close>

section \<open>Arguments\<close>

text \<open>What the expression for the filter finds: the argument, the part with n, its sign and number, and the sign and number of the rest.\<close>

record nth_match =
  nm_argument :: string
  nm_xn :: string
  nm_xsign :: string
  nm_x :: string
  nm_y :: "(string \<times> string) option"

definition signed :: "string \<Rightarrow> string \<Rightarrow> int" where
  "signed s digits = (if s = ''-'' then - int (read_nat digits) else int (read_nat digits))"

definition nth_args :: "nth_match \<Rightarrow> int \<times> int" where
  "nth_args m =
     (if nm_xn m \<noteq> [] then signed (nm_xsign m) (if nm_x m = [] then ''1'' else nm_x m)
      else 2 * (if nm_argument m = ''even'' \<or> nm_argument m = ''odd'' then 1 else 0),
      case nm_y m of Some (s, y) \<Rightarrow> signed s y | None \<Rightarrow> if nm_argument m = ''odd'' then 1 else 0)"

section \<open>Tests\<close>

record child_node =
  cn_type :: nat
  cn_name :: string

datatype child_type = First | Last | Only | Nth int int | NthLast int int

record nth_state =
  ns_dirruns :: nat
  ns_parent :: "(nat \<times> nat \<times> nat) option"
  ns_elem :: "nat \<Rightarrow> (nat \<times> nat) option"

text \<open>The nodes that count: elements, or nodes with the name of the element.\<close>

definition counts :: "bool \<Rightarrow> child_node list \<Rightarrow> nat \<Rightarrow> child_node \<Rightarrow> bool" where
  "counts ofType cs j c = (if ofType then toLowerCase (cn_name c) = toLowerCase (cn_name (cs ! j)) else cn_type c = 1)"

text \<open>
  The loop over siblings from a node on: \<open>i\<close> is the index of the next node, \<open>diff\<close> the number of nodes counted so
  far. The result has the index and the count at the element.
\<close>

fun seek :: "(child_node \<Rightarrow> bool) \<Rightarrow> nat \<Rightarrow> nat \<Rightarrow> nat \<Rightarrow> child_node list \<Rightarrow> (nat \<times> nat) option" where
  "seek ok j i diff [] = None"
| "seek ok j i diff (c # cs) = (if ok c
     then (if i = j then Some (i, diff + 1) else seek ok j (i + 1) (diff + 1) cs)
     else seek ok j (i + 1) diff cs)"

text \<open>From a place that was found before in this run, and from the start when the element is not behind it.\<close>

definition seek_cached :: "nth_state \<Rightarrow> child_node list \<Rightarrow> nat \<Rightarrow> (nat \<times> nat) option" where
  "seek_cached st cs j = (case ns_parent st of
      Some (r, i, d) \<Rightarrow> if r = ns_dirruns st \<and> i \<noteq> 0 \<and> i < length cs then seek (\<lambda>c. cn_type c = 1) j (i + 1) d (drop (i + 1) cs) else None
    | None \<Rightarrow> None)"

definition nth_forward :: "child_node list \<Rightarrow> nat \<Rightarrow> nth_state \<Rightarrow> nat \<times> nth_state" where
  "nth_forward cs j st = (case (case seek_cached st cs j of
        Some r \<Rightarrow> Some r | None \<Rightarrow> seek (\<lambda>c. cn_type c = 1) j 0 0 cs) of
      None \<Rightarrow> (0, st)
    | Some (i, d) \<Rightarrow> (d, st\<lparr>ns_parent := Some (ns_dirruns st, i, d)\<rparr>))"

text \<open>From the end, with the number of every element that is passed.\<close>

fun back_seek :: "nat \<Rightarrow> nat \<Rightarrow> (nat \<times> child_node) list \<Rightarrow> nth_state \<Rightarrow> nat \<times> nth_state" where
  "back_seek j diff [] st = (0, st)"
| "back_seek j diff ((i, c) # cs) st = (if cn_type c = 1
     then (let st1 = st\<lparr>ns_elem := (ns_elem st)(i := Some (ns_dirruns st, diff + 1))\<rparr> in
       if i = j then (diff + 1, st1) else back_seek j (diff + 1) cs st1)
     else back_seek j diff cs st)"

definition nth_backward :: "child_node list \<Rightarrow> nat \<Rightarrow> nth_state \<Rightarrow> nat \<times> nth_state" where
  "nth_backward cs j st = (case ns_elem st j of
      Some (r, d) \<Rightarrow> if r = ns_dirruns st then (d, st) else back_seek j 0 (rev (indexed cs)) st
    | None \<Rightarrow> back_seek j 0 (rev (indexed cs)) st)"

text \<open>Without a store, for types of elements and for documents that are not HTML.\<close>

definition nth_plain :: "(child_node \<Rightarrow> bool) \<Rightarrow> child_node list \<Rightarrow> nat \<Rightarrow> nat" where
  "nth_plain ok cs j = (case seek ok j 0 0 cs of None \<Rightarrow> 0 | Some (i, d) \<Rightarrow> d)"

text \<open>\<open>diff === first || ( diff % first === 0 && diff / first >= 0 )\<close>; the remainder by 0 is NaN.\<close>

definition in_cycle :: "int \<Rightarrow> int \<Rightarrow> bool" where
  "in_cycle diff first \<longleftrightarrow> diff = first \<or> first \<noteq> 0 \<and> diff mod first = 0 \<and> diff div first \<ge> 0"

definition child_filter :: "child_type \<Rightarrow> bool \<Rightarrow> bool \<Rightarrow> child_node list \<Rightarrow> nat \<Rightarrow> nth_state \<Rightarrow> bool \<times> nth_state" where
  "child_filter type ofType xml cs j st = (let ok = counts ofType cs j; before = take j cs; after = drop (j + 1) cs in
     case type of
       First \<Rightarrow> (\<not> list_ex ok before, st)
     | Last \<Rightarrow> (\<not> list_ex ok after, st)
     | Only \<Rightarrow> (\<not> list_ex ok before \<and> \<not> list_ex ok after, st)
     | Nth a b \<Rightarrow>
         if a = 1 \<and> b = 0 then (True, st)
         else (case (if \<not> xml \<and> \<not> ofType then nth_forward cs j st else (nth_plain ok cs j, st)) of
           (d, st1) \<Rightarrow> (in_cycle (int d - b) a, st1))
     | NthLast a b \<Rightarrow>
         if a = 1 \<and> b = 0 then (True, st)
         else (case (if \<not> xml \<and> \<not> ofType then nth_backward cs j st else (nth_plain ok (rev cs) (length cs - 1 - j), st)) of
           (d, st1) \<Rightarrow> (in_cycle (int d - b) a, st1)))"

section \<open>Places\<close>

text \<open>The place of an element, from the front or from the back, starting with 1.\<close>

definition place :: "(child_node \<Rightarrow> bool) \<Rightarrow> child_node list \<Rightarrow> nat \<Rightarrow> nat" where
  "place ok cs j = length (filter ok (take (j + 1) cs))"

lemma in_cycle_iff: "in_cycle diff a \<longleftrightarrow> (\<exists>n::nat. diff = a * int n)"
proof (cases "a = 0")
  case False
  have "diff mod a = 0 \<and> diff div a \<ge> 0 \<longleftrightarrow> (\<exists>n::nat. diff = a * int n)"
  proof
    assume d: "diff mod a = 0 \<and> diff div a \<ge> 0"
    then have "diff = a * (diff div a)" by auto
    then show "\<exists>n::nat. diff = a * int n" using d by (metis nonneg_int_cases)
  qed (use False in auto)
  moreover have "\<exists>n::nat. diff = a * int n" if "diff = a" using that by (intro exI [of _ 1]) simp
  ultimately show ?thesis using False unfolding in_cycle_def by metis
qed (simp add: in_cycle_def)

lemma seek_found:
  assumes "i \<le> j" "j < length cs" "ok (cs ! j)"
  shows "seek ok j i (length (filter ok (take i cs))) (drop i cs) = Some (j, place ok cs j)"
  using assms(1)
proof (induction rule: inc_induct)
  case base
  have "drop j cs = cs ! j # drop (Suc j) cs" using assms(2) by (simp add: Cons_nth_drop_Suc)
  then show ?case using assms(2,3) by (simp add: place_def take_Suc_conv_app_nth)
next
  case (step i)
  have "drop i cs = cs ! i # drop (Suc i) cs" using step(2) assms(2) by (simp add: Cons_nth_drop_Suc)
  then show ?case using step assms(2) by (cases "ok (cs ! i)") (simp_all add: take_Suc_conv_app_nth)
qed

lemma seek_missed: "j < i \<Longrightarrow> seek ok j i d cs = None"
  by (induction cs arbitrary: i d) auto

text \<open>What is stored in this run is right.\<close>

definition nth_ok :: "child_node list \<Rightarrow> nth_state \<Rightarrow> bool" where
  "nth_ok cs st \<longleftrightarrow>
     (\<forall>r i d. ns_parent st = Some (r, i, d) \<longrightarrow> r = ns_dirruns st \<longrightarrow> i < length cs \<and> d = place (\<lambda>c. cn_type c = 1) cs i)
     \<and> (\<forall>i r d. ns_elem st i = Some (r, d) \<longrightarrow> r = ns_dirruns st \<longrightarrow> i < length cs \<and> d = place (\<lambda>c. cn_type c = 1) (rev cs) (length cs - 1 - i))"

lemma nth_forward_place:
  assumes st: "nth_ok cs st" and j: "j < length cs" "cn_type (cs ! j) = 1"
  shows "fst (nth_forward cs j st) = place (\<lambda>c. cn_type c = 1) cs j \<and> nth_ok cs (snd (nth_forward cs j st))"
proof -
  let ?el = "\<lambda>c. cn_type c = 1"
  have start: "seek ?el j 0 0 cs = Some (j, place ?el cs j)" using seek_found [of 0 j cs ?el] j by simp
  have "seek_cached st cs j = None \<or> seek_cached st cs j = Some (j, place ?el cs j)"
  proof (cases "ns_parent st")
    case (Some c)
    obtain r i d where c: "c = (r, i, d)" by (cases c)
    have d: "d = place ?el cs i" if "r = ns_dirruns st" using st Some c that by (simp add: nth_ok_def)
    show ?thesis
    proof (cases "j \<le> i")
      case True
      then show ?thesis using Some c seek_missed [of j "i + 1"] by (simp add: seek_cached_def)
    next
      case False
      then show ?thesis using Some c d seek_found [of "i + 1" j cs ?el] j by (simp add: seek_cached_def place_def)
    qed
  qed (simp add: seek_cached_def)
  then have "nth_forward cs j st = (place ?el cs j, st\<lparr>ns_parent := Some (ns_dirruns st, j, place ?el cs j)\<rparr>)"
    using start by (auto simp: nth_forward_def)
  then show ?thesis using st j by (simp add: nth_ok_def)
qed

text \<open>The nodes from the end are the nodes of the reversed list; node \<open>i\<close> is at \<open>length cs - 1 - i\<close> there.\<close>

lemma rev_indexed: "rev (indexed cs) = map (\<lambda>k. (length cs - 1 - k, rev cs ! k)) [0..<length cs]"
proof (rule nth_equalityI)
  fix k assume "k < length (rev (indexed cs))"
  then show "rev (indexed cs) ! k = map (\<lambda>k. (length cs - 1 - k, rev cs ! k)) [0..<length cs] ! k"
    by (simp add: indexed_def rev_nth)
qed (simp add: indexed_def)

lemma back_seek_place:
  assumes st: "nth_ok cs st" and j: "j < length cs" "cn_type (cs ! j) = 1" and k: "k \<le> length cs - 1 - j"
    and d: "d = length (filter (\<lambda>c. cn_type c = 1) (take k (rev cs)))"
  shows "fst (back_seek j d (map (\<lambda>k. (length cs - 1 - k, rev cs ! k)) [k..<length cs]) st)
      = place (\<lambda>c. cn_type c = 1) (rev cs) (length cs - 1 - j)
    \<and> nth_ok cs (snd (back_seek j d (map (\<lambda>k. (length cs - 1 - k, rev cs ! k)) [k..<length cs]) st))"
  using k st d
proof (induction "length cs - k" arbitrary: k st d)
  case (Suc n)
  let ?el = "\<lambda>c. cn_type c = 1" and ?i = "length cs - 1 - k"
  have k: "k < length cs" using Suc.hyps(2) by simp
  have up: "[k..<length cs] = k # [Suc k..<length cs]" using k by (rule upt_conv_Cons)
  have tk: "take (Suc k) (rev cs) = take k (rev cs) @ [rev cs ! k]" using k by (simp add: take_Suc_conv_app_nth)
  have el: "?el (rev cs ! k)" if "?i = j" using that j k by (auto simp: rev_nth)
  have bk: "length cs - 1 - ?i = k" using k by simp
  let ?st = "st\<lparr>ns_elem := (ns_elem st)(?i := Some (ns_dirruns st, d + 1))\<rparr>"
  have put: "nth_ok cs ?st" if "?el (rev cs ! k)"
    using Suc.prems(2,3) that tk k bk unfolding nth_ok_def by (auto simp: place_def)
  show ?case
  proof (cases "?i = j")
    case True
    then show ?thesis using el put tk bk Suc.prems(3) by (auto simp: up Let_def place_def)
  next
    case False
    then have nx: "Suc k \<le> length cs - 1 - j" "n = length cs - Suc k" using Suc.prems(1) Suc.hyps(2) j(1) by auto
    show ?thesis using False put Suc.hyps(1) [OF nx(2,1)] Suc.prems(2,3) tk by (cases "?el (rev cs ! k)") (auto simp: up Let_def)
  qed
qed (use j in simp)

lemma nth_backward_place:
  assumes st: "nth_ok cs st" and j: "j < length cs" "cn_type (cs ! j) = 1"
  shows "fst (nth_backward cs j st) = place (\<lambda>c. cn_type c = 1) (rev cs) (length cs - 1 - j) \<and> nth_ok cs (snd (nth_backward cs j st))"
  using back_seek_place [OF assms, of 0 0] st unfolding nth_backward_def rev_indexed
  by (auto simp: nth_ok_def split: option.split)

section \<open>The answers\<close>

text \<open>What a filter says of an element, by its places among the nodes that count.\<close>

fun child_describes :: "child_type \<Rightarrow> nat \<Rightarrow> nat \<Rightarrow> bool" where
  "child_describes First front back = (front = 1)"
| "child_describes Last front back = (back = 1)"
| "child_describes Only front back = (front = 1 \<and> back = 1)"
| "child_describes (Nth a b) front back = (\<exists>n::nat. int front = a * int n + b)"
| "child_describes (NthLast a b) front back = (\<exists>n::nat. int back = a * int n + b)"

lemma place_first: "j < length cs \<Longrightarrow> ok (cs ! j) \<Longrightarrow> place ok cs j = 1 \<longleftrightarrow> \<not> list_ex ok (take j cs)"
  by (auto simp: place_def take_Suc_conv_app_nth list_ex_iff filter_empty_conv)

lemma nth_plain_place: "j < length cs \<Longrightarrow> ok (cs ! j) \<Longrightarrow> nth_plain ok cs j = place ok cs j"
  using seek_found [of 0 j cs ok] by (simp add: nth_plain_def)

lemma cycle_place: "in_cycle (int d - b) a \<longleftrightarrow> (\<exists>n::nat. int d = a * int n + b)"
  unfolding in_cycle_iff by (metis add_diff_cancel_right' diff_add_cancel)

lemma child_filter_place:
  assumes st: "nth_ok cs st" and j: "j < length cs" "cn_type (cs ! j) = 1"
  shows "fst (child_filter type ofType xml cs j st) =
      child_describes type (place (counts ofType cs j) cs j) (place (counts ofType cs j) (rev cs) (length cs - 1 - j))"
    "nth_ok cs (snd (child_filter type ofType xml cs j st))"
proof -
  let ?ok = "counts ofType cs j" and ?k = "length cs - 1 - j"
  have ok: "?ok (cs ! j)" using j(2) by (simp add: counts_def)
  have k: "?k < length (rev cs)" "?ok (rev cs ! ?k)" using j(1) ok by (simp_all add: rev_nth)
  have el: "?ok = (\<lambda>c. cn_type c = 1)" if "\<not> ofType" using that by (simp add: counts_def fun_eq_iff)
  have ends: "list_ex ?ok (drop (j + 1) cs) = list_ex ?ok (take ?k (rev cs))" using j(1) by (simp add: take_rev list_ex_iff)
  note places = place_first [of j cs ?ok, OF j(1) ok] place_first [of ?k "rev cs" ?ok, OF k] nth_plain_place [of j cs ?ok, OF j(1) ok] nth_plain_place [of ?k "rev cs" ?ok, OF k]
  note cached = nth_forward_place [OF assms] nth_backward_place [OF assms]
  have "fst (child_filter type ofType xml cs j st) = child_describes type (place ?ok cs j) (place ?ok (rev cs) ?k)
      \<and> nth_ok cs (snd (child_filter type ofType xml cs j st))"
  proof (cases type)
    case (Nth a b)
    then show ?thesis using cached(1) places(3) el st cycle_place by (auto simp: child_filter_def Let_def case_prod_beta)
  next
    case (NthLast a b)
    then show ?thesis using cached(2) places(4) el st cycle_place by (auto simp: child_filter_def Let_def case_prod_beta)
  qed (use st places ends in \<open>simp_all add: child_filter_def Let_def\<close>)
  then show "fst (child_filter type ofType xml cs j st) = child_describes type (place ?ok cs j) (place ?ok (rev cs) ?k)"
    "nth_ok cs (snd (child_filter type ofType xml cs j st))" by blast+
qed

text \<open>
  Runs of the engine: during a run filters test elements in any order; between two runs the children may
  change, and what was stored stays on the nodes.
\<close>

record nth_page =
  np_children :: "child_node list"
  np_state :: nth_state

definition nth_start :: "nth_page \<Rightarrow> bool" where
  "nth_start p \<longleftrightarrow> ns_parent (np_state p) = None \<and> (\<forall>i. ns_elem (np_state p) i = None)"

inductive nth_move :: "nth_page \<Rightarrow> nth_page \<Rightarrow> bool" where
  nth_test: "j < length (np_children p) \<Longrightarrow> cn_type (np_children p ! j) = 1 \<Longrightarrow>
    nth_move p (p\<lparr>np_state := snd (child_filter type ofType xml (np_children p) j (np_state p))\<rparr>)"
| nth_new_run: "nth_move p \<lparr>np_children = cs, np_state = (np_state p)\<lparr>ns_dirruns := ns_dirruns (np_state p) + 1\<rparr>\<rparr>"

definition old_runs :: "nth_state \<Rightarrow> bool" where
  "old_runs st \<longleftrightarrow> (\<forall>r i d. ns_parent st = Some (r, i, d) \<longrightarrow> r \<le> ns_dirruns st) \<and> (\<forall>i r d. ns_elem st i = Some (r, d) \<longrightarrow> r \<le> ns_dirruns st)"

lemma old_runs_put: "old_runs st \<Longrightarrow> old_runs (st\<lparr>ns_elem := (ns_elem st)(i := Some (ns_dirruns st, d))\<rparr>)"
  by (auto simp: old_runs_def)

lemma back_seek_runs: "old_runs st \<Longrightarrow> old_runs (snd (back_seek j d xs st))"
  by (induction j d xs st rule: back_seek.induct) (simp_all add: Let_def old_runs_put)

lemma child_filter_runs: "old_runs st \<Longrightarrow> old_runs (snd (child_filter type ofType xml cs j st))"
proof -
  assume st: "old_runs st"
  have "old_runs (snd (nth_forward cs j st))" using st by (auto simp: nth_forward_def old_runs_def split: option.splits)
  moreover have "old_runs (snd (nth_backward cs j st))"
    using back_seek_runs [OF st] st by (auto simp: nth_backward_def split: option.splits)
  ultimately show ?thesis using st by (cases type) (simp_all add: child_filter_def Let_def case_prod_beta)
qed

definition nth_inv :: "nth_page \<Rightarrow> bool" where
  "nth_inv p \<longleftrightarrow> nth_ok (np_children p) (np_state p) \<and> old_runs (np_state p)"

interpretation nth_pages: invariant nth_start nth_move nth_inv
proof
  show "nth_start p \<Longrightarrow> nth_inv p" for p by (simp add: nth_start_def nth_inv_def nth_ok_def old_runs_def)
  show "nth_inv p \<Longrightarrow> nth_move p p' \<Longrightarrow> nth_inv p'" for p p'
  proof (elim nth_move.cases)
    fix j q type ofType xml
    assume "nth_inv p" "p = q" "p' = q\<lparr>np_state := snd (child_filter type ofType xml (np_children q) j (np_state q))\<rparr>"
      "j < length (np_children q)" "cn_type (np_children q ! j) = 1"
    then show "nth_inv p'" using child_filter_place(2) child_filter_runs by (simp add: nth_inv_def)
  next
    fix q cs assume "nth_inv p" "p = q" "p' = \<lparr>np_children = cs, np_state = (np_state q)\<lparr>ns_dirruns := ns_dirruns (np_state q) + 1\<rparr>\<rparr>"
    then show "nth_inv p'" by (fastforce simp: nth_inv_def nth_ok_def old_runs_def)
  qed
qed

text \<open>
  C13. In any run and after any tests, the filters for children answer by the place of the element among
  the siblings that count (elements, or nodes of its name), from the front or the back: it is the first,
  the last, the only one, or \<open>a n + b\<close> for a natural number \<open>n\<close>. The places that the code keeps on the parent
  and on elements, and the order in which elements are tested, do not change the answer.
\<close>

theorem nth_child_places:
  assumes "reachable nth_start nth_move p" "j < length (np_children p)" "cn_type (np_children p ! j) = 1"
  shows "fst (child_filter type ofType xml (np_children p) j (np_state p)) =
    child_describes type (place (counts ofType (np_children p) j) (np_children p) j)
      (place (counts ofType (np_children p) j) (rev (np_children p)) (length (np_children p) - 1 - j))"
proof -
  have "nth_ok (np_children p) (np_state p)" using nth_pages.reachable_inv [OF assms(1)] by (simp add: nth_inv_def)
  then show ?thesis by (rule child_filter_place(1) [OF _ assms(2,3)])
qed

definition nth_example :: nth_page where
  "nth_example = (let cs = [\<lparr>cn_type = 1, cn_name = ''LI''\<rparr>, \<lparr>cn_type = 3, cn_name = ''#text''\<rparr>, \<lparr>cn_type = 1, cn_name = ''LI''\<rparr>, \<lparr>cn_type = 1, cn_name = ''LI''\<rparr>];
       st = \<lparr>ns_dirruns = 1, ns_parent = None, ns_elem = (\<lambda>i. None)\<rparr> in
     \<lparr>np_children = cs, np_state = snd (child_filter (Nth 2 1) False False cs 2 st)\<rparr>)"

text \<open>The third element is odd, which is found from the place of the second.\<close>

lemma nth_child_places_witness:
  "ns_parent (np_state nth_example) = Some (1, 2, 2)
   \<and> fst (child_filter (Nth 2 1) False False (np_children nth_example) 3 (np_state nth_example))"
proof -
  let ?cs = "[\<lparr>cn_type = 1, cn_name = ''LI''\<rparr>, \<lparr>cn_type = 3, cn_name = ''#text''\<rparr>, \<lparr>cn_type = 1, cn_name = ''LI''\<rparr>, \<lparr>cn_type = 1, cn_name = ''LI''\<rparr>]"
  let ?p = "\<lparr>np_children = ?cs, np_state = \<lparr>ns_dirruns = 1, ns_parent = None, ns_elem = (\<lambda>i. None)\<rparr>\<rparr>"
  have "reachable nth_start nth_move ?p" by (rule reachable_start) (simp add: nth_start_def)
  moreover have "nth_move ?p nth_example" using nth_test [of 2 ?p "Nth 2 1" False False] by (simp add: nth_example_def Let_def)
  ultimately have r: "reachable nth_start nth_move nth_example" by (rule reachable_move)
  have c: "np_children nth_example = ?cs" by (simp add: nth_example_def Let_def)
  have "ns_parent (np_state nth_example) = Some (1, 2, 2)" by code_simp
  moreover have "place (counts False ?cs 3) ?cs 3 = 3" by code_simp
  then have "child_describes (Nth 2 1) (place (counts False ?cs 3) ?cs 3) k" for k by (auto intro: exI [of _ 1])
  ultimately show ?thesis using nth_child_places [OF r, of 3 "Nth 2 1" False False] unfolding c by simp
qed

text \<open>
  The expression for the arguments ignores the case of letters and the words are compared with it: the filter
  \<open>:nth-child(EVEN)\<close> is read as 0, and no element is described by it.
\<close>

lemma nth_EVEN:
  "nth_args \<lparr>nm_argument = ''EVEN'', nm_xn = [], nm_xsign = [], nm_x = [], nm_y = None\<rparr> = (0, 0)"
  "0 < front \<Longrightarrow> \<not> child_describes (Nth 0 0) front back"
  by (simp_all add: nth_args_def)

end
