(* ===== verification/Page_Scripts.thy ===== *)
theory Page_Scripts
  imports JS_Values
begin

text \<open>
  The small scripts: the table of methods of a javadoc page (javadoc/script.js), and the menu
  and the sticky navigation of the theme (js/theme.js).
\<close>

unbundle bit_operations_syntax

section \<open>The method table of a javadoc page\<close>

text \<open>A row of the table: hidden, or shown in one of the two colours.\<close>

datatype row = Hidden | Shown bool

text \<open>
  \<open>show(type)\<close>: the methods of the page are a map from row ids to masks of 32 bits;
  \<open>Shown True\<close> is \<open>rowColor\<close>, \<open>Shown False\<close> is \<open>altColor\<close>.
\<close>

fun show_rows :: "int \<Rightarrow> nat \<Rightarrow> (string \<times> int) list \<Rightarrow> (string \<times> row) list" where
  "show_rows type n [] = []"
| "show_rows type n ((key, flags) # methods) =
     (if flags AND type \<noteq> 0 then (key, Shown (n mod 2 = 1)) # show_rows type (n + 1) methods
      else (key, Hidden) # show_rows type n methods)"

record tab =
  tab_active :: bool
  tab_html :: string

text \<open>\<open>updateTabs(type)\<close>: the tabs are a map from masks (as strings) to ids and labels.\<close>

definition updateTabs :: "int \<Rightarrow> (int \<times> string \<times> string) list \<Rightarrow> (string \<times> tab) list" where
  "updateTabs type tabs = map (\<lambda>(v, i, label).
     (i, if v = type then \<lparr>tab_active = True, tab_html = label\<rparr>
         else \<lparr>tab_active = False, tab_html = ''<a href='' @ [CHR 0x22] @ ''javascript:show('' @ show_int v @ '');''
                @ [CHR 0x22] @ ''>'' @ label @ ''</a>''\<rparr>)) tabs"

text \<open>The visible rows, in order.\<close>

definition visible_rows :: "(string \<times> row) list \<Rightarrow> (string \<times> bool) list" where
  "visible_rows rows = List.map_filter (\<lambda>(k, r). case r of Shown b \<Rightarrow> Some (k, b) | Hidden \<Rightarrow> None) rows"

lemma visible_rows_Cons:
  "visible_rows ((k, Hidden) # rs) = visible_rows rs" "visible_rows ((k, Shown b) # rs) = (k, b) # visible_rows rs"
  by (simp_all add: visible_rows_def List.map_filter_def)

lemma show_rows_visible:
  "visible_rows (show_rows type n methods)
    = (let ks = map fst (filter (\<lambda>(k, flags). flags AND type \<noteq> 0) methods) in zip ks (map (\<lambda>i. (n + i) mod 2 = 1) [0..<length ks]))"
proof (induction methods arbitrary: n)
  case Nil
  then show ?case by (simp add: visible_rows_def List.map_filter_def)
next
  case (Cons m methods)
  obtain k flags where m: "m = (k, flags)" by fastforce
  have "map (\<lambda>i. (n + i) mod 2 = 1) [0..<Suc l] = (n mod 2 = 1) # map (\<lambda>i. (n + 1 + i) mod 2 = 1) [0..<l]" for l
    by (simp add: upt_conv_Cons map_Suc_upt [symmetric] del: upt_Suc)
  with Cons m show ?case by (simp add: visible_rows_Cons Let_def)
qed

text \<open>
  The method table: every row is kept, the visible rows are exactly those of the methods
  with a flag of the chosen kind, in order and with alternating colours; and the active tab is
  the one of that kind.
\<close>

theorem method_table:
  "map fst (show_rows type 0 methods) = map fst methods
   \<and> map fst (visible_rows (show_rows type 0 methods)) = map fst (filter (\<lambda>(k, flags). flags AND type \<noteq> 0) methods)
   \<and> map snd (visible_rows (show_rows type 0 methods))
       = map odd [0..<length (filter (\<lambda>(k, flags). flags AND type \<noteq> 0) methods)]
   \<and> map (tab_active \<circ> snd) (updateTabs type tabs) = map (\<lambda>(v, i, label). v = type) tabs"
proof -
  have "map fst (show_rows type n methods) = map fst methods" for n
    by (induction methods arbitrary: n) auto
  then show ?thesis
    by (simp add: show_rows_visible Let_def updateTabs_def odd_iff_mod_2_eq_one comp_def split_beta if_distrib [of tab_active])
qed

section \<open>The theme\<close>

record nav =
  nav_shift :: bool
  versions_shift :: bool
  versions_up :: bool

datatype nav_click = NavTop | MenuLink | CurrentVersion

fun nav_step :: "nav_click \<Rightarrow> nav \<Rightarrow> nav" where
  "nav_step NavTop s = s\<lparr>nav_shift := \<not> nav_shift s, versions_shift := \<not> versions_shift s\<rparr>"
| "nav_step MenuLink s = s\<lparr>nav_shift := False, versions_shift := \<not> versions_shift s\<rparr>"
| "nav_step CurrentVersion s = s\<lparr>versions_up := \<not> versions_up s\<rparr>"

definition applyStickNav :: "nat \<Rightarrow> nat \<Rightarrow> bool" where
  "applyStickNav navHeight winHeight \<longleftrightarrow> navHeight \<le> winHeight"

text \<open>
  The menu and the list of versions are shifted together by the button, but a click on a link
  of a closed menu closes the one and opens the other.
\<close>

lemma menu_and_versions:
  "nav_shift s = versions_shift s \<Longrightarrow> nav_shift (nav_step NavTop s) = versions_shift (nav_step NavTop s)"
  "nav_shift s = versions_shift s \<Longrightarrow>
   nav_shift (nav_step MenuLink s) = versions_shift (nav_step MenuLink s) \<longleftrightarrow> nav_shift s"
  by auto

end
