(* ===== verification/Spec2Isabelle.thy ===== *)
theory Spec2Isabelle
  imports Search_Terms Websupport_Pages JQuery_Deferred JQuery_Param JQuery_Classes JQuery_Ajax JQuery_Queue JQuery_Trigger JQuery_Selectors JQuery_Nth Page_Scripts
begin

text \<open>
  \<^bold>\<open>The JavaScript of the Cassandra documentation.\<close> The repository is a Spring Boot example that
  carries a distribution of Apache Cassandra 3.11.1. The JavaScript of the repository is that of
  the distribution's manual (\<open>apache-cassandra-3.11.1/doc/html/_static\<close>) and of its javadoc
  pages (\<open>apache-cassandra-3.11.1/javadoc/script.js\<close>); file names below are relative to them.

  \<^bold>\<open>The parts and how they interact.\<close>
  A page of the manual loads \<open>jquery.js\<close> and \<open>underscore.js\<close>, then \<open>doctools.js\<close> (decoding of the
  address, highlighting of search terms, translations, keys), \<open>js/theme.js\<close> (menus), on the
  search page \<open>searchtools.js\<close> with the generated index \<open>searchindex.js\<close>, and \<open>websupport.js\<close>,
  the comment system. \<open>searchtools.js\<close> reads the query through \<open>$.getQueryParameters\<close> of
  \<open>doctools.js\<close> and loads documents through \<open>jQuery.ajax\<close>; \<open>websupport.js\<close> sends its requests
  through \<open>jQuery.ajax\<close>, whose data is written by \<open>jQuery.param\<close>; and \<open>jQuery.ajax\<close> itself is
  built on the deferred objects and callback lists of the same file.

  \<^bold>\<open>The language.\<close>
  \<open>JS_Prelude\<close> has the state-and-exception monad of JavaScript callbacks, the sort of arrays, decimal
  numerals, generic list lemmas, reachability, and the interfaces that components share: the
  locale \<open>comparator\<close> (what an order passed to \<open>sort\<close> has to obey; then the result is the stable
  sort), \<open>invariant\<close> and \<open>relative_invariant\<close> (a machine with start states, moves and what they keep).
  \<open>JS_Values\<close> has values, the store of objects, equality, conversions, property lookup along the
  prototype chain and the order of enumeration.

  \<^bold>\<open>underscore.js.\<close> One theory per section of the file, one definition per function (suffix \<open>_u\<close>):
  \<open>Underscore_Core\<close> (callbacks, keys, accessors), \<open>Underscore_Collections\<close> (\<open>sortBy\<close> is a stable
  sort, \<open>sortedIndex\<close> is the insertion point, grouping, searching, folding, shuffling),
  \<open>Underscore_Arrays\<close> (\<open>uniq\<close>, set operations, \<open>flatten\<close>, pairs and objects), \<open>Underscore_Functions\<close>
  (\<open>throttle\<close> and \<open>debounce\<close> against a clock with pending timers, \<open>memoize\<close>, partial application),
  \<open>Underscore_Objects\<close> (\<open>extend\<close>, \<open>isEqual\<close> on cyclic objects: it ends, and is equality of
  structure), \<open>Underscore_Utility\<close> (\<open>escape\<close>, the source text that \<open>template\<close> compiles, chaining).

  \<^bold>\<open>searchtools.js.\<close> \<open>Search_Stemmer\<close> (the Porter stemmer with a regular expression matcher),
  \<open>Search_Query\<close> (splitting of a query), \<open>Search_Module\<close> (the operations of \<open>Search\<close>, with the
  state machine that waits for the index), \<open>Search_Ranking\<close> (order of results, their display,
  well-formed queries), \<open>Search_Terms\<close> (the full-text search returns exactly the documents that have
  every term).

  \<^bold>\<open>doctools.js, websupport.js, small scripts.\<close> \<open>Doctools\<close>; \<open>Websupport\<close> (the renderer, the comment
  tree, votes and requests) and \<open>Websupport_Pages\<close> (no injection of markup, votes and arrows agree,
  order of comments, the cookie); \<open>Page_Scripts\<close> (theme and javadoc).

  \<^bold>\<open>jquery.js\<close> (suffix \<open>_jq\<close> where a name is shared with underscore).
  \<open>JQuery_Core\<close>: type tests, loops and \<open>extend\<close>; a shallow \<open>jQuery.extend\<close> does what \<open>_.extend\<close> does.
  \<open>JQuery_Callbacks\<close>: \<open>Callbacks\<close>, \<open>Deferred\<close> and \<open>when\<close> as a machine with the call stack, so that
  callbacks may add, remove and fire while a list is being fired; firing never leaves the list.
  \<open>JQuery_Deferred\<close>: the contract of a deferred on pages that use its public methods: it is settled at
  most once, and a callback runs exactly when its side was chosen, with the settled arguments.
  \<open>JQuery_Param\<close>: \<open>param\<close> and \<open>serialize\<close>, read back by \<open>getQueryParameters\<close> of \<open>doctools.js\<close>.
  \<open>JQuery_Classes\<close>: the class methods as operations on a list of names.
  \<open>JQuery_Ajax_Data\<close>: the registry of prefilters and transports, the choice of a response and its
  conversion, which only applies registered converters along the chain of types.
  \<open>JQuery_Data\<close>: the data of elements in \<open>jQuery.cache\<close>, with numbers of elements that are used again,
  is one map per element; its private part is the interface \<open>private_data\<close>, on which
  \<open>JQuery_Queue\<close> rests: the functions of an effects queue run in order and one at a time, and promises
  are resolved when the queues they wait for are empty.
  \<open>JQuery_Events\<close>: \<open>jQuery.event\<close> (\<open>add\<close>, \<open>remove\<close>, \<open>handlers\<close>, \<open>dispatch\<close>); the lists by type refine one list of
  handlers in the order of their binding (interface \<open>op_simulation\<close>), and an event calls its handlers in this
  order, delegated ones first. \<open>JQuery_Trigger\<close>: an event that a script triggers does so at every node on its way
  to the window.
  \<open>JQuery_Selectors\<close>: the matchers that the selector engine compiles, and their run with the answers it
  stores on nodes; they select what the selector describes. \<open>JQuery_Nth\<close>: the filters for the place among
  siblings, with the places they store. Events and selectors are put together at the end of this theory:
  the selectors of delegated handlers are decided by the engine.
  \<open>JQuery_Ajax\<close>: the life of requests as a machine with the call stack; \<open>jQuery.active\<close> counts them, on
  pages that do not abort a request while it is being started (and not on others).

  \<^bold>\<open>Bounds and fuel.\<close>
  The recursion of \<open>isEqual\<close> on the store, of \<open>flatten\<close> and of deep \<open>extend\<close> carries a depth, the
  size of the JavaScript call stack, and so does \<open>off\<close> of a word without a type: \<open>None\<close> is the stack overflow of the program. The theorems
  show that a depth that depends on the size of the store is enough where the code ends. The loop
  of \<open>ajaxConvert\<close>, which extends the list it runs through, is given twice the number of data types
  and one more, which is shown to be enough. Regular expressions are run by structural recursion.
  Numbers are integers with minus zero, the infinities and NaN; strings have characters
  with codes below 256, except in \<open>Search_Query\<close>, which is generic in the character type.

  \<^bold>\<open>Not modelled.\<close>
  Of \<open>jquery.js\<close>: of the selector engine the tokenizer, positional pseudo-classes and the use of the
  browser's own queries; the DOM, CSS and effects; of events the default action of \<open>trigger\<close>,
  \<open>simulate\<close> and the properties of native events, which belong to the browser; and of Ajax the headers,
  the address of a request, \<open>ifModified\<close> and the transports of the browser. Of the language: the accessor \<open>__proto__\<close>, and names inherited from \<open>Object.prototype\<close> as data types of
  requests. The execution of the code that \<open>_.template\<close> generates (\<open>new Function\<close>).
  \<open>searchindex.js\<close> is data. The Java application passes its requests on to Spring, the
  Cassandra driver and a cryptography library, none of which is in the repository; the Python
  client \<open>cqlsh\<close>, start scripts and configuration belong to the distribution and are not JavaScript.
\<close>

section \<open>Events and selectors\<close>

text \<open>
  A delegated handler tests a node with \<open>jQuery.find( sel, this, null, [ cur ] )\<close>, which runs the compiled
  selector on this node with the element as context.
\<close>

definition find_test :: "sel_dom \<Rightarrow> (nat \<Rightarrow> nat \<Rightarrow> bool) \<Rightarrow> (string \<Rightarrow> matcher list) \<Rightarrow> (string \<Rightarrow> nat \<Rightarrow> sel_page) \<Rightarrow> bool \<Rightarrow> nat \<Rightarrow>
    string \<Rightarrow> nat \<Rightarrow> bool" where
  "find_test D other ms page xml this s cur \<longleftrightarrow> fst (superMatcher D other (ms s) [cur] (CNode this) xml (sp_engine (page s cur))) \<noteq> []"

lemma find_test_describes:
  assumes "\<And>s cur. reachable sel_start (sel_move D other) (page s cur)" "\<And>s cur. (toks s, ms s) \<in> set (sp_compiled (page s cur))"
  shows "find_test D other ms page xml this = (\<lambda>s cur. \<exists>g\<in>set (toks s). described (sel_env_of D other (CNode this) xml) (rev g) cur)"
proof (intro ext)
  fix s cur
  have "sel_inv (page s cur)" by (rule sel_pages.reachable_inv [OF assms(1)])
  then obtain n n' where "compile_sel (toks s) n = Some (ms s, n')" "wf_engine (sp_engine (page s cur))"
    using assms(2) [of s cur] by (auto simp: sel_inv_def)
  from superMatcher_selects(1) [OF this, of D other "[cur]" "CNode this" xml]
  show "find_test D other ms page xml this s cur = (\<exists>g\<in>set (toks s). described (sel_env_of D other (CNode this) xml) (rev g) cur)"
    by (simp add: find_test_def)
qed



end
